(* ===== verification/GK_Prelude.thy ===== *)
theory GK_Prelude
  imports Main "HOL-Library.Word" "HOL-Library.Code_Target_Nat"
begin

text \<open>
  Types and generic facts shared by every component of the development: machine integers, byte
  strings, exceptions as values of a sum type, and the decimal conversions of the C++ standard
  library that GateKeeper uses (\<open>std::to_string\<close>, \<open>std::stoull\<close>, \<open>std::stoll\<close>).

  A \<open>std::string\<close>, \<open>std::string_view\<close> or \<open>std::vector<std::uint8_t>\<close> is a list of
  bytes; bytes are the 256 values of type \<open>char\<close>. A position into an input that only moves
  forward is modelled by the input that is left.
\<close>

unbundle bit_operations_syntax

named_theorems wire_simps \<open>big-endian integers read back from the bytes they were written to\<close>

section \<open>Machine integers and byte strings\<close>

type_synonym u8 = "8 word"
type_synonym u16 = "16 word"
type_synonym u32 = "32 word"
type_synonym u64 = "64 word"

text \<open>\<open>std::int64_t\<close> in two's complement: the bit pattern; its value is \<open>sint\<close>.\<close>

type_synonym i64 = "64 word"

type_synonym bytes = string

lemma unat_u64_less: "unat (w :: u64) < 2 ^ 64"
proof -
  have "unat w < 2 ^ LENGTH(64)" by (rule unsigned_less)
  then show ?thesis by simp
qed


section \<open>Character classes (\<open>std::isdigit\<close>, \<open>std::isspace\<close> in the C locale)\<close>

definition byte_val :: "char \<Rightarrow> nat" where
  "byte_val c = of_char c"

definition isdigit :: "char \<Rightarrow> bool" where
  "isdigit c \<longleftrightarrow> 48 \<le> byte_val c \<and> byte_val c \<le> 57"

definition isspace :: "char \<Rightarrow> bool" where
  "isspace c \<longleftrightarrow> byte_val c = 32 \<or> (9 \<le> byte_val c \<and> byte_val c \<le> 13)"

lemma byte_val_char_of [simp]: "n < 256 \<Longrightarrow> byte_val (char_of n) = n"
  by (simp add: byte_val_def)

lemma char_of_byte_val [simp]: "char_of (byte_val c) = c"
  by (simp add: byte_val_def)

lemma byte_val_less [simp]: "byte_val c < 256"
proof -
  have "of_char c = (of_char c :: nat) mod 256" by simp
  then show ?thesis unfolding byte_val_def by (metis mod_less_divisor zero_less_numeral)
qed

lemma byte_val_eq_iff [simp]: "byte_val c = byte_val d \<longleftrightarrow> c = d"
  by (simp add: byte_val_def)

lemma isdigit_not_isspace: "isdigit c \<Longrightarrow> \<not> isspace c"
  by (simp add: isdigit_def isspace_def)

section \<open>Decimal printing and parsing\<close>

definition digit_char :: "nat \<Rightarrow> char" where
  "digit_char d = char_of (48 + d)"

fun to_dec :: "nat \<Rightarrow> string" where
  "to_dec n = (if n < 10 then [digit_char n] else to_dec (n div 10) @ [digit_char (n mod 10)])"

declare to_dec.simps [simp del]

text \<open>\<open>std::to_string\<close> on \<open>std::uint64_t\<close>, \<open>std::size_t\<close> and on signed 64-bit integers.\<close>

definition to_string_u64 :: "u64 \<Rightarrow> string" where
  "to_string_u64 w = to_dec (unat w)"

definition to_string_i64 :: "i64 \<Rightarrow> string" where
  "to_string_i64 w = (if sint w < 0 then CHR ''-'' # to_dec (nat (- sint w)) else to_dec (nat (sint w)))"

definition dec_value :: "string \<Rightarrow> nat" where
  "dec_value s = foldl (\<lambda>a c. a * 10 + (byte_val c - 48)) 0 s"

text \<open>
  The common part of \<open>strtoull\<close> and \<open>strtoll\<close> at base ten: white space is skipped, one sign
  is accepted, the longest run of digits is read. \<open>None\<close> when there is no digit; otherwise
  the sign, the magnitude and the index of the first character that was not read.
\<close>

definition scan_dec :: "string \<Rightarrow> (bool \<times> nat \<times> nat) option" where
  "scan_dec s =
     (let r = dropWhile isspace s;
          neg = (r \<noteq> [] \<and> hd r = CHR ''-'');
          d = (if r \<noteq> [] \<and> (hd r = CHR ''-'' \<or> hd r = CHR ''+'') then tl r else r);
          ds = takeWhile isdigit d
      in if ds = [] then None
         else Some (neg, dec_value ds, length s - (length d - length ds)))"

text \<open>
  \<open>std::stoull(s, &idx)\<close>: \<open>None\<close> for \<open>std::invalid_argument\<close> (no digit) and for
  \<open>std::out_of_range\<close>; a leading minus sign negates modulo \<open>2 ^ 64\<close>, as \<open>strtoull\<close> does.
\<close>

definition stoull :: "string \<Rightarrow> (u64 \<times> nat) option" where
  "stoull s = (case scan_dec s of None \<Rightarrow> None
     | Some (neg, v, idx) \<Rightarrow>
         if v \<ge> 2 ^ 64 then None else Some (if neg then - of_nat v else of_nat v, idx))"

definition stoll :: "string \<Rightarrow> (i64 \<times> nat) option" where
  "stoll s = (case scan_dec s of None \<Rightarrow> None
     | Some (neg, v, idx) \<Rightarrow>
         if (if neg then v > 2 ^ 63 else v \<ge> 2 ^ 63) then None
         else Some (if neg then - of_nat v else of_nat v, idx))"

subsection \<open>Parsing what was printed\<close>

lemma digit_char_isdigit [simp]: "d < 10 \<Longrightarrow> isdigit (digit_char d)"
  by (simp add: digit_char_def isdigit_def)

lemma to_dec_induct [case_names small big]:
  assumes "\<And>n. n < 10 \<Longrightarrow> P n" and "\<And>n. \<not> n < 10 \<Longrightarrow> P (n div 10) \<Longrightarrow> P n"
  shows "P (n::nat)"
  by (induction n rule: to_dec.induct) (use assms in blast)

lemma to_dec_not_Nil [simp]: "to_dec n \<noteq> []"
  by (subst to_dec.simps) simp

lemma to_dec_digits [simp]: "c \<in> set (to_dec n) \<Longrightarrow> isdigit c"
proof (induction n rule: to_dec_induct)
  case (small n)
  then show ?case by (simp add: to_dec.simps [of n])
next
  case (big n)
  then show ?case by (auto simp: to_dec.simps [of n])
qed

lemma dec_value_snoc: "dec_value (s @ [c]) = dec_value s * 10 + (byte_val c - 48)"
  by (simp add: dec_value_def)

lemma dec_value_to_dec [simp]: "dec_value (to_dec n) = n"
proof (induction n rule: to_dec_induct)
  case (small n)
  then show ?case by (simp add: to_dec.simps [of n] dec_value_def digit_char_def)
next
  case (big n)
  then show ?case
    by (simp add: to_dec.simps [of n] dec_value_snoc digit_char_def)
qed

lemma takeWhile_to_dec [simp]: "takeWhile isdigit (to_dec n) = to_dec n"
  by (simp add: takeWhile_eq_all_conv)

lemma hd_to_dec_isdigit [simp]: "isdigit (hd (to_dec n))"
  by (rule to_dec_digits) (rule hd_in_set, simp)

lemma dropWhile_isspace_to_dec [simp]: "dropWhile isspace (to_dec n) = to_dec n"
  by (metis dropWhile_eq_self_iff hd_to_dec_isdigit isdigit_not_isspace)

lemma isdigit_not_sign: "isdigit c \<Longrightarrow> c \<noteq> CHR ''-'' \<and> c \<noteq> CHR ''+''"
  by (auto simp: isdigit_def byte_val_def)

lemma scan_dec_to_dec [simp]: "scan_dec (to_dec n) = Some (False, n, length (to_dec n))"
  using isdigit_not_sign [OF hd_to_dec_isdigit [of n]] by (simp add: scan_dec_def Let_def)

lemma isspace_minus [simp]: "\<not> isspace (CHR ''-'')"
  by (simp add: isspace_def byte_val_def)

lemma scan_dec_minus_to_dec [simp]:
  "scan_dec (CHR ''-'' # to_dec n) = Some (True, n, Suc (length (to_dec n)))"
  by (simp add: scan_dec_def Let_def)

lemma stoull_to_string_u64 [simp]:
  "stoull (to_string_u64 w) = Some (w, length (to_string_u64 w))"
proof -
  have "unat w < 2 ^ 64" by (rule unat_u64_less)
  then show ?thesis by (simp add: stoull_def to_string_u64_def)
qed

lemma sint_range_i64: "- (2 ^ 63) \<le> sint (w :: i64)" "sint (w :: i64) < 2 ^ 63"
  using sint_range_size [of w] by (simp_all add: word_size)

lemma of_nat_nat_sint: "0 \<le> sint w \<Longrightarrow> of_nat (nat (sint w)) = (w :: i64)"
  by (simp add: of_nat_nat)

lemma of_nat_nat_neg_sint: "sint w < 0 \<Longrightarrow> - of_nat (nat (- sint w)) = (w :: i64)"
  by (simp add: of_nat_nat)

lemma stoll_to_string_i64 [simp]:
  "stoll (to_string_i64 w) = Some (w, length (to_string_i64 w))"
  using sint_range_i64 [of w]
  by (auto simp: stoll_def to_string_i64_def of_nat_nat_sint of_nat_nat_neg_sint nat_less_iff)

end
