(* ===== verification/GK_Entry.thy ===== *)
theory GK_Entry
  imports GK_Prelude
begin

text \<open>
  The data of the store, \<open>include/gatekeeper/storage/entry.h\<close>: the four kinds of stored record
  with their deadlines, and the result structures of the store's operations. A result structure
  is a datatype with one constructor, so that it is written like the aggregate initialisers of
  the code. The locale \<open>expiring\<close> is the contract the four \<open>IsExpired\<close> methods share.
\<close>

datatype DataType = DataType_None | DataType_String

record EntryMetadata =
  meta_type :: DataType
  created_at_ms :: u64
  expire_at_ms :: u64

record Entry =
  e_key :: string
  e_value :: string
  meta :: EntryMetadata

record RateLimitRecord =
  rl_key :: string
  current_window_idx :: u64
  current_count :: u64
  previous_count :: u64
  rl_window_ms :: u64
  rl_expire_at_ms :: u64

record Reservation =
  res_id :: string
  res_key :: string
  res_amount :: u64
  res_created_at_ms :: u64
  res_expire_at_ms :: u64

datatype IdempotencyStatus = Status_None | InProgress | Completed | Failed

record IdempotencyRecord =
  idem_key :: string
  request_hash :: string
  status :: IdempotencyStatus
  response_code :: "32 word"
  response_body :: string
  owner_token :: string
  idem_created_at_ms :: u64
  idem_expire_at_ms :: u64

datatype IdempotencyAction = Execute | Park | Replay | Conflict

datatype IncrResult =
  IncrResult (incr_ok: bool) (incr_value: i64) (incr_error_code: string) (incr_error_message: string)

datatype RateLimitResult =
  RateLimitResult (rl_ok: bool) (allowed: bool) (rl_remaining: u64) (retry_after_ms: u64)
    (rl_error_code: string) (rl_error_message: string)

datatype ReservationResult =
  ReservationResult (rv_ok: bool) (reserved: bool) (reservation_id: string) (rv_remaining: u64)
    (rv_error_code: string) (rv_error_message: string)

datatype CommitResult =
  CommitResult (cm_ok: bool) (committed: bool) (actual_amount: u64) (cm_refunded: u64)
    (cm_remaining: u64) (cm_error_code: string) (cm_error_message: string)

datatype RollbackResult =
  RollbackResult (rb_ok: bool) (rolled_back: bool) (rb_refunded: u64) (rb_remaining: u64)
    (rb_error_code: string) (rb_error_message: string)

datatype IdempotencyBeginResult =
  IdempotencyBeginResult (ib_ok: bool) (ib_action: IdempotencyAction) (ib_owner_token: string)
    (cached_code: "32 word") (cached_response: string) (ib_error_code: string) (ib_error_message: string)

datatype IdempotencyCompleteResult =
  IdempotencyCompleteResult (ic_ok: bool) (ic_completed: bool) (ic_error_code: string)
    (ic_error_message: string)

datatype IdempotencyFailResult =
  IdempotencyFailResult (if_ok: bool) (if_failed: bool) (if_error_code: string)
    (if_error_message: string)

datatype WriteCondition = Always | IfAbsent | IfPresent

section \<open>Expiry\<close>

definition EntryMetadata_IsExpired :: "EntryMetadata \<Rightarrow> u64 \<Rightarrow> bool" where
  "EntryMetadata_IsExpired m now_ms \<longleftrightarrow> expire_at_ms m > 0 \<and> now_ms \<ge> expire_at_ms m"

definition RateLimitRecord_IsExpired :: "RateLimitRecord \<Rightarrow> u64 \<Rightarrow> bool" where
  "RateLimitRecord_IsExpired r now_ms \<longleftrightarrow> rl_expire_at_ms r > 0 \<and> now_ms \<ge> rl_expire_at_ms r"

definition Reservation_IsExpired :: "Reservation \<Rightarrow> u64 \<Rightarrow> bool" where
  "Reservation_IsExpired r now_ms \<longleftrightarrow> res_expire_at_ms r > 0 \<and> now_ms \<ge> res_expire_at_ms r"

definition IdempotencyRecord_IsExpired :: "IdempotencyRecord \<Rightarrow> u64 \<Rightarrow> bool" where
  "IdempotencyRecord_IsExpired r now_ms \<longleftrightarrow> idem_expire_at_ms r > 0 \<and> now_ms \<ge> idem_expire_at_ms r"

locale expiring =
  fixes deadline :: "'r \<Rightarrow> u64"
    and is_expired :: "'r \<Rightarrow> u64 \<Rightarrow> bool"
  assumes is_expired_iff: "is_expired r now \<longleftrightarrow> deadline r > 0 \<and> now \<ge> deadline r"
begin

lemma no_deadline: "deadline r = 0 \<Longrightarrow> \<not> is_expired r now"
  by (simp add: is_expired_iff)

lemma expired_later: "is_expired r now \<Longrightarrow> now \<le> now' \<Longrightarrow> is_expired r now'"
  by (auto simp: is_expired_iff intro: order_trans)

text \<open>What a client of lazy expiry sees of an optional record at a time.\<close>

definition visible :: "u64 \<Rightarrow> 'r option \<Rightarrow> 'r option" where
  "visible now x = (case x of None \<Rightarrow> None | Some r \<Rightarrow> if is_expired r now then None else Some r)"

lemma visible_simps [simp]:
  "visible now None = None"
  "is_expired r now \<Longrightarrow> visible now (Some r) = None"
  "\<not> is_expired r now \<Longrightarrow> visible now (Some r) = Some r"
  by (simp_all add: visible_def)

lemma visible_Some_iff: "visible now x = Some r \<longleftrightarrow> x = Some r \<and> \<not> is_expired r now"
  by (auto simp: visible_def split: option.splits)

lemma visible_None_iff: "visible now x = None \<longleftrightarrow> (\<forall>r. x = Some r \<longrightarrow> is_expired r now)"
  by (auto simp: visible_def split: option.splits)

text \<open>A record that is invisible now stays invisible: dropping it early cannot be observed.\<close>

lemma visible_later: "now \<le> now' \<Longrightarrow> visible now' (visible now x) = visible now' x"
  by (auto simp: visible_def dest: expired_later split: option.splits)

end

interpretation entry: expiring "\<lambda>e. expire_at_ms (meta e)" "\<lambda>e. EntryMetadata_IsExpired (meta e)"
  by unfold_locales (simp add: EntryMetadata_IsExpired_def)

interpretation rate: expiring rl_expire_at_ms RateLimitRecord_IsExpired
  by unfold_locales (simp add: RateLimitRecord_IsExpired_def)

interpretation resv: expiring res_expire_at_ms Reservation_IsExpired
  by unfold_locales (simp add: Reservation_IsExpired_def)

interpretation idem: expiring idem_expire_at_ms IdempotencyRecord_IsExpired
  by unfold_locales (simp add: IdempotencyRecord_IsExpired_def)

end
