(* ===== verification/GK_Float.thy ===== *)
theory GK_Float
  imports Complex_Main GK_Prelude
begin

text \<open>
  Binary floating point as GateKeeper uses it: \<open>float\<close> (24-bit significand) in the hash table's
  load test and \<open>double\<close> (53-bit significand) in the rate limiter. A finite non-negative value
  is its rational number; every operation is the exact rational operation followed by rounding to
  nearest, ties to even. All values the code computes with are zero or lie between
  \<open>2 ^ -64\<close> and \<open>2 ^ 65\<close>, far inside the exponent range of both formats, so there is no
  overflow and no subnormal number to model.
\<close>

fun bit_length :: "nat \<Rightarrow> nat" where
  "bit_length n = (if n = 0 then 0 else Suc (bit_length (n div 2)))"

declare bit_length.simps [simp del]

definition pow2r :: "int \<Rightarrow> rat" where
  "pow2r e = (if 0 \<le> e then 2 ^ nat e else 1 / 2 ^ nat (- e))"

text \<open>The binary exponent of a positive number: \<open>2 ^ e \<le> x < 2 ^ (e + 1)\<close>.\<close>

definition fl_exp :: "rat \<Rightarrow> int" where
  "fl_exp x = (if 1 \<le> x then int (bit_length (nat \<lfloor>x\<rfloor>)) - 1
               else - int (bit_length (nat (\<lceil>1 / x\<rceil> - 1))))"

text \<open>Round to the nearest integer, ties to even.\<close>

definition rne :: "rat \<Rightarrow> int" where
  "rne y = (let f = \<lfloor>y\<rfloor>; d = y - of_int f
            in if d < 1 / 2 then f else if 1 / 2 < d then f + 1 else if even f then f else f + 1)"

definition fl_round :: "nat \<Rightarrow> rat \<Rightarrow> rat" where
  "fl_round p x = (if x \<le> 0 then 0
     else (let s = pow2r (int p - 1 - fl_exp x) in of_int (rne (x * s)) / s))"

text \<open>Conversions \<open>static_cast<float>\<close> and \<open>static_cast<double>\<close> of an unsigned integer.\<close>

definition float_of :: "nat \<Rightarrow> rat" where
  "float_of n = fl_round 24 (of_nat n)"

definition double_of :: "nat \<Rightarrow> rat" where
  "double_of n = fl_round 53 (of_nat n)"

section \<open>Facts\<close>

lemma pow2r_pos [simp]: "0 < pow2r e"
  by (simp add: pow2r_def)

lemma pow2r_int: "0 \<le> e \<Longrightarrow> pow2r e = of_int (2 ^ nat e)"
  by (simp add: pow2r_def)

lemma bit_length_0 [simp]: "bit_length 0 = 0"
  by (simp add: bit_length.simps)

lemma bit_length_le: "n < 2 ^ k \<Longrightarrow> bit_length n \<le> k"
proof (induction k arbitrary: n)
  case 0
  then show ?case by simp
next
  case (Suc k)
  then have "n div 2 < 2 ^ k" by (simp add: less_mult_imp_div_less mult.commute)
  then show ?case using Suc.IH by (simp add: bit_length.simps [of n])
qed

lemma rne_int [simp]: "rne (of_int n) = n"
  by (simp add: rne_def Let_def)

lemma rne_le: "y \<le> of_int m \<Longrightarrow> rne y \<le> m"
proof -
  assume y: "y \<le> of_int m"
  have f: "\<lfloor>y\<rfloor> \<le> m" using y by (simp add: floor_le_iff)
  show "rne y \<le> m"
  proof (cases "\<lfloor>y\<rfloor> = m")
    case True
    then have "y = of_int m" using y of_int_floor_le [of y] by simp
    then show ?thesis by simp
  next
    case False
    with f have "\<lfloor>y\<rfloor> + 1 \<le> m" by simp
    then show ?thesis by (auto simp: rne_def Let_def)
  qed
qed

lemma rne_ge_0: "0 \<le> y \<Longrightarrow> 0 \<le> rne y"
  by (auto simp: rne_def Let_def)

lemma fl_round_ge_0 [simp]: "0 \<le> fl_round p x"
  by (auto simp: fl_round_def Let_def intro!: divide_nonneg_pos rne_ge_0 mult_nonneg_nonneg
      less_imp_le [OF pow2r_pos])

lemma fl_exp_le:
  assumes "0 < x" "x < of_nat (2 ^ k)"
  shows "fl_exp x < int k \<or> fl_exp x \<le> 0 \<and> x < 1"
proof (cases "1 \<le> x")
  case True
  have "\<lfloor>x\<rfloor> < 2 ^ k" using assms(2) by (simp add: floor_less_iff)
  then have "nat \<lfloor>x\<rfloor> < 2 ^ k" using True by (simp add: nat_less_iff)
  then have "bit_length (nat \<lfloor>x\<rfloor>) \<le> k" by (rule bit_length_le)
  then show ?thesis using True by (simp add: fl_exp_def)
next
  case False
  then show ?thesis by (simp add: fl_exp_def)
qed

lemma fl_round_le_scaled:
  assumes "x \<le> y" "0 \<le> y" "y * pow2r (int p - 1 - fl_exp x) = of_int m"
  shows "fl_round p x \<le> y"
proof -
  let ?s = "pow2r (int p - 1 - fl_exp x)"
  have "x * ?s \<le> of_int m"
    using assms(1,3) by (metis mult_right_mono less_imp_le pow2r_pos)
  then have "of_int (rne (x * ?s)) \<le> (of_int m :: rat)" by (simp add: rne_le)
  then have "of_int (rne (x * ?s)) \<le> y * ?s" by (simp only: assms(3))
  then have "of_int (rne (x * ?s)) / ?s \<le> y" by (simp only: pos_divide_le_eq [OF pow2r_pos])
  then show ?thesis using assms(2) by (simp add: fl_round_def Let_def)
qed

text \<open>An integer that fits the significand bounds the rounding of everything below it.\<close>

lemma fl_round_le_nat:
  assumes "x \<le> of_nat n" "n < 2 ^ p" "0 < p"
  shows "fl_round p x \<le> of_nat n"
proof (cases "0 < x")
  case True
  have "of_nat n < (of_nat (2 ^ p) :: rat)" using assms(2) by (simp only: of_nat_less_iff)
  with assms(1) have "x < of_nat (2 ^ p)" by (rule le_less_trans)
  then have "0 \<le> int p - 1 - fl_exp x" using fl_exp_le [OF True] assms(3) by fastforce
  then have "of_nat n * pow2r (int p - 1 - fl_exp x)
      = of_int (int n * 2 ^ nat (int p - 1 - fl_exp x))"
    by (simp add: pow2r_int)
  then show ?thesis by (rule fl_round_le_scaled [OF assms(1) of_nat_0_le_iff])
next
  case False
  then show ?thesis by (simp add: fl_round_def)
qed

lemma fl_round_nat [simp]:
  assumes "n < 2 ^ p" "0 < p"
  shows "fl_round p (of_nat n) = of_nat n"
proof (cases "n = 0")
  case True
  then show ?thesis by (simp add: fl_round_def)
next
  case False
  then have pos: "0 < (of_nat n :: rat)" by simp
  have "of_nat n < (of_nat (2 ^ p) :: rat)" using assms(1) by (simp only: of_nat_less_iff)
  then have "0 \<le> int p - 1 - fl_exp (of_nat n)" using fl_exp_le [OF pos] assms(2) by fastforce
  then have "of_nat n * pow2r (int p - 1 - fl_exp (of_nat n))
      = of_int (int n * 2 ^ nat (int p - 1 - fl_exp (of_nat n)))"
    by (simp add: pow2r_int)
  then have "rne (of_nat n * pow2r (int p - 1 - fl_exp (of_nat n)))
      = int n * 2 ^ nat (int p - 1 - fl_exp (of_nat n))"
    by (simp only: rne_int)
  then show ?thesis using pos \<open>0 \<le> _\<close> by (simp add: fl_round_def Let_def pow2r_int)
qed

lemma float_of_exact: "n < 2 ^ 24 \<Longrightarrow> float_of n = of_nat n"
  by (simp add: float_of_def)

lemma double_of_exact: "n < 2 ^ 53 \<Longrightarrow> double_of n = of_nat n"
  by (simp add: double_of_def)

end
