(* ===== verification/GK_Hash_Table.thy ===== *)
theory GK_Hash_Table
  imports GK_Float
begin

text \<open>
  The chained hash table of \<open>include/gatekeeper/storage/hash_table.h\<close>. A table is its vector of
  buckets, each the chain of nodes reached from the bucket's head pointer, the node count and the
  maximal load factor. The template argument \<open>Hash\<close> is the parameter \<open>h\<close>; \<open>KeyEqual\<close> is
  equality. Container sizes are natural numbers.

  The interface the rest of the store relies on is the locale \<open>keyed_table\<close>; the table is shown
  to implement it for every hash function.
\<close>

section \<open>The table\<close>

record ('k, 'v) hash_table =
  buckets :: "('k \<times> 'v) list list"
  ht_size :: nat
  max_load_factor :: rat

definition HashTable :: "nat \<Rightarrow> rat \<Rightarrow> ('k, 'v) hash_table" where
  "HashTable initial_capacity mlf =
     \<lparr>buckets = replicate (if initial_capacity < 8 then 8 else initial_capacity) [],
      ht_size = 0,
      max_load_factor = (if mlf > fl_round 24 (1 / 10) then mlf else 3 / 4)\<rparr>"

text \<open>The default arguments: sixteen buckets, load factor \<open>0.75f\<close>.\<close>

definition HashTable_default :: "('k, 'v) hash_table" where
  "HashTable_default = HashTable 16 (3 / 4)"

definition HashKey :: "('k \<Rightarrow> nat) \<Rightarrow> ('k, 'v) hash_table \<Rightarrow> 'k \<Rightarrow> nat" where
  "HashKey h t key = h key mod length (buckets t)"

fun chain_find :: "'k \<Rightarrow> ('k \<times> 'v) list \<Rightarrow> 'v option" where
  "chain_find key [] = None"
| "chain_find key ((k, v) # rest) = (if k = key then Some v else chain_find key rest)"

text \<open>Writing through the pointer to the value of the first node with the key.\<close>

fun chain_write :: "'k \<Rightarrow> ('v \<Rightarrow> 'v) \<Rightarrow> ('k \<times> 'v) list \<Rightarrow> ('k \<times> 'v) list" where
  "chain_write key f [] = []"
| "chain_write key f ((k, v) # rest) =
     (if k = key then (k, f v) # rest else (k, v) # chain_write key f rest)"

fun chain_erase :: "'k \<Rightarrow> ('k \<times> 'v) list \<Rightarrow> ('k \<times> 'v) list" where
  "chain_erase key [] = []"
| "chain_erase key ((k, v) # rest) = (if k = key then rest else (k, v) # chain_erase key rest)"

text \<open>One node moved to the front of its bucket in the new vector, as the loop of \<open>Resize\<close> does.\<close>

definition rehash_node ::
  "('k \<Rightarrow> nat) \<Rightarrow> ('k \<times> 'v) \<Rightarrow> ('k \<times> 'v) list list \<Rightarrow> ('k \<times> 'v) list list" where
  "rehash_node h nd bs = (let i = h (fst nd) mod length bs in bs[i := nd # bs ! i])"

definition Resize :: "('k \<Rightarrow> nat) \<Rightarrow> nat \<Rightarrow> ('k, 'v) hash_table \<Rightarrow> ('k, 'v) hash_table" where
  "Resize h new_capacity t =
     (if new_capacity \<le> ht_size t then t
      else t\<lparr>buckets := fold (fold (rehash_node h)) (buckets t) (replicate new_capacity [])\<rparr>)"

definition over_load :: "('k, 'v) hash_table \<Rightarrow> bool" where
  "over_load t \<longleftrightarrow>
     float_of (ht_size t + 1) > fl_round 24 (float_of (length (buckets t)) * max_load_factor t)"

definition Insert ::
  "('k \<Rightarrow> nat) \<Rightarrow> 'k \<Rightarrow> 'v \<Rightarrow> ('k, 'v) hash_table \<Rightarrow> ('k, 'v) hash_table \<times> bool" where
  "Insert h key v t0 =
     (let t = (if buckets t0 = [] then Resize h 8 t0 else t0);
          i = HashKey h t key
      in if chain_find key (buckets t ! i) \<noteq> None
         then (t\<lparr>buckets := (buckets t)[i := chain_write key (\<lambda>_. v) (buckets t ! i)]\<rparr>, False)
         else (let t' = (if over_load t then Resize h (length (buckets t) * 2) t else t);
                   j = HashKey h t' key
               in (t'\<lparr>buckets := (buckets t')[j := (key, v) # buckets t' ! j],
                      ht_size := ht_size t' + 1\<rparr>, True)))"

definition Find :: "('k \<Rightarrow> nat) \<Rightarrow> 'k \<Rightarrow> ('k, 'v) hash_table \<Rightarrow> 'v option" where
  "Find h key t =
     (if buckets t = [] then None else chain_find key (buckets t ! HashKey h t key))"

text \<open>An assignment through the pointer \<open>Find\<close> returned: \<open>*Find(key) = f(*Find(key))\<close>.\<close>

definition Write :: "('k \<Rightarrow> nat) \<Rightarrow> 'k \<Rightarrow> ('v \<Rightarrow> 'v) \<Rightarrow> ('k, 'v) hash_table \<Rightarrow> ('k, 'v) hash_table" where
  "Write h key f t =
     (if buckets t = [] then t
      else (let i = HashKey h t key
            in t\<lparr>buckets := (buckets t)[i := chain_write key f (buckets t ! i)]\<rparr>))"

definition Erase :: "('k \<Rightarrow> nat) \<Rightarrow> 'k \<Rightarrow> ('k, 'v) hash_table \<Rightarrow> ('k, 'v) hash_table \<times> bool" where
  "Erase h key t =
     (if buckets t = [] then (t, False)
      else (let i = HashKey h t key
            in if chain_find key (buckets t ! i) \<noteq> None
               then (t\<lparr>buckets := (buckets t)[i := chain_erase key (buckets t ! i)],
                       ht_size := ht_size t - 1\<rparr>, True)
               else (t, False)))"

definition Clear :: "('k, 'v) hash_table \<Rightarrow> ('k, 'v) hash_table" where
  "Clear t = t\<lparr>buckets := map (\<lambda>_. []) (buckets t), ht_size := 0\<rparr>"

text \<open>The nodes in the order \<open>ForEach\<close> visits them.\<close>

definition nodes :: "('k, 'v) hash_table \<Rightarrow> ('k \<times> 'v) list" where
  "nodes t = concat (buckets t)"

definition HashTable_copy :: "('k \<Rightarrow> nat) \<Rightarrow> ('k, 'v) hash_table \<Rightarrow> ('k, 'v) hash_table" where
  "HashTable_copy h other =
     fold (\<lambda>(k, v) t. fst (Insert h k v t)) (nodes other)
       \<lparr>buckets = replicate (length (buckets other)) [], ht_size = 0,
        max_load_factor = max_load_factor other\<rparr>"

text \<open>Moving takes the nodes and leaves a table without buckets; assignment copies or moves, unless the
  two sides are the same object; \<open>Swap\<close> exchanges the tables.\<close>

definition HashTable_move :: "('k, 'v) hash_table \<Rightarrow> ('k, 'v) hash_table \<times> ('k, 'v) hash_table" where
  "HashTable_move other = (other, other\<lparr>buckets := [], ht_size := 0\<rparr>)"

definition HashTable_assign :: "('k \<Rightarrow> nat) \<Rightarrow> bool \<Rightarrow> ('k, 'v) hash_table \<Rightarrow> ('k, 'v) hash_table \<Rightarrow> ('k, 'v) hash_table" where
  "HashTable_assign h same this other = (if same then this else HashTable_copy h other)"

definition HashTable_move_assign ::
  "bool \<Rightarrow> ('k, 'v) hash_table \<Rightarrow> ('k, 'v) hash_table \<Rightarrow> ('k, 'v) hash_table \<times> ('k, 'v) hash_table" where
  "HashTable_move_assign same this other = (if same then (this, this) else HashTable_move other)"

definition Swap :: "('k, 'v) hash_table \<Rightarrow> ('k, 'v) hash_table \<Rightarrow> ('k, 'v) hash_table \<times> ('k, 'v) hash_table" where
  "Swap this other = (other, this)"

text \<open>The loop of \<open>Scan\<close> from bucket \<open>i\<close> on, with the keys collected so far.\<close>

fun scan_from :: "('k \<times> 'v) list list \<Rightarrow> nat \<Rightarrow> nat \<Rightarrow> 'k list \<Rightarrow> nat \<times> 'k list" where
  "scan_from [] i count result = (i, result)"
| "scan_from (b # bs) i count result =
     (if length result < count then scan_from bs (Suc i) count (result @ map fst b)
      else (i, result))"

definition Scan :: "nat \<Rightarrow> nat \<Rightarrow> ('k, 'v) hash_table \<Rightarrow> nat \<times> 'k list" where
  "Scan cursor count t =
     (if buckets t = [] then (0, [])
      else (let i = (if cursor \<ge> length (buckets t) then 0 else cursor);
                (j, result) = scan_from (drop i (buckets t)) i count []
            in (if j \<ge> length (buckets t) then 0 else j, result)))"

section \<open>The interface: a finite map with an enumeration\<close>

text \<open>
  What the store promises its clients of a table: lookups after each operation, an enumeration of
  the nodes without repetition that agrees with the lookups, and an invariant every operation
  keeps.
\<close>

locale keyed_table =
  fixes empty :: "'t"
    and find :: "'t \<Rightarrow> 'k \<Rightarrow> 'v option"
    and put :: "'k \<Rightarrow> 'v \<Rightarrow> 't \<Rightarrow> 't"
    and modify :: "'k \<Rightarrow> ('v \<Rightarrow> 'v) \<Rightarrow> 't \<Rightarrow> 't"
    and erase :: "'k \<Rightarrow> 't \<Rightarrow> 't"
    and entries :: "'t \<Rightarrow> ('k \<times> 'v) list"
    and invar :: "'t \<Rightarrow> bool"
  assumes invar_empty: "invar empty"
    and find_empty: "find empty = Map.empty"
    and invar_put: "invar t \<Longrightarrow> invar (put k v t)"
    and find_put: "invar t \<Longrightarrow> find (put k v t) = (find t)(k \<mapsto> v)"
    and invar_modify: "invar t \<Longrightarrow> invar (modify k f t)"
    and find_modify: "invar t \<Longrightarrow> find (modify k f t) = (find t)(k := map_option f (find t k))"
    and invar_erase: "invar t \<Longrightarrow> invar (erase k t)"
    and find_erase: "invar t \<Longrightarrow> find (erase k t) = (find t)(k := None)"
    and distinct_entries: "invar t \<Longrightarrow> distinct (map fst (entries t))"
    and map_of_entries: "invar t \<Longrightarrow> map_of (entries t) = find t"
begin

lemma in_entries_iff: "invar t \<Longrightarrow> (k, v) \<in> set (entries t) \<longleftrightarrow> find t k = Some v"
  by (metis distinct_entries map_of_entries map_of_eq_Some_iff)

lemma invar_erase_all: "invar t \<Longrightarrow> invar (fold erase ks t)"
  by (induction ks arbitrary: t) (simp_all add: invar_erase)

lemma find_erase_all:
  "invar t \<Longrightarrow> find (fold erase ks t) k = (if k \<in> set ks then None else find t k)"
  by (induction ks arbitrary: t) (auto simp: invar_erase find_erase)

text \<open>Counting the nodes a predicate selects counts the keys whose value it selects.\<close>

lemma length_filter_entries:
  assumes "invar t"
  shows "length (filter (\<lambda>(k, v). P k v) (entries t)) = card {k. \<exists>v. find t k = Some v \<and> P k v}"
proof -
  let ?xs = "filter (\<lambda>(k, v). P k v) (entries t)"
  have "distinct (map fst (entries t))" using assms by (rule distinct_entries)
  then have "distinct (map fst ?xs)" by (rule distinct_map_filter)
  then have "card (set (map fst ?xs)) = length ?xs" by (metis distinct_card length_map)
  moreover have "set (map fst ?xs) = {k. \<exists>v. find t k = Some v \<and> P k v}"
    by (force simp: in_entries_iff [OF assms])
  ultimately show ?thesis by simp
qed

lemma keys_of_filter_entries:
  assumes "invar t"
  shows "k \<in> set (map fst (filter (\<lambda>(k, v). P k v) (entries t)))
    \<longleftrightarrow> (\<exists>v. find t k = Some v \<and> P k v)"
  by (force simp: in_entries_iff [OF assms])

lemma finite_dom_find: "invar t \<Longrightarrow> finite (dom (find t))"
  by (metis finite_dom_map_of map_of_entries)

text \<open>Totals over the nodes follow the lookups.\<close>

lemma sum_entries:
  assumes "invar t"
  shows "sum_list (map (\<lambda>(k, v). w k v) (entries t)) = (\<Sum>k\<in>dom (find t). w k (the (find t k)) :: nat)"
proof -
  have d: "distinct (map fst (entries t))" using assms by (rule distinct_entries)
  then have "sum_list (map (\<lambda>(k, v). w k v) (entries t)) = (\<Sum>nd\<in>set (entries t). w (fst nd) (snd nd))"
    by (simp add: sum_list_distinct_conv_sum_set distinct_map case_prod_beta)
  also have "\<dots> = (\<Sum>nd\<in>set (entries t). w (fst nd) (the (find t (fst nd))))"
    by (rule sum.cong) (use in_entries_iff [OF assms] in auto)
  also have "\<dots> = (\<Sum>k\<in>fst ` set (entries t). w k (the (find t k)))"
    using d by (simp add: sum.reindex distinct_map)
  also have "fst ` set (entries t) = dom (find t)"
    using in_entries_iff [OF assms] by force
  finally show ?thesis .
qed

lemma sum_put:
  assumes "invar t" "find t k = None"
  shows "sum_list (map (\<lambda>(k, v). w k v) (entries (put k v t))) =
    sum_list (map (\<lambda>(k, v). w k v) (entries t)) + (w k v :: nat)"
proof -
  have "(\<Sum>x\<in>dom (find t). w x (the (((find t)(k \<mapsto> v)) x))) = (\<Sum>x\<in>dom (find t). w x (the (find t x)))"
    using assms(2) by (intro sum.cong) auto
  then show ?thesis
    using assms finite_dom_find [OF assms(1)]
    by (simp add: sum_entries invar_put find_put domIff)
qed

lemma sum_erase:
  assumes "invar t" "find t k = Some v"
  shows "sum_list (map (\<lambda>(k, v). w k v) (entries t)) =
    sum_list (map (\<lambda>(k, v). w k v) (entries (erase k t))) + (w k v :: nat)"
proof -
  have "(\<Sum>x\<in>dom (find t) - {k}. w x (the (((find t)(k := None)) x))) = (\<Sum>x\<in>dom (find t) - {k}. w x (the (find t x)))"
    by (intro sum.cong) auto
  then show ?thesis
    using assms finite_dom_find [OF assms(1)] sum.remove [of "dom (find t)" k "\<lambda>x. w x (the (find t x))"]
    by (simp add: sum_entries invar_erase find_erase domIff)
qed

end

section \<open>Chains\<close>

lemma chain_find_map_of: "chain_find k xs = map_of xs k"
  by (induction k xs rule: chain_find.induct) auto

lemma chain_write_keys [simp]: "map fst (chain_write k f xs) = map fst xs"
  by (induction k f xs rule: chain_write.induct) auto

lemma chain_write_length [simp]: "length (chain_write k f xs) = length xs"
  by (induction k f xs rule: chain_write.induct) auto

lemma chain_write_map_of:
  "map_of (chain_write k f xs) = (map_of xs)(k := map_option f (map_of xs k))"
  by (induction k f xs rule: chain_write.induct) (auto simp: fun_eq_iff)

lemma chain_erase_subset: "set (chain_erase k xs) \<subseteq> set xs"
  by (induction k xs rule: chain_erase.induct) auto

lemma chain_erase_distinct: "distinct (map fst xs) \<Longrightarrow> distinct (map fst (chain_erase k xs))"
  by (induction k xs rule: chain_erase.induct) (use chain_erase_subset in \<open>auto, force\<close>)

lemma chain_erase_length: "map_of xs k \<noteq> None \<Longrightarrow> Suc (length (chain_erase k xs)) = length xs"
  by (induction k xs rule: chain_erase.induct) (auto split: if_splits)

lemma chain_erase_map_of:
  "distinct (map fst xs) \<Longrightarrow> map_of (chain_erase k xs) = (map_of xs)(k := None)"
  by (induction k xs rule: chain_erase.induct)
    (auto simp: fun_eq_iff map_of_eq_None_iff)

section \<open>Well-formed bucket vectors\<close>

text \<open>Every node is in the bucket its key hashes to, and no chain repeats a key.\<close>

definition placed :: "('k \<Rightarrow> nat) \<Rightarrow> ('k \<times> 'v) list list \<Rightarrow> bool" where
  "placed h bs \<longleftrightarrow>
     (\<forall>i < length bs. \<forall>nd \<in> set (bs ! i). h (fst nd) mod length bs = i) \<and>
     (\<forall>b \<in> set bs. distinct (map fst b))"

definition ht_inv :: "('k \<Rightarrow> nat) \<Rightarrow> ('k, 'v) hash_table \<Rightarrow> bool" where
  "ht_inv h t \<longleftrightarrow> placed h (buckets t) \<and> ht_size t = length (nodes t)"

lemma placed_replicate [simp]: "placed h (replicate n [])"
  by (auto simp: placed_def)

lemma placed_bucket: "placed h bs \<Longrightarrow> i < length bs \<Longrightarrow> distinct (map fst (bs ! i))"
  by (simp add: placed_def)

lemma in_concat_nth: "x \<in> set (concat bs) \<longleftrightarrow> (\<exists>i < length bs. x \<in> set (bs ! i))"
  by (induction bs) (auto simp: Ex_less_Suc2)

lemma placed_in_concat:
  assumes "placed h bs"
  shows "nd \<in> set (concat bs) \<longleftrightarrow> bs \<noteq> [] \<and> nd \<in> set (bs ! (h (fst nd) mod length bs))"
proof (cases "bs = []")
  case False
  then have i: "h (fst nd) mod length bs < length bs" by simp
  show ?thesis
  proof
    assume "nd \<in> set (concat bs)"
    then obtain j where "j < length bs" "nd \<in> set (bs ! j)" unfolding in_concat_nth by blast
    then show "bs \<noteq> [] \<and> nd \<in> set (bs ! (h (fst nd) mod length bs))"
      using assms False by (auto simp: placed_def)
  qed (use i in \<open>auto intro: nth_mem\<close>)
qed simp

lemma distinct_keys_concat:
  assumes "\<And>i nd. i < length bs \<Longrightarrow> nd \<in> set (bs ! i) \<Longrightarrow> g (fst nd) = i + off"
    and "\<And>b. b \<in> set bs \<Longrightarrow> distinct (map fst b)"
  shows "distinct (map fst (concat bs))"
  using assms
proof (induction bs arbitrary: off)
  case (Cons b bs)
  have IH: "distinct (map fst (concat bs))"
  proof (rule Cons.IH [of "Suc off"])
    show "g (fst nd) = i + Suc off" if "i < length bs" "nd \<in> set (bs ! i)" for i nd
      using Cons.prems(1) [of "Suc i" nd] that by simp
  qed (use Cons.prems(2) in simp)
  have "g (fst nd) = off" if "nd \<in> set b" for nd
    using Cons.prems(1) [of 0 nd] that by simp
  moreover have "g (fst nd) \<noteq> off" if "nd \<in> set (concat bs)" for nd
  proof -
    from that obtain i where "i < length bs" "nd \<in> set (bs ! i)" unfolding in_concat_nth by blast
    then show ?thesis using Cons.prems(1) [of "Suc i" nd] by simp
  qed
  ultimately have "fst ` set b \<inter> fst ` set (concat bs) = {}" by (force simp del: set_concat)
  then show ?case using IH Cons.prems(2) [of b] by (simp del: set_concat)
qed simp

lemma placed_distinct_keys: "placed h bs \<Longrightarrow> distinct (map fst (concat bs))"
  by (rule distinct_keys_concat [where g = "\<lambda>k. h k mod length bs" and off = 0])
    (auto simp: placed_def)

lemma placed_map_of:
  assumes "placed h bs" "bs \<noteq> []"
  shows "map_of (concat bs) k = map_of (bs ! (h k mod length bs)) k"
proof -
  have i: "h k mod length bs < length bs" using assms(2) by simp
  have "map_of (concat bs) k = Some v \<longleftrightarrow> map_of (bs ! (h k mod length bs)) k = Some v" for v
    using placed_in_concat [OF assms(1), of "(k, v)"] placed_distinct_keys [OF assms(1)]
      placed_bucket [OF assms(1) i] assms(2)
    by (simp add: map_of_eq_Some_iff del: set_concat)
  then show ?thesis by (metis option.exhaust)
qed

lemma length_concat_update:
  "i < length bs \<Longrightarrow> length (concat (bs[i := c])) + length (bs ! i) = length (concat bs) + length c"
proof (induction bs arbitrary: i)
  case (Cons b bs)
  then show ?case by (cases i) auto
qed simp

lemma placed_update:
  assumes "placed h bs" "distinct (map fst c)"
    and "\<And>nd. nd \<in> set c \<Longrightarrow> h (fst nd) mod length bs = i"
  shows "placed h (bs[i := c])"
proof -
  have "h (fst nd) mod length bs = j" if "j < length bs" "nd \<in> set (bs[i := c] ! j)" for j nd
    using assms(1,3) that by (cases "i = j") (auto simp: placed_def)
  moreover have "distinct (map fst b)" if "b \<in> set (bs[i := c])" for b
    using assms(1,2) that set_update_subset_insert [of bs i c] by (auto simp: placed_def)
  ultimately show ?thesis by (simp add: placed_def)
qed

lemma placed_key_in_bucket:
  "placed h bs \<Longrightarrow> i < length bs \<Longrightarrow> nd \<in> set (bs ! i) \<Longrightarrow> h (fst nd) mod length bs = i"
  by (simp add: placed_def)

subsection \<open>Rehashing\<close>

lemma rehash_node_length [simp]: "length (rehash_node h nd bs) = length bs"
  by (simp add: rehash_node_def Let_def)

lemma rehash_node_placed:
  assumes "placed h bs" "bs \<noteq> []" "fst nd \<notin> fst ` set (concat bs)"
  shows "placed h (rehash_node h nd bs)"
    and "set (concat (rehash_node h nd bs)) = insert nd (set (concat bs))"
    and "length (concat (rehash_node h nd bs)) = Suc (length (concat bs))"
proof -
  let ?i = "h (fst nd) mod length bs"
  have i: "?i < length bs" using assms(2) by simp
  have "set (bs ! ?i) \<subseteq> set (concat bs)" using i unfolding set_concat by (intro UN_upper nth_mem)
  then have new: "fst nd \<notin> fst ` set (bs ! ?i)" using assms(3) by blast
  show placed': "placed h (rehash_node h nd bs)"
    unfolding rehash_node_def Let_def
    using placed_bucket [OF assms(1) i] new placed_key_in_bucket [OF assms(1) i]
    by (intro placed_update assms(1)) auto
  have "x \<in> set (concat (rehash_node h nd bs)) \<longleftrightarrow> x \<in> insert nd (set (concat bs))" for x
  proof -
    have ne: "rehash_node h nd bs \<noteq> []" using assms(2) rehash_node_length [of h nd bs] by force
    have "x \<in> set (concat (rehash_node h nd bs))
        \<longleftrightarrow> x \<in> set (rehash_node h nd bs ! (h (fst x) mod length bs))"
      using placed_in_concat [OF placed'] ne by simp
    also have "\<dots> \<longleftrightarrow> x = nd \<or> x \<in> set (bs ! (h (fst x) mod length bs))"
      using i placed_key_in_bucket [OF assms(1) i]
      by (auto simp: rehash_node_def Let_def nth_list_update)
    finally show ?thesis using placed_in_concat [OF assms(1), of x] assms(2) by simp
  qed
  then show "set (concat (rehash_node h nd bs)) = insert nd (set (concat bs))" by blast
  show "length (concat (rehash_node h nd bs)) = Suc (length (concat bs))"
    using length_concat_update [OF i, of "nd # bs ! ?i"] by (simp add: rehash_node_def Let_def)
qed

lemma fold_fold_concat: "fold (fold f) xss s = fold f (concat xss) s"
  by (induction xss arbitrary: s) auto

lemma rehash_all:
  assumes "placed h bs" "bs \<noteq> []" "distinct (map fst nds)"
    and "fst ` set nds \<inter> fst ` set (concat bs) = {}"
  shows "placed h (fold (rehash_node h) nds bs)
    \<and> set (concat (fold (rehash_node h) nds bs)) = set nds \<union> set (concat bs)
    \<and> length (concat (fold (rehash_node h) nds bs)) = length nds + length (concat bs)
    \<and> length (fold (rehash_node h) nds bs) = length bs"
  using assms
proof (induction nds arbitrary: bs)
  case (Cons nd nds)
  let ?bs = "rehash_node h nd bs"
  have new: "fst nd \<notin> fst ` set (concat bs)" using Cons.prems(4) by auto
  note step = rehash_node_placed [OF Cons.prems(1,2) new]
  have "?bs \<noteq> []" using Cons.prems(2) rehash_node_length [of h nd bs] by force
  moreover have "fst ` set nds \<inter> fst ` set (concat ?bs) = {}"
    using Cons.prems(3,4) step(2) by auto
  ultimately have "placed h (fold (rehash_node h) nds ?bs)
    \<and> set (concat (fold (rehash_node h) nds ?bs)) = set nds \<union> set (concat ?bs)
    \<and> length (concat (fold (rehash_node h) nds ?bs)) = length nds + length (concat ?bs)
    \<and> length (fold (rehash_node h) nds ?bs) = length ?bs"
    using Cons.IH [of ?bs] step(1) Cons.prems(3) by simp
  then show ?case using step(2,3) by (simp del: set_concat length_concat)
qed simp

section \<open>The table implements the interface\<close>

lemma ht_inv_placed: "ht_inv h t \<Longrightarrow> placed h (buckets t)"
  by (simp add: ht_inv_def)

lemma ht_inv_distinct: "ht_inv h t \<Longrightarrow> distinct (map fst (nodes t))"
  unfolding nodes_def by (rule placed_distinct_keys [OF ht_inv_placed])

lemma ht_inv_bucket:
  "ht_inv h t \<Longrightarrow> buckets t \<noteq> [] \<Longrightarrow> distinct (map fst (buckets t ! HashKey h t k))"
  by (rule placed_bucket [OF ht_inv_placed]) (simp_all add: HashKey_def)

lemma Find_map_of:
  assumes "ht_inv h t"
  shows "Find h k t = map_of (nodes t) k"
  using placed_map_of [OF ht_inv_placed [OF assms], of k]
  by (cases "buckets t = []") (simp_all add: Find_def nodes_def HashKey_def chain_find_map_of)

lemma ht_inv_HashTable [simp]: "ht_inv h (HashTable n mlf)"
  by (simp add: ht_inv_def HashTable_def nodes_def)

lemma Find_HashTable [simp]: "Find h k (HashTable n mlf) = None"
  by (simp add: Find_map_of [OF ht_inv_HashTable]) (simp add: nodes_def HashTable_def)

lemma Resize_size [simp]: "ht_size (Resize h n t) = ht_size t"
  by (simp add: Resize_def)

lemma Resize_inv:
  assumes "ht_inv h t"
  shows "ht_inv h (Resize h n t)" and "Find h k (Resize h n t) = Find h k t"
    and "ht_size t < n \<Longrightarrow> length (buckets (Resize h n t)) = n"
proof -
  have "distinct (map fst (nodes t))" using assms by (rule ht_inv_distinct)
  then have *: "ht_size t < n \<Longrightarrow> placed h (buckets (Resize h n t))
    \<and> set (nodes (Resize h n t)) = set (nodes t)
    \<and> length (nodes (Resize h n t)) = length (nodes t) \<and> length (buckets (Resize h n t)) = n"
    using rehash_all [of h "replicate n []" "nodes t"]
    by (simp add: Resize_def fold_fold_concat nodes_def del: set_concat length_concat)
  then show inv: "ht_inv h (Resize h n t)"
    using assms by (cases "ht_size t < n") (auto simp: ht_inv_def Resize_def)
  show "ht_size t < n \<Longrightarrow> length (buckets (Resize h n t)) = n" using * by simp
  have "set (nodes (Resize h n t)) = set (nodes t)"
    using * by (cases "ht_size t < n") (auto simp: Resize_def)
  moreover have "distinct (map fst (nodes (Resize h n t)))" using inv by (rule ht_inv_distinct)
  ultimately have "map_of (nodes (Resize h n t)) = map_of (nodes t)"
    using \<open>distinct (map fst (nodes t))\<close> map_of_inject_set by blast
  then show "Find h k (Resize h n t) = Find h k t"
    by (simp only: Find_map_of [OF inv] Find_map_of [OF assms])
qed

text \<open>Replacing the chain of one bucket: the common step of all updates.\<close>

lemma set_bucket:
  assumes "ht_inv h t" "buckets t \<noteq> []" "HashKey h t key = i" "distinct (map fst c)"
    and "fst ` set c \<subseteq> insert key (fst ` set (buckets t ! i))"
    and "map_of c = (map_of (buckets t ! i))(key := w)"
    and "n + length (buckets t ! i) = ht_size t + length c"
  shows "ht_inv h (t\<lparr>buckets := (buckets t)[i := c], ht_size := n\<rparr>)"
    and "Find h k (t\<lparr>buckets := (buckets t)[i := c], ht_size := n\<rparr>)
      = (if k = key then w else Find h k t)"
proof -
  have p: "placed h (buckets t)" and sz: "ht_size t = length (concat (buckets t))"
    using assms(1) by (simp_all add: ht_inv_def nodes_def)
  have i: "i < length (buckets t)" using assms(2,3) by (auto simp: HashKey_def)
  have "h (fst nd) mod length (buckets t) = i" if "nd \<in> set c" for nd
  proof -
    have "fst nd = key \<or> (\<exists>nd' \<in> set (buckets t ! i). fst nd = fst nd')"
      using assms(5) that by blast
    then show ?thesis using placed_key_in_bucket [OF p i] assms(3) by (auto simp: HashKey_def)
  qed
  then have "placed h ((buckets t)[i := c])" by (intro placed_update p assms(4))
  moreover have "length (concat ((buckets t)[i := c])) = n"
    using length_concat_update [OF i, of c] assms(7) sz by simp
  ultimately show "ht_inv h (t\<lparr>buckets := (buckets t)[i := c], ht_size := n\<rparr>)"
    by (simp add: ht_inv_def nodes_def)
  show "Find h k (t\<lparr>buckets := (buckets t)[i := c], ht_size := n\<rparr>)
      = (if k = key then w else Find h k t)"
    using i assms(2,3,6)
    by (auto simp: Find_def HashKey_def chain_find_map_of nth_list_update)
qed

lemma Write_correct:
  assumes "ht_inv h t"
  shows "ht_inv h (Write h key f t)"
    and "Find h k (Write h key f t) = (if k = key then map_option f (Find h key t) else Find h k t)"
proof -
  let ?b = "buckets t ! HashKey h t key"
  have eq: "Write h key f t
      = t\<lparr>buckets := (buckets t)[HashKey h t key := chain_write key f ?b], ht_size := ht_size t\<rparr>"
    if "buckets t \<noteq> []" using that by (simp add: Write_def Let_def)
  have d: "distinct (map fst (chain_write key f ?b))" if "buckets t \<noteq> []"
    using ht_inv_bucket [OF assms that] by simp
  have keys: "fst ` set (chain_write key f ?b) \<subseteq> insert key (fst ` set ?b)"
    by (metis chain_write_keys list.set_map subset_insertI)
  note step = set_bucket [OF assms _ refl d keys chain_write_map_of, of "ht_size t"]
  show "ht_inv h (Write h key f t)"
    using step(1) eq assms by (cases "buckets t = []") (auto simp: Write_def)
  show "Find h k (Write h key f t) = (if k = key then map_option f (Find h key t) else Find h k t)"
    using step(2) eq by (cases "buckets t = []") (auto simp: Write_def Find_def chain_find_map_of)
qed

lemma Erase_correct:
  assumes "ht_inv h t"
  shows "ht_inv h (fst (Erase h key t))"
    and "Find h k (fst (Erase h key t)) = (if k = key then None else Find h k t)"
    and "snd (Erase h key t) \<longleftrightarrow> Find h key t \<noteq> None"
proof -
  let ?b = "buckets t ! HashKey h t key"
  have d: "distinct (map fst ?b)" if "buckets t \<noteq> []"
    using assms that by (rule ht_inv_bucket)
  have keys: "fst ` set (chain_erase key ?b) \<subseteq> insert key (fst ` set ?b)"
    using chain_erase_subset [of key ?b] by blast
  have sz: "ht_size t - 1 + length ?b = ht_size t + length (chain_erase key ?b)"
    if "buckets t \<noteq> []" "map_of ?b key \<noteq> None"
  proof -
    have i: "HashKey h t key < length (buckets t)" using that(1) by (simp add: HashKey_def)
    have "length ?b \<le> ht_size t"
      using length_concat_update [OF i, of "[]"] assms by (simp add: ht_inv_def nodes_def)
    then show ?thesis using chain_erase_length [OF that(2)] by linarith
  qed
  note step = set_bucket [OF assms _ refl chain_erase_distinct [OF d] keys chain_erase_map_of [OF d] sz]
  show "ht_inv h (fst (Erase h key t))"
    using step(1) assms by (auto simp: Erase_def Let_def chain_find_map_of)
  show "Find h k (fst (Erase h key t)) = (if k = key then None else Find h k t)"
    using step(2) by (auto simp: Erase_def Let_def chain_find_map_of Find_def)
  show "snd (Erase h key t) \<longleftrightarrow> Find h key t \<noteq> None"
    by (auto simp: Erase_def Let_def Find_def)
qed

lemma Resize_not_Nil: "buckets t \<noteq> [] \<Longrightarrow> buckets (Resize h n t) \<noteq> []"
proof -
  have "length (fold (rehash_node h) nds bs) = length bs" for nds and bs :: "('a \<times> 'b) list list"
    by (induction nds arbitrary: bs) auto
  then show "buckets t \<noteq> [] \<Longrightarrow> buckets (Resize h n t) \<noteq> []"
    by (auto simp: Resize_def fold_fold_concat simp flip: length_greater_0_conv)
qed

text \<open>The new node of \<open>Insert\<close>, pushed at the head of its chain.\<close>

lemma push_node:
  fixes t :: "('k, 'v) hash_table" and v :: 'v
  assumes "ht_inv h t" "buckets t \<noteq> []" "Find h key t = None"
  defines "t' \<equiv> t\<lparr>buckets := (buckets t)[HashKey h t key := (key, v) # buckets t ! HashKey h t key],
                  ht_size := ht_size t + 1\<rparr>"
  shows "ht_inv h t'" and "Find h k t' = (if k = key then Some v else Find h k t)"
proof -
  let ?b = "buckets t ! HashKey h t key"
  have "map_of ?b key = None" using assms(2,3) by (simp add: Find_def chain_find_map_of)
  then have d: "distinct (map fst ((key, v) # ?b))"
    using ht_inv_bucket [OF assms(1,2)] by (simp add: map_of_eq_None_iff)
  have keys: "fst ` set ((key, v) # ?b) \<subseteq> insert key (fst ` set ?b)" by simp
  have m: "map_of ((key, v) # ?b) = (map_of ?b)(key := Some v)" by simp
  have sz: "ht_size t + 1 + length ?b = ht_size t + length ((key, v) # ?b)" by simp
  note step = set_bucket [OF assms(1,2) refl d keys m sz]
  show "ht_inv h t'" unfolding t'_def by (rule step(1))
  show "Find h k t' = (if k = key then Some v else Find h k t)" unfolding t'_def by (rule step(2))
qed

lemma Insert_first:
  assumes "ht_inv h t0"
  defines "t \<equiv> (if buckets t0 = [] then Resize h 8 t0 else t0)"
  shows "ht_inv h t" "buckets t \<noteq> []" "\<And>k. Find h k t = Find h k t0" "ht_size t = ht_size t0"
proof -
  have "ht_size t0 < 8" if "buckets t0 = []"
    using assms(1) that by (simp add: ht_inv_def nodes_def)
  then have "length (buckets (Resize h 8 t0)) = 8" if "buckets t0 = []"
    using Resize_inv(3) [OF assms(1)] that by blast
  then show "buckets t \<noteq> []" unfolding t_def by (cases "buckets t0 = []") auto
  show "ht_inv h t" "\<And>k. Find h k t = Find h k t0" "ht_size t = ht_size t0"
    unfolding t_def using Resize_inv(1,2) [OF assms(1)] assms(1) by simp_all
qed

lemma Insert_correct:
  assumes "ht_inv h t0"
  shows "ht_inv h (fst (Insert h key v t0))"
    and "Find h k (fst (Insert h key v t0)) = (if k = key then Some v else Find h k t0)"
    and "snd (Insert h key v t0) \<longleftrightarrow> Find h key t0 = None"
    and "ht_size (fst (Insert h key v t0)) = ht_size t0 + (if Find h key t0 = None then 1 else 0)"
proof -
  define t where "t = (if buckets t0 = [] then Resize h 8 t0 else t0)"
  note t = Insert_first [OF assms, folded t_def]
  have found: "chain_find key (buckets t ! HashKey h t key) = Find h key t0"
    using t(2) t(3) [of key] by (simp add: Find_def)
  show "snd (Insert h key v t0) \<longleftrightarrow> Find h key t0 = None"
    using found by (simp add: Insert_def Let_def flip: t_def)
  show "ht_inv h (fst (Insert h key v t0))"
    and "Find h k (fst (Insert h key v t0)) = (if k = key then Some v else Find h k t0)"
    and "ht_size (fst (Insert h key v t0)) = ht_size t0 + (if Find h key t0 = None then 1 else 0)"
  proof (atomize (full), cases "Find h key t0 = None")
    case True
    define t' where "t' = (if over_load t then Resize h (length (buckets t) * 2) t else t)"
    have t': "ht_inv h t'" "buckets t' \<noteq> []" "\<And>k. Find h k t' = Find h k t0" "ht_size t' = ht_size t0"
      unfolding t'_def using Resize_inv(1,2) [OF t(1)] t Resize_not_Nil [OF t(2)] by simp_all
    have "fst (Insert h key v t0)
        = t'\<lparr>buckets := (buckets t')[HashKey h t' key := (key, v) # buckets t' ! HashKey h t' key],
             ht_size := ht_size t' + 1\<rparr>"
      using found True by (simp add: Insert_def Let_def flip: t_def t'_def)
    then show "ht_inv h (fst (Insert h key v t0)) \<and>
        Find h k (fst (Insert h key v t0)) = (if k = key then Some v else Find h k t0) \<and>
        ht_size (fst (Insert h key v t0)) = ht_size t0 + (if Find h key t0 = None then 1 else 0)"
      using push_node [OF t'(1,2), where key = key and v = v] t'(3,4) True by simp
  next
    case False
    then have "fst (Insert h key v t0) = Write h key (\<lambda>_. v) t"
      using found t(2) by (simp add: Insert_def Write_def Let_def flip: t_def)
    then show "ht_inv h (fst (Insert h key v t0)) \<and>
        Find h k (fst (Insert h key v t0)) = (if k = key then Some v else Find h k t0) \<and>
        ht_size (fst (Insert h key v t0)) = ht_size t0 + (if Find h key t0 = None then 1 else 0)"
      using Write_correct [OF t(1), where key = key and f = "\<lambda>_. v"] t(3,4) False
      by (auto simp: Write_def Let_def)
  qed
qed

interpretation ht: keyed_table HashTable_default "\<lambda>t k. Find h k t" "\<lambda>k v t. fst (Insert h k v t)"
  "Write h" "\<lambda>k t. fst (Erase h k t)" nodes "ht_inv h"
  for h :: "'k \<Rightarrow> nat"
proof unfold_locales
  show "map_of (nodes t) = (\<lambda>k. Find h k t)" if "ht_inv h t" for t :: "('k, 'v) hash_table"
    by (rule ext) (simp only: Find_map_of [OF that])
qed (auto simp: HashTable_default_def Insert_correct Write_correct Erase_correct ht_inv_distinct)

section \<open>Copying, clearing, scanning\<close>

lemma ht_inv_Clear: "ht_inv h (Clear t)"
  by (auto simp: ht_inv_def Clear_def nodes_def placed_def)

lemma Find_Clear: "Find h k (Clear t) = None"
  by (simp add: Find_map_of [OF ht_inv_Clear]) (simp add: Clear_def nodes_def map_of_eq_None_iff)

lemma Insert_all:
  assumes "ht_inv h t" "distinct (map fst nds)"
  shows "ht_inv h (fold (\<lambda>(k, v) t. fst (Insert h k v t)) nds t) \<and>
    Find h k (fold (\<lambda>(k, v) t. fst (Insert h k v t)) nds t)
      = (case map_of nds k of None \<Rightarrow> Find h k t | Some v \<Rightarrow> Some v)"
  using assms
proof (induction nds arbitrary: t)
  case (Cons nd nds)
  obtain k' v' where nd: "nd = (k', v')" by fastforce
  note step = Insert_correct [OF Cons.prems(1)]
  have "map_of nds k' = None" using Cons.prems(2) nd by (simp add: map_of_eq_None_iff)
  then show ?case
    using Cons.IH [OF step(1)] Cons.prems(2) step(2) nd by (auto split: option.splits)
qed simp

lemma HashTable_copy_correct:
  assumes "ht_inv h t"
  shows "ht_inv h (HashTable_copy h t)" and "Find h k (HashTable_copy h t) = Find h k t"
proof -
  let ?e = "\<lparr>buckets = replicate (length (buckets t)) [], ht_size = 0,
             max_load_factor = max_load_factor t\<rparr> :: ('a, 'b) hash_table"
  have e: "ht_inv h ?e" by (simp add: ht_inv_def nodes_def)
  have none: "Find h k ?e = None" by (simp add: Find_map_of [OF e]) (simp add: nodes_def)
  show "ht_inv h (HashTable_copy h t)"
    unfolding HashTable_copy_def using Insert_all [OF e ht_inv_distinct [OF assms]] by blast
  show "Find h k (HashTable_copy h t) = Find h k t"
    unfolding HashTable_copy_def
    using Insert_all [OF e ht_inv_distinct [OF assms], of k] none
    by (simp add: Find_map_of [OF assms] split: option.splits)
qed

lemma scan_from_spec:
  "scan_from bs i count result = (j, ks) \<Longrightarrow>
     \<exists>n \<le> length bs. j = i + n \<and> ks = result @ map fst (concat (take n bs)) \<and>
       (n < length bs \<longrightarrow> count \<le> length ks) \<and> (bs \<noteq> [] \<and> length result < count \<longrightarrow> 0 < n)"
proof (induction bs i count result rule: scan_from.induct)
  case (2 b bs i count result)
  show ?case
  proof (cases "length result < count")
    case True
    with 2 obtain n where "n \<le> length bs" "j = Suc i + n"
      "ks = (result @ map fst b) @ map fst (concat (take n bs))"
      "n < length bs \<longrightarrow> count \<le> length ks" by auto
    then show ?thesis by (intro exI [of _ "Suc n"]) auto
  next
    case False
    with 2 show ?thesis by (intro exI [of _ 0]) auto
  qed
qed auto

text \<open>
  A client that scans from cursor zero and passes each returned cursor to the next call, until it
  is zero again.
\<close>

fun scan_rounds :: "nat \<Rightarrow> nat \<Rightarrow> nat \<Rightarrow> ('k, 'v) hash_table \<Rightarrow> 'k list option" where
  "scan_rounds 0 cursor count t = None"
| "scan_rounds (Suc fuel) cursor count t =
     (case Scan cursor count t of (next, ks) \<Rightarrow>
        if next = 0 then Some ks else map_option ((@) ks) (scan_rounds fuel next count t))"

lemma scan_rounds_from:
  assumes "0 < count" "cursor < length (buckets t)" "length (buckets t) - cursor \<le> fuel"
  shows "scan_rounds fuel cursor count t = Some (map fst (concat (drop cursor (buckets t))))"
  using assms(2,3)
proof (induction fuel arbitrary: cursor)
  case (Suc fuel)
  obtain j ks where s: "scan_from (drop cursor (buckets t)) cursor count [] = (j, ks)" by fastforce
  from scan_from_spec [OF s] obtain n where n: "n \<le> length (buckets t) - cursor" "j = cursor + n"
    "ks = map fst (concat (take n (drop cursor (buckets t))))" "0 < n"
    using assms(1) Suc.prems(1) by auto
  have ne: "buckets t \<noteq> []" using Suc.prems(1) by auto
  have scan: "Scan cursor count t = (if j \<ge> length (buckets t) then 0 else j, ks)"
    using s Suc.prems(1) ne by (simp add: Scan_def Let_def)
  have split: "map fst (concat (drop cursor (buckets t))) = ks @ map fst (concat (drop j (buckets t)))"
    by (simp add: n(2,3) flip: map_append concat_append) (metis append_take_drop_id drop_drop add.commute)
  show ?case
  proof (cases "length (buckets t) \<le> j")
    case True
    then show ?thesis using scan split by simp
  next
    case False
    then have "scan_rounds fuel j count t = Some (map fst (concat (drop j (buckets t))))"
      using Suc.IH [of j] Suc.prems n(2,4) by simp
    then show ?thesis using scan split False n(2,4) by simp
  qed
qed simp

section \<open>The load factor\<close>

text \<open>
  Below \<open>2 ^ 24\<close> buckets the floating-point load test is exact: it asks whether one more node
  would exceed three quarters of the buckets.
\<close>

lemma over_load_exact:
  assumes "max_load_factor t = 3 / 4" "4 dvd length (buckets t)" "length (buckets t) < 2 ^ 24"
    "ht_size t + 1 < 2 ^ 24"
  shows "over_load t \<longleftrightarrow> 4 * (ht_size t + 1) > 3 * length (buckets t)"
proof -
  from assms(2) obtain q where q: "length (buckets t) = 4 * q" by blast
  have "float_of (length (buckets t)) * max_load_factor t = of_nat (3 * q)"
    using float_of_exact [OF assms(3)] assms(1) q by simp
  moreover have "fl_round 24 (of_nat (3 * q)) = of_nat (3 * q)"
    by (rule fl_round_nat) (use assms(3) q in simp_all)
  ultimately have "over_load t \<longleftrightarrow> of_nat (3 * q) < (of_nat (ht_size t + 1) :: rat)"
    unfolding over_load_def float_of_exact [OF assms(4)] by (simp only:)
  also have "\<dots> \<longleftrightarrow> 3 * q < ht_size t + 1" by (simp only: of_nat_less_iff)
  also have "\<dots> \<longleftrightarrow> 3 * (4 * q) < 4 * (ht_size t + 1)" by presburger
  finally show ?thesis by (simp only: q)
qed

lemma Resize_mlf [simp]: "max_load_factor (Resize h n t) = max_load_factor t"
  by (simp add: Resize_def)

definition light_load :: "('k, 'v) hash_table \<Rightarrow> bool" where
  "light_load t \<longleftrightarrow> max_load_factor t = 3 / 4 \<and> 4 dvd length (buckets t) \<and> buckets t \<noteq> [] \<and>
     4 * ht_size t \<le> 3 * length (buckets t)"

lemma light_load_grow:
  assumes "ht_inv h t" "light_load t" "length (buckets t) < 2 ^ 24"
  defines "t' \<equiv> (if over_load t then Resize h (length (buckets t) * 2) t else t)"
  shows "4 * (ht_size t + 1) \<le> 3 * length (buckets t')" "4 dvd length (buckets t')"
    "length (buckets t') = length (buckets t) \<or> length (buckets t') = 2 * length (buckets t)"
proof -
  have l: "4 dvd length (buckets t)" "0 < length (buckets t)" "4 * ht_size t \<le> 3 * length (buckets t)"
    using assms(2) by (auto simp: light_load_def)
  have small: "ht_size t + 1 < 2 ^ 24" using l assms(3) by linarith
  have ov: "over_load t \<longleftrightarrow> 4 * (ht_size t + 1) > 3 * length (buckets t)"
    using over_load_exact [OF _ l(1) assms(3) small] assms(2) by (simp add: light_load_def)
  have len: "length (buckets (Resize h (length (buckets t) * 2) t)) = length (buckets t) * 2"
    by (rule Resize_inv(3) [OF assms(1)]) (use l(2,3) in linarith)
  obtain q where "length (buckets t) = 4 * q" using l(1) by blast
  then have "4 \<le> length (buckets t)" using l(2) by simp
  then show "4 * (ht_size t + 1) \<le> 3 * length (buckets t')"
    unfolding t'_def using ov len l(3) by auto
  show "4 dvd length (buckets t')"
    "length (buckets t') = length (buckets t) \<or> length (buckets t') = 2 * length (buckets t)"
    unfolding t'_def using len l(1) by auto
qed

lemma Insert_buckets:
  assumes "buckets t \<noteq> []"
  shows "length (buckets (fst (Insert h key v t)))
      = length (buckets (if Find h key t = None \<and> over_load t
                         then Resize h (length (buckets t) * 2) t else t))"
    and "max_load_factor (fst (Insert h key v t)) = max_load_factor t"
  using assms by (auto simp: Insert_def Let_def Find_def)

section \<open>Properties\<close>

text \<open>C19: the hash table implements a finite map. For every hash function, \<open>Insert\<close>,
  assignment through the pointer \<open>Find\<close> returns, \<open>Erase\<close> and \<open>Resize\<close> keep the table
  well formed (every node in the bucket of its key, no repeated key, exact node count), lookups
  afterwards are those of the updated map, and the booleans returned say whether the key was new
  (\<open>Insert\<close>) or present (\<open>Erase\<close>).\<close>

theorem hash_table_implements_map:
  assumes "ht_inv h t"
  shows "(ht_inv h (fst (Insert h k v t)) \<and> ht_inv h (Write h k f t) \<and>
      ht_inv h (fst (Erase h k t)) \<and> ht_inv h (Resize h n t)) \<and>
    (\<lambda>x. Find h x (fst (Insert h k v t))) = (\<lambda>x. Find h x t)(k \<mapsto> v) \<and>
    (\<lambda>x. Find h x (Write h k f t)) = (\<lambda>x. Find h x t)(k := map_option f (Find h k t)) \<and>
    (\<lambda>x. Find h x (fst (Erase h k t))) = (\<lambda>x. Find h x t)(k := None) \<and>
    (\<lambda>x. Find h x (Resize h n t)) = (\<lambda>x. Find h x t) \<and>
    snd (Insert h k v t) = (Find h k t = None) \<and> snd (Erase h k t) = (Find h k t \<noteq> None) \<and>
    ht_size t = card (dom (\<lambda>x. Find h x t))"
proof -
  have "ht_size t = card (dom (\<lambda>x. Find h x t))"
    using assms ht.length_filter_entries [OF assms, of "\<lambda>_ _. True"]
    by (simp add: ht_inv_def dom_def)
  then show ?thesis
    using Insert_correct [OF assms] Write_correct [OF assms] Erase_correct [OF assms]
      Resize_inv [OF assms] by (auto simp: fun_eq_iff)
qed

theorem hash_table_implements_map_witness:
  "ht_inv length (HashTable_default :: (string, nat) hash_table) \<and>
   Find length ''a'' (fst (Insert length ''a'' (1::nat) HashTable_default)) = Some 1"
  using hash_table_implements_map [OF ht.invar_empty, of length "''a''" "1::nat",
      THEN conjunct2, THEN conjunct1, THEN fun_cong, of "''a''"] ht.invar_empty [of length]
  by simp

text \<open>the load factor. A table with the default load factor whose bucket count is a
  multiple of four and below \<open>2 ^ 24\<close>, and whose nodes fill at most three quarters of its
  buckets, is such a table again after \<open>Insert\<close>, with the same bucket count or twice as many:
  the floating-point test triggers growth in time.\<close>

theorem insert_keeps_load_factor:
  assumes "ht_inv h t" "light_load t" "length (buckets t) < 2 ^ 24"
  shows "light_load (fst (Insert h k v t)) \<and>
    length (buckets (fst (Insert h k v t))) \<in> {length (buckets t), 2 * length (buckets t)}"
proof -
  have ne: "buckets t \<noteq> []" using assms(2) by (simp add: light_load_def)
  note grow = light_load_grow [OF assms]
  note ins = Insert_buckets [OF ne, of h k v] Insert_correct(4) [OF assms(1), of k v]
  let ?t' = "fst (Insert h k v t)"
  have len: "length (buckets ?t') \<in> {length (buckets t), 2 * length (buckets t)}"
    using ins(1) grow(3) by (cases "Find h k t = None") (auto split: if_splits)
  have dvd: "4 dvd length (buckets ?t')"
    using len assms(2) unfolding light_load_def by (auto intro: dvd_mult)
  have fill: "4 * ht_size ?t' \<le> 3 * length (buckets ?t')"
  proof (cases "Find h k t = None")
    case True
    then show ?thesis using ins(1,3) grow(1) by (simp split: if_splits)
  next
    case False
    then show ?thesis using ins(1,3) assms(2) by (auto simp: light_load_def)
  qed
  have "buckets ?t' \<noteq> []" using len ne by auto
  then show ?thesis using len dvd fill ins(2) assms(2) by (simp add: light_load_def)
qed

lemma tenth_below: "fl_round 24 (1 / 10) < 3 / 4"
  by code_simp

lemma light_load_default: "light_load HashTable_default"
  using tenth_below by (simp add: light_load_def HashTable_default_def HashTable_def)

theorem insert_keeps_load_factor_witness:
  "light_load (fst (Insert length ''a'' (1::nat) HashTable_default))"
proof -
  have "length (buckets (HashTable_default :: (string, nat) hash_table)) < 2 ^ 24"
    by (simp add: HashTable_default_def HashTable_def)
  from insert_keeps_load_factor [OF ht.invar_empty light_load_default this]
  show ?thesis by blast
qed

lemma HashTable_move_correct:
  assumes "ht_inv h t"
  shows "ht_inv h (snd (HashTable_move t))" "Find h k (snd (HashTable_move t)) = None"
    "Find h k (fst (Insert h k v (snd (HashTable_move t)))) = Some v"
proof -
  show inv: "ht_inv h (snd (HashTable_move t))"
    by (simp add: HashTable_move_def ht_inv_def placed_def nodes_def)
  show "Find h k (snd (HashTable_move t)) = None" by (simp add: HashTable_move_def Find_def)
  show "Find h k (fst (Insert h k v (snd (HashTable_move t)))) = Some v"
    using Insert_correct [OF inv] by simp
qed

text \<open>C26: cursor iteration is complete. A client that calls \<open>Scan\<close> with a positive count
  from cursor zero and feeds each returned cursor to the next call gets, in at most as many calls
  as there are buckets, every key of an unchanged table exactly once.\<close>

theorem scan_visits_every_key_once:
  assumes "ht_inv h t" "buckets t \<noteq> []" "0 < count" "length (buckets t) \<le> fuel"
  shows "\<exists>ks. scan_rounds fuel 0 count t = Some ks \<and> distinct ks \<and>
    set ks = {k. Find h k t \<noteq> None}"
proof -
  have "scan_rounds fuel 0 count t = Some (map fst (nodes t))"
    using scan_rounds_from [OF assms(3), of 0 t fuel] assms(2,4) by (simp add: nodes_def)
  moreover have "set (map fst (nodes t)) = {k. Find h k t \<noteq> None}"
    using ht.keys_of_filter_entries [OF assms(1), of _ "\<lambda>_ _. True"] by auto
  ultimately show ?thesis using ht_inv_distinct [OF assms(1)] by blast
qed

theorem scan_visits_every_key_once_witness:
  "\<exists>ks. scan_rounds 16 0 1 (HashTable_default :: (string, nat) hash_table) = Some ks \<and> distinct ks \<and>
    set ks = {k. Find length k (HashTable_default :: (string, nat) hash_table) \<noteq> None}"
  by (rule scan_visits_every_key_once [OF ht.invar_empty])
    (simp_all add: HashTable_default_def HashTable_def)

end
