(* ===== verification/GK_Glob.thy ===== *)
theory GK_Glob
  imports GK_Prelude
begin

text \<open>
  The glob matcher \<open>MatchPattern\<close> of \<open>src/storage/memory_store.cpp\<close>, which \<open>KEYS\<close> uses. The
  positions \<open>p\<close> and \<open>s\<close> are the parts of the pattern and of the text still to be matched;
  \<open>star_p\<close> and \<open>match_s\<close> are the part of the pattern after the last star taken and the part of
  the text at which its match began.
\<close>

partial_function (option) match_loop ::
  "string \<Rightarrow> string \<Rightarrow> (string \<times> string) option \<Rightarrow> bool option" where
  "match_loop p s star =
     (if s = [] then Some (dropWhile (\<lambda>c. c = CHR ''*'') p = [])
      else if p \<noteq> [] \<and> (hd p = CHR ''?'' \<or> hd p = hd s) then match_loop (tl p) (tl s) star
      else if p \<noteq> [] \<and> hd p = CHR ''*'' then match_loop (tl p) s (Some (tl p, s))
      else (case star of
              Some (star_p, match_s) \<Rightarrow> match_loop star_p (tl match_s) (Some (star_p, tl match_s))
            | None \<Rightarrow> Some False))"

definition MatchPattern_opt :: "string \<Rightarrow> string \<Rightarrow> bool option" where
  "MatchPattern_opt pattern str = (if pattern = ''*'' then Some True else match_loop pattern str None)"

definition MatchPattern :: "string \<Rightarrow> string \<Rightarrow> bool" where
  "MatchPattern pattern str \<longleftrightarrow> MatchPattern_opt pattern str = Some True"


section \<open>The reference: what a pattern means\<close>

text \<open>A star stands for any string, a question mark for any character.\<close>

fun glob :: "string \<Rightarrow> string \<Rightarrow> bool" where
  "glob [] s \<longleftrightarrow> s = []"
| "glob (x # p) [] \<longleftrightarrow> x = CHR ''*'' \<and> glob p []"
| "glob (x # p) (c # s) \<longleftrightarrow>
     (if x = CHR ''*'' then glob p (c # s) \<or> glob (x # p) s
      else (x = CHR ''?'' \<or> x = c) \<and> glob p s)"

lemma glob_nil: "glob p [] \<longleftrightarrow> dropWhile (\<lambda>c. c = CHR ''*'') p = []"
  by (induction p) auto

lemma ex_drop_Cons:
  "(\<exists>n \<le> Suc (length s). P (drop n (c # s))) \<longleftrightarrow> P (c # s) \<or> (\<exists>n \<le> length s. P (drop n s))"
  (is "?l \<longleftrightarrow> ?r")
proof
  assume ?l
  then obtain n where "n \<le> Suc (length s)" "P (drop n (c # s))" by blast
  then show ?r by (cases n) auto
next
  assume ?r
  then show ?l
  proof
    assume "P (c # s)"
    then show ?l by (intro exI [of _ 0]) simp
  next
    assume "\<exists>n \<le> length s. P (drop n s)"
    then obtain n where "n \<le> length s" "P (drop n s)" by blast
    then show ?l by (intro exI [of _ "Suc n"]) simp
  qed
qed

lemma glob_star: "glob (CHR ''*'' # p) s \<longleftrightarrow> (\<exists>n \<le> length s. glob p (drop n s))"
  by (induction s) (simp_all add: ex_drop_Cons)

text \<open>A prefix without stars consumes as many characters as it has.\<close>

lemma glob_append:
  assumes "CHR ''*'' \<notin> set q" "glob (q @ p) t"
  shows "length q \<le> length t \<and> glob p (drop (length q) t)"
  using assms
proof (induction q arbitrary: t)
  case (Cons x q)
  then show ?case by (cases t) auto
qed simp

section \<open>The loop decides the reference\<close>

text \<open>Once a later star is reached, the alternatives of the earlier one are not needed.\<close>

lemma later_star_absorbs:
  assumes "CHR ''*'' \<notin> set q" "length q = length u"
    and "n \<le> length (u @ s)" "glob (q @ CHR ''*'' # p) (drop n (u @ s))"
  shows "glob (CHR ''*'' # p) s"
proof -
  have 1: "length q \<le> length (drop n (u @ s))" 
    and 2: "glob (CHR ''*'' # p) (drop (length q) (drop n (u @ s)))"
    using glob_append [OF assms(1,4)] by auto
  have "drop (length q) (drop n (u @ s)) = drop n s" using assms(2)
    by (simp only: drop_drop add.commute [of n]) (simp flip: drop_drop)
  with 2 obtain k where k: "k \<le> length (drop n s)" "glob p (drop k (drop n s))"
    by (metis glob_star)
  moreover have "n \<le> length s" using 1 assms(2,3) by simp
  ultimately have "k + n \<le> length s" "glob p (drop (k + n) s)" by simp_all
  then show ?thesis unfolding glob_star by blast
qed

lemma ex_drop_pos:
  assumes "ms \<noteq> []"
  shows "(\<exists>n>0. n \<le> length ms \<and> P (drop n ms)) \<longleftrightarrow> (\<exists>n \<le> length (tl ms). P (drop n (tl ms)))"
proof -
  obtain c t where "ms = c # t" using assms by (cases ms) auto
  then show ?thesis by (auto simp: gr0_conv_Suc)
qed

lemma ex_le_split: "(\<exists>n \<le> (k :: nat). P n) \<longleftrightarrow> P 0 \<or> (\<exists>n>0. n \<le> k \<and> P n)"
  by (metis bot_nat_0.extremum bot_nat_0.not_eq_extremum)

text \<open>The state after a star was taken: \<open>q\<close> is the part of the pattern matched since, against \<open>u\<close>.\<close>

lemma match_loop_star:
  assumes "CHR ''*'' \<notin> set ms" "sp = q @ p" "ms = u @ s" "length q = length u"
    "CHR ''*'' \<notin> set q"
  shows "match_loop p s (Some (sp, ms)) =
    Some (glob p s \<or> (\<exists>n>0. n \<le> length ms \<and> glob sp (drop n ms)))"
  using assms
proof (induction "(length sp, length ms, length s)" arbitrary: sp ms p s q u
    rule: wf_induct_rule [OF wf_lex_prod [OF wf_less_than wf_lex_prod [OF wf_less_than wf_less_than]]])
  case (1 sp ms s p q u)
  note IH = "1.hyps" and inv = "1.prems"
  show ?case
  proof (cases s)
    case Nil
    have "\<not> (n \<le> length ms \<and> glob sp (drop n ms))" if "n > 0" for n
      using glob_append [of q p "drop n ms"] inv Nil that by auto
    then show ?thesis using Nil by (subst match_loop.simps) (auto simp: glob_nil)
  next
    case (Cons c s')
    have c: "c \<noteq> CHR ''*''" using inv Cons by auto
    consider (char) x p' where "p = x # p'" "x = CHR ''?'' \<or> x = c"
      | (star) p' where "p = CHR ''*'' # p'" 
      | (mismatch) "p = [] \<or> hd p \<noteq> CHR ''?'' \<and> hd p \<noteq> c \<and> hd p \<noteq> CHR ''*''"
      by (cases p) auto
    then show ?thesis
    proof cases
      case char
      then have x: "x \<noteq> CHR ''*''" using c by auto
      have "match_loop p' s' (Some (sp, ms)) =
          Some (glob p' s' \<or> (\<exists>n>0. n \<le> length ms \<and> glob sp (drop n ms)))"
        by (rule IH [of sp ms s' "q @ [x]" p' "u @ [c]"]) (use inv char Cons x in auto)
      then show ?thesis using char Cons x by (subst match_loop.simps) auto
    next
      case star
      have "match_loop p' s (Some (p', s)) = Some (glob p' s \<or> (\<exists>n>0. n \<le> length s \<and> glob p' (drop n s)))"
        by (rule IH [of p' s s "[]" p' "[]"]) (use inv star in auto)
      also have "(glob p' s \<or> (\<exists>n>0. n \<le> length s \<and> glob p' (drop n s))) \<longleftrightarrow> glob p s"
        unfolding star glob_star ex_le_split [of "length s"] by simp
      also have "glob p s \<longleftrightarrow> glob p s \<or> (\<exists>n>0. n \<le> length ms \<and> glob sp (drop n ms))"
        using later_star_absorbs [of q u _ s p'] inv star by auto
      finally show ?thesis using star Cons c by (subst match_loop.simps) simp
    next
      case mismatch
      have ms: "ms \<noteq> []" using inv Cons by simp
      have "match_loop sp (tl ms) (Some (sp, tl ms)) =
          Some (glob sp (tl ms) \<or> (\<exists>n>0. n \<le> length (tl ms) \<and> glob sp (drop n (tl ms))))"
        by (rule IH [of sp "tl ms" "tl ms" "[]" sp "[]"])
          (use inv(1) ms list.set_sel(2) [OF ms] in auto)
      also have "(glob sp (tl ms) \<or> (\<exists>n>0. n \<le> length (tl ms) \<and> glob sp (drop n (tl ms)))) \<longleftrightarrow>
          (\<exists>n>0. n \<le> length ms \<and> glob sp (drop n ms))"
        unfolding ex_drop_pos [OF ms] ex_le_split [of "length (tl ms)"] by simp
      moreover have "\<not> glob p s" using mismatch Cons by (cases p) auto
      ultimately show ?thesis using mismatch Cons by (subst match_loop.simps) auto
    qed
  qed
qed

lemma match_loop_start:
  "CHR ''*'' \<notin> set s \<Longrightarrow> match_loop p s None = Some (glob p s)"
proof (induction s arbitrary: p)
  case Nil
  then show ?case by (subst match_loop.simps) (simp add: glob_nil)
next
  case (Cons c s)
  show ?case
  proof (cases "p \<noteq> [] \<and> hd p = CHR ''*''")
    case True
    then obtain p' where p: "p = CHR ''*'' # p'" by (cases p) auto
    have "match_loop p' (c # s) (Some (p', c # s)) =
        Some (glob p' (c # s) \<or> (\<exists>n>0. n \<le> length (c # s) \<and> glob p' (drop n (c # s))))"
      by (rule match_loop_star [of _ _ "[]" _ "[]"]) (use Cons.prems in auto)
    also have "(glob p' (c # s) \<or> (\<exists>n>0. n \<le> length (c # s) \<and> glob p' (drop n (c # s)))) \<longleftrightarrow> glob p (c # s)"
      unfolding p glob_star ex_le_split [of "length (c # s)"] by simp
    finally show ?thesis using p Cons.prems by (subst match_loop.simps) simp
  next
    case False
    then show ?thesis using Cons by (subst match_loop.simps) (cases p; auto)
  qed
qed

text \<open>The loop ends on every text: a star taken later leaves less of the pattern, a retry less of
  the text.\<close>

lemma match_loop_star_returns:
  assumes "sp = q @ p" "ms = u @ s"
  shows "\<exists>b. match_loop p s (Some (sp, ms)) = Some b"
  using assms
proof (induction "(length sp, length ms, length s)" arbitrary: sp ms p s q u
    rule: wf_induct_rule [OF wf_lex_prod [OF wf_less_than wf_lex_prod [OF wf_less_than wf_less_than]]])
  case (1 sp ms s p q u)
  note IH = "1.hyps" and inv = "1.prems"
  consider (finished) "s = []" | (char) "s \<noteq> []" "p \<noteq> []" "hd p = CHR ''?'' \<or> hd p = hd s"
    | (star) "s \<noteq> []" "p \<noteq> []" "\<not> (hd p = CHR ''?'' \<or> hd p = hd s)" "hd p = CHR ''*''"
    | (retry) "s \<noteq> []" "\<not> (p \<noteq> [] \<and> (hd p = CHR ''?'' \<or> hd p = hd s))" "\<not> (p \<noteq> [] \<and> hd p = CHR ''*'')"
    by blast
  then show ?case
  proof cases
    case char
    then have "\<exists>b. match_loop (tl p) (tl s) (Some (sp, ms)) = Some b"
      by (intro IH [of sp ms "tl s" "q @ [hd p]" "tl p" "u @ [hd s]"]) (use inv in auto)
    then show ?thesis using char by (subst match_loop.simps) simp
  next
    case star
    then have "\<exists>b. match_loop (tl p) s (Some (tl p, s)) = Some b"
      by (intro IH [of "tl p" s s "[]" "tl p" "[]"]) (use inv in \<open>auto simp: neq_Nil_conv\<close>)
    then show ?thesis using star by (subst match_loop.simps) simp
  next
    case retry
    then have "\<exists>b. match_loop sp (tl ms) (Some (sp, tl ms)) = Some b"
      by (intro IH [of sp "tl ms" "tl ms" "[]" sp "[]"]) (use inv in auto)
    then show ?thesis using retry by (subst match_loop.simps) auto
  qed (subst match_loop.simps, simp)
qed

lemma match_loop_returns: "\<exists>b. match_loop p s None = Some b"
proof (induction s arbitrary: p)
  case (Cons c s)
  then show ?case
    using match_loop_star_returns [of "tl p" "[]" "tl p" "c # s" "[]" "c # s"]
    by (subst match_loop.simps) auto
qed (subst match_loop.simps, simp)

text \<open>C27: the glob matcher of KEYS returns on every pattern and key, and on a key without a star
  character it accepts exactly the keys the pattern denotes: its single-star backtracking loses no
  match.\<close>

theorem MatchPattern_decides_glob:
  "(\<exists>b. MatchPattern_opt pattern str = Some b) \<and>
   (CHR ''*'' \<notin> set str \<longrightarrow> MatchPattern_opt pattern str = Some (glob pattern str))"
proof (cases "pattern = ''*''")
  case True
  have "glob ''*'' str" unfolding glob_star by (intro exI [of _ "length str"]) simp
  then show ?thesis using True by (auto simp: MatchPattern_opt_def)
qed (simp add: MatchPattern_opt_def match_loop_start match_loop_returns)

theorem MatchPattern_decides_glob_witness:
  "MatchPattern_opt ''u*:?1'' ''user:a:11'' = Some True"
  using MatchPattern_decides_glob [of "''u*:?1''" "''user:a:11''"] by simp

lemmas match_loop_eval = match_loop.simps [of "_ # _"] match_loop.simps [of "[]"]

text \<open>a star of the pattern that meets a star of the key is taken as that character and never
  again as a wildcard, so a pattern that denotes a key with a star in it can fail to match it.\<close>

theorem MatchPattern_misses_literal_star:
  "MatchPattern_opt ''a*'' ''a*b'' = Some False \<and> glob ''a*'' ''a*b''"
  by (simp add: MatchPattern_opt_def match_loop_eval)

end
