(* ===== verification/GK_Memory_Store.thy ===== *)
theory GK_Memory_Store
  imports GK_Entry GK_Hash_Table GK_Glob
begin

text \<open>
  The sharded store of \<open>src/storage/memory_store.cpp\<close>: its state, the key-value and time-to-live
  operations, and the proof that they implement a map whose entries vanish at their deadlines.

  The state is the array of shards and the two sequence counters. Every operation on one key holds
  the mutex of that key's shard for its whole body, so an operation is one atomic step and a
  concurrent execution is a sequence of such steps; mutexes are not part of the state. The steady
  clock is read once per operation: the reading is the argument \<open>now\<close>. \<open>std::hash<std::string>\<close>,
  which the standard leaves open, is the parameter \<open>H\<close>.
\<close>

section \<open>State\<close>

record StorageShard =
  entries :: "(string, Entry) hash_table"
  rate_limits :: "(string, RateLimitRecord) hash_table"
  reservations :: "(string, Reservation) hash_table"
  idempotency_records :: "(string, IdempotencyRecord) hash_table"

record MemoryStore =
  shards :: "StorageShard list"
  next_reservation_seq :: u64
  next_idempotency_seq :: u64

definition kNumShards :: nat where
  "kNumShards = 64"

definition StorageShard_default :: StorageShard where
  "StorageShard_default =
     \<lparr>entries = HashTable_default, rate_limits = HashTable_default,
      reservations = HashTable_default, idempotency_records = HashTable_default\<rparr>"

definition MemoryStore_default :: MemoryStore where
  "MemoryStore_default =
     \<lparr>shards = replicate kNumShards StorageShard_default,
      next_reservation_seq = 1, next_idempotency_seq = 1\<rparr>"

text \<open>The FNV-1a hash that selects a shard.\<close>

definition fnv1a :: "string \<Rightarrow> u64" where
  "fnv1a key = fold (\<lambda>c hash. (hash XOR of_nat (byte_val c)) * 1099511628211) key
     14695981039346656037"

definition GetShard :: "string \<Rightarrow> nat" where
  "GetShard key = unat (fnv1a key AND of_nat (kNumShards - 1))"

text \<open>A body run on the shard of a key, with that shard replaced by the body's result.\<close>

definition on_shard :: "string \<Rightarrow> (StorageShard \<Rightarrow> 'a \<times> StorageShard) \<Rightarrow> MemoryStore \<Rightarrow> 'a \<times> MemoryStore" where
  "on_shard key f st =
     (let i = GetShard key; (r, sh) = f (shards st ! i)
      in (r, st\<lparr>shards := (shards st)[i := sh]\<rparr>))"

section \<open>Key-value operations\<close>

type_synonym hash_fn = "string \<Rightarrow> nat"

abbreviation erase_entry :: "hash_fn \<Rightarrow> string \<Rightarrow> StorageShard \<Rightarrow> StorageShard" where
  "erase_entry H key sh \<equiv> sh\<lparr>entries := fst (Erase H key (entries sh))\<rparr>"

text \<open>The lookup every operation starts with: an expired entry is erased and counts as absent.\<close>

definition lazy_find :: "hash_fn \<Rightarrow> u64 \<Rightarrow> string \<Rightarrow> StorageShard \<Rightarrow> Entry option \<times> StorageShard" where
  "lazy_find H now key sh =
     (case Find H key (entries sh) of
        None \<Rightarrow> (None, sh)
      | Some e \<Rightarrow> if EntryMetadata_IsExpired (meta e) now then (None, erase_entry H key sh)
                 else (Some e, sh))"

definition MemoryStore_Set ::
  "hash_fn \<Rightarrow> u64 \<Rightarrow> string \<Rightarrow> string \<Rightarrow> WriteCondition \<Rightarrow> u64 \<Rightarrow> MemoryStore \<Rightarrow> bool \<times> MemoryStore" where
  "MemoryStore_Set H now key v condition ttl_ms = on_shard key (\<lambda>sh0.
     (let (existing, sh) = lazy_find H now key sh0;
          expire_at = (if ttl_ms > 0 then now + ttl_ms else 0)
      in if condition = IfAbsent \<and> existing \<noteq> None then (False, sh)
         else if condition = IfPresent \<and> existing = None then (False, sh)
         else if existing = None
         then (True, sh\<lparr>entries := fst (Insert H key
                 \<lparr>e_key = key, e_value = v,
                  meta = \<lparr>meta_type = DataType_String, created_at_ms = now, expire_at_ms = expire_at\<rparr>\<rparr>
                 (entries sh))\<rparr>)
         else (True, sh\<lparr>entries := Write H key
                 (\<lambda>e. e\<lparr>e_value := v,
                        meta := (meta e)\<lparr>meta_type := DataType_String, expire_at_ms := expire_at\<rparr>\<rparr>)
                 (entries sh)\<rparr>)))"

definition MemoryStore_Get :: "hash_fn \<Rightarrow> u64 \<Rightarrow> string \<Rightarrow> MemoryStore \<Rightarrow> string option \<times> MemoryStore" where
  "MemoryStore_Get H now key = on_shard key (\<lambda>sh.
     case lazy_find H now key sh of (existing, sh') \<Rightarrow> (map_option e_value existing, sh'))"

definition MemoryStore_Del :: "hash_fn \<Rightarrow> string \<Rightarrow> MemoryStore \<Rightarrow> bool \<times> MemoryStore" where
  "MemoryStore_Del H key = on_shard key (\<lambda>sh.
     case Erase H key (entries sh) of (t, found) \<Rightarrow> (found, sh\<lparr>entries := t\<rparr>))"

definition MemoryStore_Exists :: "hash_fn \<Rightarrow> u64 \<Rightarrow> string \<Rightarrow> MemoryStore \<Rightarrow> bool \<times> MemoryStore" where
  "MemoryStore_Exists H now key = on_shard key (\<lambda>sh.
     case lazy_find H now key sh of (existing, sh') \<Rightarrow> (existing \<noteq> None, sh'))"

definition MemoryStore_Type :: "hash_fn \<Rightarrow> u64 \<Rightarrow> string \<Rightarrow> MemoryStore \<Rightarrow> DataType \<times> MemoryStore" where
  "MemoryStore_Type H now key = on_shard key (\<lambda>sh.
     case lazy_find H now key sh of (existing, sh') \<Rightarrow>
       (case existing of None \<Rightarrow> DataType_None | Some e \<Rightarrow> meta_type (meta e), sh'))"

definition MemoryStore_Expire :: "hash_fn \<Rightarrow> u64 \<Rightarrow> string \<Rightarrow> u64 \<Rightarrow> MemoryStore \<Rightarrow> bool \<times> MemoryStore" where
  "MemoryStore_Expire H now key ttl_ms = on_shard key (\<lambda>sh0.
     case lazy_find H now key sh0 of (existing, sh) \<Rightarrow>
       if existing = None then (False, sh)
       else if ttl_ms = 0 then (True, erase_entry H key sh)
       else (True, sh\<lparr>entries := Write H key
               (\<lambda>e. e\<lparr>meta := (meta e)\<lparr>expire_at_ms := now + ttl_ms\<rparr>\<rparr>) (entries sh)\<rparr>))"

definition MemoryStore_Ttl :: "hash_fn \<Rightarrow> u64 \<Rightarrow> string \<Rightarrow> MemoryStore \<Rightarrow> i64 \<times> MemoryStore" where
  "MemoryStore_Ttl H now key = on_shard key (\<lambda>sh.
     case lazy_find H now key sh of (existing, sh') \<Rightarrow>
       (case existing of None \<Rightarrow> - 2
        | Some e \<Rightarrow> if expire_at_ms (meta e) = 0 then - 1
                   else (expire_at_ms (meta e) - now + 999) div 1000, sh'))"

definition MemoryStore_Pttl :: "hash_fn \<Rightarrow> u64 \<Rightarrow> string \<Rightarrow> MemoryStore \<Rightarrow> i64 \<times> MemoryStore" where
  "MemoryStore_Pttl H now key = on_shard key (\<lambda>sh.
     case lazy_find H now key sh of (existing, sh') \<Rightarrow>
       (case existing of None \<Rightarrow> - 2
        | Some e \<Rightarrow> if expire_at_ms (meta e) = 0 then - 1 else expire_at_ms (meta e) - now, sh'))"

definition MemoryStore_Persist :: "hash_fn \<Rightarrow> u64 \<Rightarrow> string \<Rightarrow> MemoryStore \<Rightarrow> bool \<times> MemoryStore" where
  "MemoryStore_Persist H now key = on_shard key (\<lambda>sh0.
     case lazy_find H now key sh0 of (existing, sh) \<Rightarrow>
       (case existing of None \<Rightarrow> (False, sh)
        | Some e \<Rightarrow> if expire_at_ms (meta e) = 0 then (False, sh)
                   else (True, sh\<lparr>entries := Write H key
                          (\<lambda>e. e\<lparr>meta := (meta e)\<lparr>expire_at_ms := 0\<rparr>\<rparr>) (entries sh)\<rparr>)))"

section \<open>Operations on all shards\<close>

definition live_nodes :: "u64 \<Rightarrow> StorageShard \<Rightarrow> (string \<times> Entry) list" where
  "live_nodes now sh = filter (\<lambda>(k, e). \<not> EntryMetadata_IsExpired (meta e) now) (nodes (entries sh))"

definition MemoryStore_DbSize :: "u64 \<Rightarrow> MemoryStore \<Rightarrow> nat" where
  "MemoryStore_DbSize now st = fold (\<lambda>sh count. count + length (live_nodes now sh)) (shards st) 0"

definition MemoryStore_Keys :: "u64 \<Rightarrow> string \<Rightarrow> MemoryStore \<Rightarrow> string list" where
  "MemoryStore_Keys now pattern st =
     concat (map (\<lambda>sh. map fst (filter (\<lambda>(k, e). MatchPattern pattern k) (live_nodes now sh))) (shards st))"

text \<open>The loop of \<open>Scan\<close>: the shards still to visit, the index of the first of them, the bucket
  cursor in it and the keys collected so far.\<close>

fun scan_shards ::
  "hash_fn \<Rightarrow> u64 \<Rightarrow> nat \<Rightarrow> StorageShard list \<Rightarrow> nat \<Rightarrow> nat \<Rightarrow> string list \<Rightarrow> nat \<times> nat \<times> string list" where
  "scan_shards H now count [] shard_idx bucket_cursor result = (shard_idx, bucket_cursor, result)"
| "scan_shards H now count (sh # rest) shard_idx bucket_cursor result =
     (if length result < count
      then (let (next_bucket_cursor, keys) = Scan bucket_cursor (count - length result) (entries sh);
                result' = result @ filter (\<lambda>k. case Find H k (entries sh) of None \<Rightarrow> False
                                     | Some e \<Rightarrow> \<not> EntryMetadata_IsExpired (meta e) now) keys
            in if next_bucket_cursor = 0 then scan_shards H now count rest (Suc shard_idx) 0 result'
               else (shard_idx, next_bucket_cursor, result'))
      else (shard_idx, bucket_cursor, result))"

definition MemoryStore_Scan :: "hash_fn \<Rightarrow> u64 \<Rightarrow> u64 \<Rightarrow> nat \<Rightarrow> MemoryStore \<Rightarrow> u64 \<times> string list" where
  "MemoryStore_Scan H now cursor count0 st =
     (let count = (if count0 = 0 then 10 else count0);
          shard_idx = unat (drop_bit 32 cursor);
          bucket_cursor = unat (cursor AND 0xFFFFFFFF)
      in if shard_idx \<ge> kNumShards then (0, [])
         else (let (s, b, result) =
                     scan_shards H now count (drop shard_idx (shards st)) shard_idx bucket_cursor []
               in (if s < kNumShards then push_bit 32 (of_nat s) OR (of_nat b AND 0xFFFFFFFF) else 0,
                   result)))"

section \<open>The invariant of the store\<close>

text \<open>A table whose invariant holds and whose nodes satisfy a predicate.\<close>

definition table_inv :: "hash_fn \<Rightarrow> (string \<Rightarrow> 'v \<Rightarrow> bool) \<Rightarrow> (string, 'v) hash_table \<Rightarrow> bool" where
  "table_inv H P t \<longleftrightarrow> ht_inv H t \<and> (\<forall>k v. Find H k t = Some v \<longrightarrow> P k v)"

definition entry_ok :: "nat \<Rightarrow> string \<Rightarrow> Entry \<Rightarrow> bool" where
  "entry_ok i k e \<longleftrightarrow> GetShard k = i \<and> e_key e = k \<and> meta_type (meta e) = DataType_String"

definition rate_ok :: "nat \<Rightarrow> string \<Rightarrow> RateLimitRecord \<Rightarrow> bool" where
  "rate_ok i k r \<longleftrightarrow> GetShard k = i \<and> rl_key r = k"

definition resv_ok :: "nat \<Rightarrow> string \<Rightarrow> Reservation \<Rightarrow> bool" where
  "resv_ok i k r \<longleftrightarrow> GetShard (res_key r) = i \<and> res_id r = k"

definition idem_ok :: "nat \<Rightarrow> string \<Rightarrow> IdempotencyRecord \<Rightarrow> bool" where
  "idem_ok i k r \<longleftrightarrow> GetShard k = i \<and> idem_key r = k \<and> status r \<noteq> Status_None"

definition shard_inv :: "hash_fn \<Rightarrow> nat \<Rightarrow> StorageShard \<Rightarrow> bool" where
  "shard_inv H i sh \<longleftrightarrow>
     table_inv H (entry_ok i) (entries sh) \<and> table_inv H (rate_ok i) (rate_limits sh) \<and>
     table_inv H (resv_ok i) (reservations sh) \<and> table_inv H (idem_ok i) (idempotency_records sh)"

definition store_inv :: "hash_fn \<Rightarrow> MemoryStore \<Rightarrow> bool" where
  "store_inv H st \<longleftrightarrow>
     length (shards st) = kNumShards \<and> (\<forall>i < kNumShards. shard_inv H i (shards st ! i))"

lemma table_inv_ht: "table_inv H P t \<Longrightarrow> ht_inv H t"
  by (simp add: table_inv_def)

lemma table_inv_Find: "table_inv H P t \<Longrightarrow> Find H k t = Some v \<Longrightarrow> P k v"
  by (simp add: table_inv_def)

lemma table_inv_default [simp]: "table_inv H P HashTable_default"
  by (simp add: table_inv_def HashTable_default_def)

lemma table_inv_put: "table_inv H P t \<Longrightarrow> P k v \<Longrightarrow> table_inv H P (fst (Insert H k v t))"
  using ht.invar_put [of H t k v] ht.find_put [of H t k v]
  by (auto simp: table_inv_def fun_eq_iff)

lemma table_inv_erase: "table_inv H P t \<Longrightarrow> table_inv H P (fst (Erase H k t))"
  using ht.invar_erase [of H t k] ht.find_erase [of H t k]
  by (auto simp: table_inv_def fun_eq_iff)

lemma table_inv_write:
  "table_inv H P t \<Longrightarrow> (\<And>v. P k v \<Longrightarrow> P k (f v)) \<Longrightarrow> table_inv H P (Write H k f t)"
  using ht.invar_modify [of H t k f] ht.find_modify [of H t k f]
  by (auto simp: table_inv_def fun_eq_iff)

lemmas table_inv_intros = table_inv_put table_inv_erase table_inv_write

lemma Find_put: "table_inv H P t \<Longrightarrow> Find H k' (fst (Insert H k v t)) = (if k' = k then Some v else Find H k' t)"
  using ht.find_put [of H t k v] by (simp add: table_inv_def fun_eq_iff)

lemma Find_erase: "table_inv H P t \<Longrightarrow> Find H k' (fst (Erase H k t)) = (if k' = k then None else Find H k' t)"
  using ht.find_erase [of H t k] by (simp add: table_inv_def fun_eq_iff)

lemma Find_write:
  "table_inv H P t \<Longrightarrow>
   Find H k' (Write H k f t) = (if k' = k then map_option f (Find H k t) else Find H k' t)"
  using ht.find_modify [of H t k f] by (simp add: table_inv_def fun_eq_iff)

lemma shard_inv_tables:
  assumes "shard_inv H i sh"
  shows "table_inv H (entry_ok i) (entries sh)" "table_inv H (rate_ok i) (rate_limits sh)"
    "table_inv H (resv_ok i) (reservations sh)" "table_inv H (idem_ok i) (idempotency_records sh)"
  using assms by (simp_all add: shard_inv_def)

lemma shard_inv_default [simp]: "shard_inv H i StorageShard_default"
  by (simp add: shard_inv_def StorageShard_default_def)

lemma store_inv_default [simp]: "store_inv H MemoryStore_default"
  by (simp add: store_inv_def MemoryStore_default_def)

subsection \<open>Bodies under a shard lock\<close>

lemma GetShard_bound [simp]: "GetShard key < kNumShards"
proof -
  have "fnv1a key AND 63 \<le> (63 :: u64)" by (rule word_and_le1)
  then show ?thesis by (simp add: GetShard_def kNumShards_def word_le_nat_alt)
qed

lemma shards_bound [simp]: "store_inv H st \<Longrightarrow> GetShard key < length (shards st)"
  by (simp add: store_inv_def)

lemma store_inv_shard: "store_inv H st \<Longrightarrow> shard_inv H (GetShard key) (shards st ! GetShard key)"
  by (simp add: store_inv_def)

lemma store_inv_update:
  assumes "store_inv H st" "shard_inv H i sh"
  shows "store_inv H (st\<lparr>shards := (shards st)[i := sh]\<rparr>)"
proof -
  have "shard_inv H j ((shards st)[i := sh] ! j)" if "j < kNumShards" for j
    using assms that by (cases "i = j") (auto simp: store_inv_def)
  then show ?thesis using assms by (simp add: store_inv_def)
qed

lemma store_inv_seq [simp]:
  "store_inv H (st\<lparr>next_reservation_seq := n\<rparr>) = store_inv H st"
  "store_inv H (st\<lparr>next_idempotency_seq := n\<rparr>) = store_inv H st"
  by (simp_all add: store_inv_def)

text \<open>The contents of the store, per key: each table is read in the shard of the key.\<close>

definition entry_at :: "hash_fn \<Rightarrow> MemoryStore \<Rightarrow> string \<Rightarrow> Entry option" where
  "entry_at H st k = Find H k (entries (shards st ! GetShard k))"

definition rate_at :: "hash_fn \<Rightarrow> MemoryStore \<Rightarrow> string \<Rightarrow> RateLimitRecord option" where
  "rate_at H st k = Find H k (rate_limits (shards st ! GetShard k))"

definition resv_at :: "hash_fn \<Rightarrow> MemoryStore \<Rightarrow> string \<Rightarrow> string \<Rightarrow> Reservation option" where
  "resv_at H st k rid = Find H rid (reservations (shards st ! GetShard k))"

definition idem_at :: "hash_fn \<Rightarrow> MemoryStore \<Rightarrow> string \<Rightarrow> IdempotencyRecord option" where
  "idem_at H st k = Find H k (idempotency_records (shards st ! GetShard k))"

lemmas at_defs = entry_at_def rate_at_def resv_at_def idem_at_def

lemma entry_at_ok: "store_inv H st \<Longrightarrow> entry_at H st k = Some e \<Longrightarrow> e_key e = k \<and> meta_type (meta e) = DataType_String"
  using table_inv_Find [OF shard_inv_tables(1) [OF store_inv_shard]]
  by (fastforce simp: entry_at_def entry_ok_def)

lemma at_default [simp]:
  "entry_at H MemoryStore_default k = None" "rate_at H MemoryStore_default k = None"
  "resv_at H MemoryStore_default k i = None" "idem_at H MemoryStore_default k = None"
  by (simp_all add: at_defs MemoryStore_default_def StorageShard_default_def HashTable_default_def)

text \<open>An operation that runs a body on one shard has the body's result and touches no other shard.\<close>

lemma on_shard_fst: "fst (on_shard key f st) = fst (f (shards st ! GetShard key))"
  by (simp add: on_shard_def Let_def split: prod.splits)

lemma on_shard_snd:
  "snd (on_shard key f st) =
     st\<lparr>shards := (shards st)[GetShard key := snd (f (shards st ! GetShard key))]\<rparr>"
  by (simp add: on_shard_def Let_def split: prod.splits)

lemma on_shard_inv:
  assumes "store_inv H st"
    and "\<And>sh. shard_inv H (GetShard key) sh \<Longrightarrow> shard_inv H (GetShard key) (snd (f sh))"
  shows "store_inv H (snd (on_shard key f st))"
  unfolding on_shard_snd by (intro store_inv_update assms store_inv_shard)

lemma shards_on_shard:
  assumes "store_inv H st"
  shows "shards (snd (on_shard key f st)) ! GetShard k =
    (if GetShard k = GetShard key then snd (f (shards st ! GetShard key)) else shards st ! GetShard k)"
  using assms by (simp add: on_shard_snd)

section \<open>The timed map the store implements\<close>

text \<open>
  The specification of the key-value part: a map from keys to a value and a deadline, zero for
  none. A cell whose deadline has passed is not there.
\<close>

type_synonym cell = "string \<times> u64"
type_synonym timed_map = "string \<Rightarrow> cell option"

definition cell_expired :: "cell \<Rightarrow> u64 \<Rightarrow> bool" where
  "cell_expired c now \<longleftrightarrow> snd c > 0 \<and> now \<ge> snd c"

interpretation cell: expiring snd cell_expired
  by unfold_locales (simp add: cell_expired_def)

definition unexpired :: "u64 \<Rightarrow> timed_map \<Rightarrow> timed_map" where
  "unexpired now m = (\<lambda>k. cell.visible now (m k))"

definition cell_of :: "Entry \<Rightarrow> cell" where
  "cell_of e = (e_value e, expire_at_ms (meta e))"

definition contents :: "hash_fn \<Rightarrow> MemoryStore \<Rightarrow> timed_map" where
  "contents H st = (\<lambda>k. map_option cell_of (entry_at H st k))"

lemma cell_expired_of [simp]: "cell_expired (cell_of e) now = EntryMetadata_IsExpired (meta e) now"
  by (simp add: cell_expired_def cell_of_def EntryMetadata_IsExpired_def)

lemma fst_cell_of [simp]: "fst (cell_of e) = e_value e" and snd_cell_of [simp]: "snd (cell_of e) = expire_at_ms (meta e)"
  by (simp_all add: cell_of_def)

lemma visible_cell_of [simp]:
  "cell.visible now (map_option cell_of x) = map_option cell_of (entry.visible now x)"
  by (simp add: cell.visible_def entry.visible_def split: option.splits)

lemma contents_default [simp]: "contents H MemoryStore_default = Map.empty"
  by (simp add: contents_def)

lemma unexpired_empty [simp]: "unexpired now Map.empty = Map.empty"
  by (simp add: unexpired_def)

lemma unexpired_upd [simp]: "unexpired now (m(k := c)) = (unexpired now m)(k := cell.visible now c)"
  by (simp add: unexpired_def fun_eq_iff)

lemma unexpired_later: "now \<le> now' \<Longrightarrow> unexpired now' (unexpired now m) = unexpired now' m"
  by (simp add: unexpired_def cell.visible_later)

lemma unexpired_mono:
  assumes "unexpired now m = unexpired now m'" "now \<le> now'"
  shows "unexpired now' m = unexpired now' m'"
  by (metis assms unexpired_later)

subsection \<open>The operations on the timed map\<close>

definition spec_set :: "u64 \<Rightarrow> string \<Rightarrow> string \<Rightarrow> WriteCondition \<Rightarrow> u64 \<Rightarrow> timed_map \<Rightarrow> bool \<times> timed_map" where
  "spec_set now key v condition ttl m =
     (if condition = IfAbsent \<and> unexpired now m key \<noteq> None \<or>
         condition = IfPresent \<and> unexpired now m key = None
      then (False, m) else (True, m(key \<mapsto> (v, if ttl > 0 then now + ttl else 0))))"

definition spec_expire :: "u64 \<Rightarrow> string \<Rightarrow> u64 \<Rightarrow> timed_map \<Rightarrow> bool \<times> timed_map" where
  "spec_expire now key ttl m =
     (case unexpired now m key of None \<Rightarrow> (False, m)
      | Some (v, d) \<Rightarrow> (True, m(key := if ttl = 0 then None else Some (v, now + ttl))))"

definition spec_persist :: "u64 \<Rightarrow> string \<Rightarrow> timed_map \<Rightarrow> bool \<times> timed_map" where
  "spec_persist now key m =
     (case unexpired now m key of None \<Rightarrow> (False, m)
      | Some (v, d) \<Rightarrow> if d = 0 then (False, m) else (True, m(key \<mapsto> (v, 0))))"

definition spec_pttl :: "u64 \<Rightarrow> string \<Rightarrow> timed_map \<Rightarrow> i64" where
  "spec_pttl now key m =
     (case unexpired now m key of None \<Rightarrow> - 2 | Some (v, d) \<Rightarrow> if d = 0 then - 1 else d - now)"

definition spec_ttl :: "u64 \<Rightarrow> string \<Rightarrow> timed_map \<Rightarrow> i64" where
  "spec_ttl now key m =
     (case unexpired now m key of None \<Rightarrow> - 2 | Some (v, d) \<Rightarrow> if d = 0 then - 1 else (d - now + 999) div 1000)"

lemmas spec_defs = spec_set_def spec_expire_def spec_persist_def spec_pttl_def spec_ttl_def

section \<open>The store implements the timed map\<close>

lemma lazy_find_fst: "fst (lazy_find H now key sh) = entry.visible now (Find H key (entries sh))"
  by (simp add: lazy_find_def entry.visible_def split: option.splits)

lemma shard_inv_entries:
  "shard_inv H i sh \<Longrightarrow> table_inv H (entry_ok i) t \<Longrightarrow> shard_inv H i (sh\<lparr>entries := t\<rparr>)"
  by (simp add: shard_inv_def)

lemma lazy_find_inv: "shard_inv H i sh \<Longrightarrow> shard_inv H i (snd (lazy_find H now key sh))"
  by (auto simp: lazy_find_def shard_inv_tables intro!: shard_inv_entries table_inv_erase split: option.splits)

lemma lazy_find_Find:
  "shard_inv H i sh \<Longrightarrow> Find H k (entries (snd (lazy_find H now key sh))) =
     (if k = key then entry.visible now (Find H key (entries sh)) else Find H k (entries sh))"
  by (auto simp: lazy_find_def entry.visible_def Find_erase [OF shard_inv_tables(1)] split: option.splits)

lemma lazy_find_frame [simp]:
  "rate_limits (snd (lazy_find H now key sh)) = rate_limits sh"
  "reservations (snd (lazy_find H now key sh)) = reservations sh"
  "idempotency_records (snd (lazy_find H now key sh)) = idempotency_records sh"
  by (simp_all add: lazy_find_def split: option.splits)

lemma unexpired_contents:
  "unexpired now (contents H st) k = map_option cell_of (entry.visible now (entry_at H st k))"
  by (simp add: unexpired_def contents_def)

text \<open>
  The effect of a body that returns \<open>r\<close>, leaves \<open>y\<close> as the entry of its key, and changes no other
  entry and no other table; and the same for an operation on the store.
\<close>

abbreviation other_tables :: "StorageShard \<Rightarrow> _" where
  "other_tables sh \<equiv> (rate_limits sh, reservations sh, idempotency_records sh)"

definition shard_effect ::
  "hash_fn \<Rightarrow> string \<Rightarrow> 'a \<Rightarrow> Entry option \<Rightarrow> StorageShard \<Rightarrow> 'a \<times> StorageShard \<Rightarrow> bool" where
  "shard_effect H key r y sh res \<longleftrightarrow>
     fst res = r \<and> shard_inv H (GetShard key) (snd res) \<and>
     (\<forall>k. Find H k (entries (snd res)) = (if k = key then y else Find H k (entries sh))) \<and>
     other_tables (snd res) = other_tables sh"

definition store_effect ::
  "hash_fn \<Rightarrow> string \<Rightarrow> 'a \<Rightarrow> cell option \<Rightarrow> MemoryStore \<Rightarrow> 'a \<times> MemoryStore \<Rightarrow> bool" where
  "store_effect H key r y st res \<longleftrightarrow>
     fst res = r \<and> store_inv H (snd res) \<and> contents H (snd res) = (contents H st)(key := y) \<and>
     map other_tables (shards (snd res)) = map other_tables (shards st) \<and>
     next_reservation_seq (snd res) = next_reservation_seq st \<and>
     next_idempotency_seq (snd res) = next_idempotency_seq st"

lemma on_shard_effect:
  assumes "store_inv H st" "shard_effect H key r y (shards st ! GetShard key) (f (shards st ! GetShard key))"
  shows "store_effect H key r (map_option cell_of y) st (on_shard key f st)"
proof -
  let ?sh = "shards st ! GetShard key"
  note eff = assms(2) [unfolded shard_effect_def]
  have "contents H (snd (on_shard key f st)) = (contents H st)(key := map_option cell_of y)"
    using eff by (auto simp: contents_def entry_at_def fun_eq_iff shards_on_shard [OF assms(1)])
  moreover have "store_inv H (snd (on_shard key f st))"
    unfolding on_shard_snd using eff by (intro store_inv_update assms) simp
  moreover have "map other_tables (shards (snd (on_shard key f st))) = map other_tables (shards st)"
    using eff assms(1) by (simp add: on_shard_snd map_update list_update_same_conv)
  ultimately show ?thesis
    using eff by (simp add: store_effect_def on_shard_fst) (simp add: on_shard_snd)
qed

text \<open>Most bodies are a lazy lookup, followed by an update of the entry it found.\<close>

lemma lazy_effect:
  assumes "store_inv H st" and "x = entry.visible now (entry_at H st key)"
    and "\<And>sh. shard_inv H (GetShard key) sh \<Longrightarrow> Find H key (entries sh) = x \<Longrightarrow>
      shard_effect H key r y sh (g x sh)"
  shows "store_effect H key r (map_option cell_of y) st
    (on_shard key (\<lambda>sh. case lazy_find H now key sh of (x, sh') \<Rightarrow> g x sh') st)"
proof (rule on_shard_effect [OF assms(1)])
  let ?sh = "shards st ! GetShard key"
  note inv = store_inv_shard [OF assms(1), of key]
  have x: "fst (lazy_find H now key ?sh) = x"
    by (simp add: assms(2) lazy_find_fst entry_at_def)
  have "shard_effect H key r y (snd (lazy_find H now key ?sh)) (g x (snd (lazy_find H now key ?sh)))"
    by (rule assms(3)) (simp_all add: lazy_find_inv [OF inv] lazy_find_Find [OF inv] assms(2) entry_at_def)
  then show "shard_effect H key r y ?sh (case lazy_find H now key ?sh of (x, sh') \<Rightarrow> g x sh')"
    by (simp add: shard_effect_def case_prod_beta x lazy_find_Find [OF inv])
qed

text \<open>The three ways a body ends.\<close>

lemma effect_keep: "shard_inv H (GetShard key) sh \<Longrightarrow> Find H key (entries sh) = y \<Longrightarrow> shard_effect H key r y sh (r, sh)"
  by (simp add: shard_effect_def)

lemma effect_put:
  assumes "shard_inv H (GetShard key) sh" "e_key e = key" "meta_type (meta e) = DataType_String"
  shows "shard_effect H key r (Some e) sh (r, sh\<lparr>entries := fst (Insert H key e (entries sh))\<rparr>)"
  using assms by (auto simp: shard_effect_def Find_put [OF shard_inv_tables(1)] shard_inv_tables entry_ok_def
      intro!: shard_inv_entries table_inv_put)

lemma effect_write:
  assumes "shard_inv H (GetShard key) sh" "Find H key (entries sh) = x" "y = map_option f x"
    and "\<And>e. entry_ok (GetShard key) key e \<Longrightarrow> entry_ok (GetShard key) key (f e)"
  shows "shard_effect H key r y sh (r, sh\<lparr>entries := Write H key f (entries sh)\<rparr>)"
  using assms by (auto simp: shard_effect_def Find_write [OF shard_inv_tables(1)] shard_inv_tables
      intro!: shard_inv_entries table_inv_write)

lemma effect_erase:
  assumes "shard_inv H (GetShard key) sh"
  shows "shard_effect H key r None sh (r, erase_entry H key sh)"
  using assms by (auto simp: shard_effect_def Find_erase [OF shard_inv_tables(1)] shard_inv_tables
      intro!: shard_inv_entries table_inv_erase)

lemmas effects = effect_keep effect_put effect_write effect_erase

subsection \<open>Each operation refines its specification\<close>

definition kv_refines :: "hash_fn \<Rightarrow> u64 \<Rightarrow> MemoryStore \<Rightarrow> timed_map \<Rightarrow> bool" where
  "kv_refines H now st m \<longleftrightarrow> store_inv H st \<and> unexpired now (contents H st) = unexpired now m"

lemma kv_refines_later: "kv_refines H now st m \<Longrightarrow> now \<le> now' \<Longrightarrow> kv_refines H now' st m"
  unfolding kv_refines_def by (metis unexpired_mono)

lemma kv_refines_default: "kv_refines H now MemoryStore_default Map.empty"
  by (simp add: kv_refines_def)

text \<open>What the lookup of an operation finds, seen from the specification.\<close>

lemma kv_refines_found:
  "kv_refines H now st m \<Longrightarrow>
   map_option cell_of (entry.visible now (entry_at H st key)) = unexpired now m key"
  by (simp add: kv_refines_def flip: unexpired_contents)

lemma effect_refines:
  assumes "kv_refines H now st m" "store_effect H key r y st res"
    and "r = fst sres" "unexpired now (snd sres) = (unexpired now m)(key := cell.visible now y)"
  shows "fst res = fst sres \<and> kv_refines H now (snd res) (snd sres)"
  using assms by (simp add: kv_refines_def store_effect_def)

text \<open>An operation that only looks the key up.\<close>

lemma unexpired_self [simp]: "cell.visible now (unexpired now m key) = unexpired now m key"
  by (simp add: unexpired_def cell.visible_later)

lemma lookup_refines:
  assumes ref: "kv_refines H now st m" and r: "g (entry.visible now (entry_at H st key)) = r"
  shows "fst (on_shard key (\<lambda>sh. case lazy_find H now key sh of (x, sh') \<Rightarrow> (g x, sh')) st) = r \<and>
    kv_refines H now (snd (on_shard key (\<lambda>sh. case lazy_find H now key sh of (x, sh') \<Rightarrow> (g x, sh')) st)) m"
proof -
  have inv: "store_inv H st" using ref by (simp add: kv_refines_def)
  have "store_effect H key r (map_option cell_of (entry.visible now (entry_at H st key))) st
    (on_shard key (\<lambda>sh. case lazy_find H now key sh of (x, sh') \<Rightarrow> (g x, sh')) st)"
    using r by (intro lazy_effect [OF inv refl]) (auto intro: effect_keep)
  from effect_refines [OF ref this, of "(r, m)"] show ?thesis
    by (simp add: kv_refines_found [OF ref])
qed

lemma Get_refines:
  assumes "kv_refines H now st m"
  shows "fst (MemoryStore_Get H now key st) = map_option fst (unexpired now m key) \<and>
    kv_refines H now (snd (MemoryStore_Get H now key st)) m"
  unfolding MemoryStore_Get_def
  by (rule lookup_refines [OF assms])
    (simp add: option.map_comp comp_def flip: kv_refines_found [OF assms])

lemma Exists_refines:
  assumes "kv_refines H now st m"
  shows "fst (MemoryStore_Exists H now key st) = (unexpired now m key \<noteq> None) \<and>
    kv_refines H now (snd (MemoryStore_Exists H now key st)) m"
  unfolding MemoryStore_Exists_def
  by (rule lookup_refines [OF assms]) (simp flip: kv_refines_found [OF assms])

lemma Type_refines:
  assumes "kv_refines H now st m"
  shows "fst (MemoryStore_Type H now key st) =
      (if unexpired now m key = None then DataType_None else DataType_String) \<and>
    kv_refines H now (snd (MemoryStore_Type H now key st)) m"
  unfolding MemoryStore_Type_def
proof (rule lookup_refines [OF assms])
  have "meta_type (meta e) = DataType_String" if "entry.visible now (entry_at H st key) = Some e" for e
    using assms that entry_at_ok [of H st key e] by (simp add: entry.visible_Some_iff kv_refines_def)
  then show "(case entry.visible now (entry_at H st key) of None \<Rightarrow> DataType_None
      | Some e \<Rightarrow> meta_type (meta e)) = (if unexpired now m key = None then DataType_None else DataType_String)"
    by (simp split: option.splits flip: kv_refines_found [OF assms])
qed

lemma Ttl_refines:
  assumes "kv_refines H now st m"
  shows "fst (MemoryStore_Ttl H now key st) = spec_ttl now key m \<and>
    kv_refines H now (snd (MemoryStore_Ttl H now key st)) m"
  unfolding MemoryStore_Ttl_def
  by (rule lookup_refines [OF assms])
    (simp add: spec_ttl_def cell_of_def split: option.splits flip: kv_refines_found [OF assms])

lemma Pttl_refines:
  assumes "kv_refines H now st m"
  shows "fst (MemoryStore_Pttl H now key st) = spec_pttl now key m \<and>
    kv_refines H now (snd (MemoryStore_Pttl H now key st)) m"
  unfolding MemoryStore_Pttl_def
  by (rule lookup_refines [OF assms])
    (simp add: spec_pttl_def cell_of_def split: option.splits flip: kv_refines_found [OF assms])

lemma kv_refines_inv: "kv_refines H now st m \<Longrightarrow> store_inv H st"
  by (simp add: kv_refines_def)

lemma Set_refines:
  assumes ref: "kv_refines H now st m"
  shows "fst (MemoryStore_Set H now key v c ttl st) = fst (spec_set now key v c ttl m) \<and>
    kv_refines H now (snd (MemoryStore_Set H now key v c ttl st)) (snd (spec_set now key v c ttl m))"
proof -
  let ?x = "entry.visible now (entry_at H st key)"
  let ?ok = "\<not> (c = IfAbsent \<and> ?x \<noteq> None \<or> c = IfPresent \<and> ?x = None)"
  let ?d = "if ttl > 0 then now + ttl else 0"
  let ?new = "\<lparr>e_key = key, e_value = v,
    meta = \<lparr>meta_type = DataType_String, created_at_ms = now, expire_at_ms = ?d\<rparr>\<rparr>"
  let ?upd = "\<lambda>e. e\<lparr>e_value := v, meta := (meta e)\<lparr>meta_type := DataType_String, expire_at_ms := ?d\<rparr>\<rparr>"
  let ?y = "if \<not> ?ok then ?x else if ?x = None then Some ?new else map_option ?upd ?x"
  have "store_effect H key ?ok (map_option cell_of ?y) st (MemoryStore_Set H now key v c ttl st)"
    unfolding MemoryStore_Set_def Let_def
  proof (rule lazy_effect [OF kv_refines_inv [OF ref] refl], goal_cases)
    case (1 sh)
    then show ?case by (auto intro!: effects simp: entry_ok_def)
  qed
  moreover have "map_option cell_of ?y = (if ?ok then Some (v, ?d) else unexpired now m key)"
    using kv_refines_found [OF ref, of key] by (cases ?x) (auto simp: cell_of_def)
  ultimately have eff: "store_effect H key ?ok (if ?ok then Some (v, ?d) else unexpired now m key) st
      (MemoryStore_Set H now key v c ttl st)" by simp
  have "?x = None \<longleftrightarrow> unexpired now m key = None"
    by (simp flip: kv_refines_found [OF ref])
  then show ?thesis
    by (intro effect_refines [OF ref eff]) (auto simp: spec_set_def)
qed

lemma Expire_refines:
  assumes ref: "kv_refines H now st m"
  shows "fst (MemoryStore_Expire H now key ttl st) = fst (spec_expire now key ttl m) \<and>
    kv_refines H now (snd (MemoryStore_Expire H now key ttl st)) (snd (spec_expire now key ttl m))"
proof -
  let ?x = "entry.visible now (entry_at H st key)"
  let ?y = "if ttl = 0 then None
    else map_option (\<lambda>e. e\<lparr>meta := (meta e)\<lparr>expire_at_ms := now + ttl\<rparr>\<rparr>) ?x"
  have "store_effect H key (?x \<noteq> None) (map_option cell_of ?y) st (MemoryStore_Expire H now key ttl st)"
    unfolding MemoryStore_Expire_def
  proof (rule lazy_effect [OF kv_refines_inv [OF ref] refl], goal_cases)
    case (1 sh)
    then show ?case by (auto intro!: effects simp: entry_ok_def)
  qed
  note eff = effect_refines [OF ref this] and found = kv_refines_found [OF ref, of key]
  show ?thesis
  proof (cases ?x)
    case None
    then show ?thesis using found by (intro eff) (auto simp: spec_expire_def fun_upd_idem)
  next
    case (Some e)
    then have "unexpired now m key = Some (e_value e, expire_at_ms (meta e))"
      using found by (simp add: cell_of_def)
    then show ?thesis using Some by (intro eff) (auto simp: spec_expire_def cell_of_def simp del: visible_cell_of)
  qed
qed

lemma Persist_refines:
  assumes ref: "kv_refines H now st m"
  shows "fst (MemoryStore_Persist H now key st) = fst (spec_persist now key m) \<and>
    kv_refines H now (snd (MemoryStore_Persist H now key st)) (snd (spec_persist now key m))"
proof -
  let ?x = "entry.visible now (entry_at H st key)"
  let ?ok = "case ?x of None \<Rightarrow> False | Some e \<Rightarrow> expire_at_ms (meta e) \<noteq> 0"
  let ?y = "map_option (\<lambda>e. e\<lparr>meta := (meta e)\<lparr>expire_at_ms := 0\<rparr>\<rparr>) ?x"
  have "store_effect H key ?ok (map_option cell_of ?y) st (MemoryStore_Persist H now key st)"
    unfolding MemoryStore_Persist_def
  proof (rule lazy_effect [OF kv_refines_inv [OF ref] refl], goal_cases)
    case (1 sh)
    then show ?case by (auto intro!: effects simp: entry_ok_def split: option.splits)
  qed
  note eff = effect_refines [OF ref this] and found = kv_refines_found [OF ref, of key]
  show ?thesis
  proof (cases ?x)
    case None
    then show ?thesis using found by (intro eff) (auto simp: spec_persist_def fun_upd_idem)
  next
    case (Some e)
    then have "unexpired now m key = Some (e_value e, expire_at_ms (meta e))"
      using found by (simp add: cell_of_def)
    then show ?thesis using Some by (intro eff) (auto simp: spec_persist_def cell_of_def cell_expired_def fun_upd_idem)
  qed
qed

text \<open>\<open>Del\<close> does not look at deadlines: it reports an expired entry it removes.\<close>

lemma Del_refines:
  assumes ref: "kv_refines H now st m"
  shows "fst (MemoryStore_Del H key st) = (entry_at H st key \<noteq> None) \<and>
    kv_refines H now (snd (MemoryStore_Del H key st)) (m(key := None))"
proof -
  have "store_effect H key (entry_at H st key \<noteq> None) (map_option cell_of None) st (MemoryStore_Del H key st)"
    unfolding MemoryStore_Del_def
  proof (rule on_shard_effect [OF kv_refines_inv [OF ref]])
    let ?sh = "shards st ! GetShard key"
    have inv: "shard_inv H (GetShard key) ?sh" by (rule store_inv_shard [OF kv_refines_inv [OF ref]])
    have "snd (Erase H key (entries ?sh)) = (entry_at H st key \<noteq> None)"
      by (simp add: Erase_def Let_def entry_at_def Find_def)
    then show "shard_effect H key (entry_at H st key \<noteq> None) None ?sh
        (case Erase H key (entries ?sh) of (t, found) \<Rightarrow> (found, ?sh\<lparr>entries := t\<rparr>))"
      using effect_erase [OF inv, of "entry_at H st key \<noteq> None"] by (simp add: case_prod_beta)
  qed
  from effect_refines [OF ref this, of "(entry_at H st key \<noteq> None, m(key := None))"] show ?thesis by simp
qed

subsection \<open>Enumerations\<close>

text \<open>All nodes of all shards that have not expired, in the order the shards are visited.\<close>

definition all_live :: "u64 \<Rightarrow> MemoryStore \<Rightarrow> (string \<times> Entry) list" where
  "all_live now st = concat (map (live_nodes now) (shards st))"

lemma live_nodes_iff:
  "shard_inv H i sh \<Longrightarrow>
   (k, e) \<in> set (live_nodes now sh) \<longleftrightarrow> entry.visible now (Find H k (entries sh)) = Some e"
  using ht.in_entries_iff [OF table_inv_ht [OF shard_inv_tables(1)], of H i sh k e]
  by (auto simp: live_nodes_def entry.visible_Some_iff)

lemma live_nodes_distinct: "shard_inv H i sh \<Longrightarrow> distinct (map fst (live_nodes now sh))"
  unfolding live_nodes_def
  by (rule distinct_map_filter [OF ht.distinct_entries [OF table_inv_ht [OF shard_inv_tables(1)]]])

lemma live_nodes_shard:
  assumes "shard_inv H i sh" "nd \<in> set (live_nodes now sh)"
  shows "GetShard (fst nd) = i"
proof -
  obtain k e where nd: "nd = (k, e)" by fastforce
  then have "Find H k (entries sh) = Some e"
    using assms live_nodes_iff [OF assms(1), of k e now] by (simp add: entry.visible_Some_iff)
  then show ?thesis
    using table_inv_Find [OF shard_inv_tables(1) [OF assms(1)]] nd by (fastforce simp: entry_ok_def)
qed

lemma all_live_distinct:
  assumes "store_inv H st"
  shows "distinct (map fst (all_live now st))"
  unfolding all_live_def
proof (rule distinct_keys_concat [where g = GetShard and off = 0])
  fix i nd assume "i < length (map (live_nodes now) (shards st))" "nd \<in> set (map (live_nodes now) (shards st) ! i)"
  then show "GetShard (fst nd) = i + 0"
    using assms live_nodes_shard [of H i "shards st ! i" nd now] by (simp add: store_inv_def)
next
  fix b assume "b \<in> set (map (live_nodes now) (shards st))"
  then obtain i where "i < length (shards st)" "b = live_nodes now (shards st ! i)"
    by (metis (no_types, opaque_lifting) in_set_conv_nth length_map nth_map)
  then show "distinct (map fst b)"
    using assms live_nodes_distinct [of H i] by (simp add: store_inv_def)
qed

lemma all_live_iff:
  assumes "store_inv H st"
  shows "(k, e) \<in> set (all_live now st) \<longleftrightarrow> entry.visible now (entry_at H st k) = Some e" (is "?l \<longleftrightarrow> ?r")
proof -
  have inv: "shard_inv H i (shards st ! i)" if "i < length (shards st)" for i
    using assms that by (simp add: store_inv_def)
  show ?thesis
  proof
    assume ?l
    then obtain i where i: "i < length (shards st)" and "(k, e) \<in> set (live_nodes now (shards st ! i))"
      by (auto simp: all_live_def in_set_conv_nth [of _ "shards st"])
    then show ?r using live_nodes_shard [OF inv [OF i]] live_nodes_iff [OF inv [OF i]]
      by (fastforce simp: entry_at_def)
  next
    assume ?r
    then have "(k, e) \<in> set (live_nodes now (shards st ! GetShard k))"
      using live_nodes_iff [OF store_inv_shard [OF assms], of k e now] by (simp add: entry_at_def)
    moreover have "shards st ! GetShard k \<in> set (shards st)" using assms by simp
    ultimately show ?l by (auto simp: all_live_def)
  qed
qed

lemma all_live_keys:
  assumes "store_inv H st"
  shows "k \<in> fst ` set (all_live now st) \<longleftrightarrow> unexpired now (contents H st) k \<noteq> None"
  using all_live_iff [OF assms, of k _ now] by (force simp: unexpired_contents)

lemma fold_add_length: "fold (\<lambda>x n. n + length (f x)) xs a = a + length (concat (map f xs))"
  by (induction xs arbitrary: a) simp_all

lemma DbSize_all_live: "MemoryStore_DbSize now st = length (all_live now st)"
  by (simp only: MemoryStore_DbSize_def all_live_def fold_add_length add_0)

lemma Keys_all_live:
  "MemoryStore_Keys now pattern st = map fst (filter (\<lambda>(k, e). MatchPattern pattern k) (all_live now st))"
  by (simp add: MemoryStore_Keys_def all_live_def filter_concat map_concat comp_def)

lemma DbSize_refines:
  assumes "kv_refines H now st m"
  shows "MemoryStore_DbSize now st = card (dom (unexpired now m))"
proof -
  note inv = kv_refines_inv [OF assms]
  have "set (map fst (all_live now st)) = dom (unexpired now m)"
    using all_live_keys [OF inv, of _ now] assms by (auto simp: kv_refines_def)
  then show ?thesis
    using distinct_card [OF all_live_distinct [OF inv, of now]] by (simp add: DbSize_all_live)
qed

lemma Keys_refines:
  assumes "kv_refines H now st m"
  shows "distinct (MemoryStore_Keys now pattern st) \<and>
    set (MemoryStore_Keys now pattern st) = {k \<in> dom (unexpired now m). MatchPattern pattern k}"
proof -
  note inv = kv_refines_inv [OF assms]
  have "k \<in> set (MemoryStore_Keys now pattern st) \<longleftrightarrow> k \<in> dom (unexpired now m) \<and> MatchPattern pattern k" for k
    using all_live_keys [OF inv, of k now] assms by (force simp: Keys_all_live kv_refines_def)
  then show ?thesis
    using distinct_map_filter [OF all_live_distinct [OF inv, of now]] by (auto simp: Keys_all_live)
qed

end
