(* ===== verification/GK_Counters.thy ===== *)
theory GK_Counters
  imports GK_Memory_Store
begin

text \<open>
  The two counting operations of \<open>src/storage/memory_store.cpp\<close>: \<open>IncrBy\<close>, a 64-bit counter kept
  as a decimal string, and \<open>RateLimit\<close>, the sliding-window estimate over two adjacent windows.
  The floating-point weight is computed with correctly rounded doubles. The conversion of a double
  of \<open>2 ^ 64\<close> or more to \<open>std::uint64_t\<close> is undefined in C++; its result is the parameter \<open>ub\<close>.
\<close>

section \<open>Counters\<close>

definition incr_not_integer :: IncrResult where
  "incr_not_integer = IncrResult False 0 ''ERR_NOT_AN_INTEGER'' ''value is not an integer or out of range''"

definition MemoryStore_IncrBy ::
  "hash_fn \<Rightarrow> u64 \<Rightarrow> string \<Rightarrow> i64 \<Rightarrow> u64 \<Rightarrow> MemoryStore \<Rightarrow> IncrResult \<times> MemoryStore" where
  "MemoryStore_IncrBy H now key delta init_ttl_ms = on_shard key (\<lambda>sh0.
     case lazy_find H now key sh0 of (existing, sh) \<Rightarrow>
     (case existing of
        None \<Rightarrow>
          (IncrResult True delta [] [],
           sh\<lparr>entries := fst (Insert H key
                \<lparr>e_key = key, e_value = to_string_i64 delta,
                 meta = \<lparr>meta_type = DataType_String, created_at_ms = now,
                         expire_at_ms = (if init_ttl_ms > 0 then now + init_ttl_ms else 0)\<rparr>\<rparr>
                (entries sh))\<rparr>)
      | Some e \<Rightarrow>
          if meta_type (meta e) \<noteq> DataType_String
          then (IncrResult False 0 ''WRONGTYPE''
                  ''Operation against a key holding the wrong kind of value'', sh)
          else (case stoll (e_value e) of
                  None \<Rightarrow> (incr_not_integer, sh)
                | Some (current_val, idx) \<Rightarrow>
                    if idx \<noteq> length (e_value e) then (incr_not_integer, sh)
                    else if sint delta > 0 \<and> sint current_val > (2 ^ 63 - 1) - sint delta \<or>
                            sint delta < 0 \<and> sint current_val < - (2 ^ 63) - sint delta
                    then (IncrResult False 0 ''ERR_OVERFLOW'' ''increment or decrement would overflow'', sh)
                    else (IncrResult True (current_val + delta) [] [],
                          sh\<lparr>entries := Write H key
                               (\<lambda>e. e\<lparr>e_value := to_string_i64 (current_val + delta)\<rparr>) (entries sh)\<rparr>))))"

section \<open>Rate limiting\<close>

definition double_to_u64 :: "(rat \<Rightarrow> u64) \<Rightarrow> rat \<Rightarrow> u64" where
  "double_to_u64 ub x = (if 0 \<le> x \<and> x < 2 ^ 64 then of_int \<lfloor>x\<rfloor> else ub x)"

definition new_rate_record :: "u64 \<Rightarrow> string \<Rightarrow> u64 \<Rightarrow> RateLimitRecord" where
  "new_rate_record now key window_ms =
     \<lparr>rl_key = key, current_window_idx = now div window_ms, current_count = 0, previous_count = 0,
      rl_window_ms = window_ms, rl_expire_at_ms = (now div window_ms + 2) * window_ms\<rparr>"

text \<open>The record brought up to the window of \<open>now\<close>.\<close>

definition roll_window :: "u64 \<Rightarrow> u64 \<Rightarrow> RateLimitRecord \<Rightarrow> RateLimitRecord" where
  "roll_window now window_ms r =
     (let current_idx = now div window_ms; expire = (current_idx + 2) * window_ms
      in if RateLimitRecord_IsExpired r now
         then r\<lparr>current_window_idx := current_idx, current_count := 0, previous_count := 0,
                rl_window_ms := window_ms, rl_expire_at_ms := expire\<rparr>
         else if rl_window_ms r \<noteq> window_ms
         then r\<lparr>rl_window_ms := window_ms, current_window_idx := current_idx, current_count := 0,
                previous_count := 0, rl_expire_at_ms := expire\<rparr>
         else (let diff = current_idx - current_window_idx r
               in if diff = 1
                  then r\<lparr>previous_count := current_count r, current_count := 0,
                         current_window_idx := current_idx, rl_expire_at_ms := expire\<rparr>
                  else if diff > 1
                  then r\<lparr>previous_count := 0, current_count := 0,
                         current_window_idx := current_idx, rl_expire_at_ms := expire\<rparr>
                  else r))"

definition weight_prev :: "u64 \<Rightarrow> u64 \<Rightarrow> rat" where
  "weight_prev elapsed window_ms =
     fl_round 53 (1 - fl_round 53 (double_of (unat elapsed) / double_of (unat window_ms)))"

definition estimated_count :: "(rat \<Rightarrow> u64) \<Rightarrow> u64 \<Rightarrow> u64 \<Rightarrow> RateLimitRecord \<Rightarrow> u64" where
  "estimated_count ub now window_ms r =
     double_to_u64 ub (fl_round 53 (double_of (unat (previous_count r)) * weight_prev (now mod window_ms) window_ms))
       + current_count r"

text \<open>The body under the shard lock.\<close>

definition RateLimit_locked ::
  "(rat \<Rightarrow> u64) \<Rightarrow> hash_fn \<Rightarrow> u64 \<Rightarrow> string \<Rightarrow> u64 \<Rightarrow> u64 \<Rightarrow> u64 \<Rightarrow> StorageShard \<Rightarrow> RateLimitResult \<times> StorageShard" where
  "RateLimit_locked ub H now key limit window_ms cost sh =
     (let (record, t) =
            (case Find H key (rate_limits sh) of
               Some r \<Rightarrow> (roll_window now window_ms r,
                         Write H key (roll_window now window_ms) (rate_limits sh))
             | None \<Rightarrow> (new_rate_record now key window_ms,
                       fst (Insert H key (new_rate_record now key window_ms) (rate_limits sh))));
          est = estimated_count ub now window_ms record
      in if est + cost \<le> limit
         then (RateLimitResult True True (limit - (est + cost)) 0 [] [],
               sh\<lparr>rate_limits := Write H key (\<lambda>r. r\<lparr>current_count := current_count r + cost\<rparr>) t\<rparr>)
         else (let remaining = (if limit \<ge> est then limit - est else 0);
                   retry = window_ms - now mod window_ms;
                   retry_after = (if retry = 0 then 1 else retry)
               in (RateLimitResult True False remaining retry_after [] [],
                   sh\<lparr>rate_limits := t\<rparr>)))"

definition MemoryStore_RateLimit ::
  "(rat \<Rightarrow> u64) \<Rightarrow> hash_fn \<Rightarrow> u64 \<Rightarrow> string \<Rightarrow> u64 \<Rightarrow> u64 \<Rightarrow> u64 \<Rightarrow> MemoryStore \<Rightarrow> RateLimitResult \<times> MemoryStore" where
  "MemoryStore_RateLimit ub H now key limit window_ms cost st =
     (if limit = 0
      then (RateLimitResult False False 0 0 ''INVALID_ARGUMENTS'' ''limit must be greater than zero'', st)
      else if window_ms = 0
      then (RateLimitResult False False 0 0 ''INVALID_ARGUMENTS'' ''window_ms must be greater than zero'', st)
      else on_shard key
             (RateLimit_locked ub H now key limit window_ms (if cost = 0 then 1 else cost)) st)"

section \<open>IncrBy refines exact integer addition\<close>

text \<open>The counter on the timed map: the value is an integer, the sum is exact, and a sum that does
  not fit in 64 bits is refused. The deadline is kept.\<close>

definition as_integer :: "string \<Rightarrow> int option" where
  "as_integer v = (case stoll v of None \<Rightarrow> None
     | Some (n, idx) \<Rightarrow> if idx = length v then Some (sint n) else None)"

definition in_i64 :: "int \<Rightarrow> bool" where
  "in_i64 x \<longleftrightarrow> - (2 ^ 63) \<le> x \<and> x < 2 ^ 63"

definition spec_incr :: "u64 \<Rightarrow> string \<Rightarrow> i64 \<Rightarrow> u64 \<Rightarrow> timed_map \<Rightarrow> IncrResult \<times> timed_map" where
  "spec_incr now key delta ttl m =
     (case unexpired now m key of
        None \<Rightarrow> (IncrResult True delta [] [],
                m(key \<mapsto> (to_string_i64 delta, if ttl > 0 then now + ttl else 0)))
      | Some (v, d) \<Rightarrow>
          (case as_integer v of
             None \<Rightarrow> (incr_not_integer, m)
           | Some n \<Rightarrow>
               if in_i64 (n + sint delta)
               then (IncrResult True (word_of_int (n + sint delta)) [] [],
                     m(key \<mapsto> (to_string_i64 (word_of_int (n + sint delta)), d)))
               else (IncrResult False 0 ''ERR_OVERFLOW'' ''increment or decrement would overflow'', m)))"

lemma as_integer_to_string [simp]: "as_integer (to_string_i64 w) = Some (sint w)"
  by (simp add: as_integer_def)

lemma incr_guard:
  "(sint d > 0 \<and> sint n > (2 ^ 63 - 1) - sint d \<or> sint d < 0 \<and> sint n < - (2 ^ 63) - sint d)
   \<longleftrightarrow> \<not> in_i64 (sint n + sint d)" for n d :: i64
  using sint_range_i64 [of n] by (auto simp: in_i64_def)

lemma word_of_int_sint_add: "word_of_int (sint n + sint d) = n + (d :: i64)"
  by simp

lemma sint_word_of_int: "in_i64 x \<Longrightarrow> sint (word_of_int x :: i64) = x"
  by (simp add: in_i64_def sint_sbintrunc' signed_take_bit_int_eq_self)

lemma sint_add_exact: "in_i64 (n + sint d) \<Longrightarrow> sint (word_of_int n + d) = n + sint (d :: i64)"
  using sint_word_of_int [of "n + sint d"] by simp

lemma IncrBy_refines:
  assumes ref: "kv_refines H now st m"
  shows "fst (MemoryStore_IncrBy H now key delta ttl st) = fst (spec_incr now key delta ttl m) \<and>
    kv_refines H now (snd (MemoryStore_IncrBy H now key delta ttl st)) (snd (spec_incr now key delta ttl m))"
proof (cases "entry.visible now (entry_at H st key)")
  case None
  then have m: "unexpired now m key = None" using kv_refines_found [OF ref, of key] by simp
  let ?new = "\<lparr>e_key = key, e_value = to_string_i64 delta,
    meta = \<lparr>meta_type = DataType_String, created_at_ms = now,
            expire_at_ms = (if ttl > 0 then now + ttl else 0)\<rparr>\<rparr>"
  have "store_effect H key (IncrResult True delta [] []) (map_option cell_of (Some ?new)) st
      (MemoryStore_IncrBy H now key delta ttl st)"
    unfolding MemoryStore_IncrBy_def
    by (rule lazy_effect [OF kv_refines_inv [OF ref] refl]) (auto simp: None intro!: effects)
  then show ?thesis
    by (rule effect_refines [OF ref]) (simp_all add: spec_incr_def m cell_of_def del: visible_cell_of)
next
  case (Some e)
  then have m: "unexpired now m key = Some (e_value e, expire_at_ms (meta e))"
    using kv_refines_found [OF ref, of key] by (simp add: cell_of_def)
  have ty: "meta_type (meta e) = DataType_String"
    using Some entry_at_ok [OF kv_refines_inv [OF ref], of key e] by (simp add: entry.visible_Some_iff)
  have vis: "cell.visible now (Some (e_value e, expire_at_ms (meta e))) = unexpired now m key"
    using unexpired_self [of now m key] m by simp
  let ?r = "fst (spec_incr now key delta ttl m)"
  let ?y = "if incr_ok ?r then e\<lparr>e_value := to_string_i64 (incr_value ?r)\<rparr> else e"
  have "store_effect H key ?r (map_option cell_of (Some ?y)) st (MemoryStore_IncrBy H now key delta ttl st)"
    unfolding MemoryStore_IncrBy_def incr_guard
  proof (rule lazy_effect [OF kv_refines_inv [OF ref] refl], goal_cases)
    case (1 sh)
    then show ?case
      by (auto simp: Some m ty spec_incr_def as_integer_def word_of_int_sint_add
          incr_not_integer_def entry_ok_def split: option.splits intro!: effects)
  qed
  then show ?thesis
    by (rule effect_refines [OF ref])
      (auto simp: spec_incr_def m cell_of_def incr_not_integer_def vis fun_upd_idem simp del: visible_cell_of
        split: option.splits)
qed

lemma estimated_count_no_previous [simp]:
  "previous_count r = 0 \<Longrightarrow> estimated_count ub now w r = current_count r"
  by (simp add: estimated_count_def double_to_u64_def double_of_def fl_round_def)

section \<open>What one call of RateLimit does\<close>

definition effective_cost :: "u64 \<Rightarrow> u64" where
  "effective_cost cost = (if cost = 0 then 1 else cost)"

text \<open>The record a call decides on: the stored one, rolled to the window of \<open>now\<close>, or a new one.\<close>

definition rate_record :: "hash_fn \<Rightarrow> u64 \<Rightarrow> string \<Rightarrow> u64 \<Rightarrow> MemoryStore \<Rightarrow> RateLimitRecord" where
  "rate_record H now key window_ms st = (case rate_at H st key of
     Some r \<Rightarrow> roll_window now window_ms r | None \<Rightarrow> new_rate_record now key window_ms)"

lemma roll_window_key [simp]: "rl_key (roll_window now w r) = rl_key r"
  by (simp add: roll_window_def Let_def)

lemma new_rate_record_key [simp]: "rl_key (new_rate_record now key w) = key"
  by (simp add: new_rate_record_def)

lemma RateLimit_effect:
  fixes H now key window_ms st ub limit cost
  defines "r \<equiv> rate_record H now key window_ms st"
    and "c \<equiv> effective_cost cost"
  defines "est \<equiv> estimated_count ub now window_ms r"
  assumes inv: "store_inv H st" and args: "limit \<noteq> 0" "window_ms \<noteq> 0"
  shows "allowed (fst (MemoryStore_RateLimit ub H now key limit window_ms cost st)) \<longleftrightarrow> est + c \<le> limit"
    and "rl_ok (fst (MemoryStore_RateLimit ub H now key limit window_ms cost st))"
    and "store_inv H (snd (MemoryStore_RateLimit ub H now key limit window_ms cost st))"
    and "rate_at H (snd (MemoryStore_RateLimit ub H now key limit window_ms cost st)) = (rate_at H st)
      (key \<mapsto> (if est + c \<le> limit then r\<lparr>current_count := current_count r + c\<rparr> else r))"
    and "contents H (snd (MemoryStore_RateLimit ub H now key limit window_ms cost st)) = contents H st"
proof -
  let ?body = "RateLimit_locked ub H now key limit window_ms c"
  have op: "MemoryStore_RateLimit ub H now key limit window_ms cost st = on_shard key ?body st"
    using args by (simp add: MemoryStore_RateLimit_def c_def effective_cost_def)
  let ?sh = "shards st ! GetShard key"
  let ?t = "case Find H key (rate_limits ?sh) of
      Some r \<Rightarrow> Write H key (roll_window now window_ms) (rate_limits ?sh)
    | None \<Rightarrow> fst (Insert H key (new_rate_record now key window_ms) (rate_limits ?sh))"
  note shi = store_inv_shard [OF inv, of key] and rti = shard_inv_tables(2) [OF store_inv_shard [OF inv, of key]]
  have t: "table_inv H (rate_ok (GetShard key)) ?t"
    using rti by (auto simp: rate_ok_def split: option.splits intro!: table_inv_intros)
  have find_t: "Find H k ?t = (if k = key then Some r else Find H k (rate_limits ?sh))" for k
    by (simp add: r_def rate_record_def rate_at_def Find_put [OF rti] Find_write [OF rti] split: option.splits)
  have body: "?body ?sh = (if est + c \<le> limit
       then (RateLimitResult True True (limit - (est + c)) 0 [] [],
             ?sh\<lparr>rate_limits := Write H key (\<lambda>r. r\<lparr>current_count := current_count r + c\<rparr>) ?t\<rparr>)
       else (RateLimitResult True False (if limit \<ge> est then limit - est else 0)
              (if window_ms - now mod window_ms = 0 then 1 else window_ms - now mod window_ms) [] [],
             ?sh\<lparr>rate_limits := ?t\<rparr>))"
    by (simp add: RateLimit_locked_def est_def r_def rate_record_def rate_at_def Let_def split: option.splits)
  show "allowed (fst (MemoryStore_RateLimit ub H now key limit window_ms cost st)) \<longleftrightarrow> est + c \<le> limit"
    and "rl_ok (fst (MemoryStore_RateLimit ub H now key limit window_ms cost st))"
    unfolding op on_shard_fst body by simp_all
  have sh': "shard_inv H (GetShard key) (snd (?body ?sh))"
    unfolding body using t shi by (auto simp: shard_inv_def rate_ok_def intro!: table_inv_write)
  show "store_inv H (snd (MemoryStore_RateLimit ub H now key limit window_ms cost st))"
    unfolding op on_shard_snd by (rule store_inv_update [OF inv sh'])
  have "Find H k (rate_limits (snd (?body ?sh))) = (if k = key
      then Some (if est + c \<le> limit then r\<lparr>current_count := current_count r + c\<rparr> else r)
      else Find H k (rate_limits ?sh))" for k
    unfolding body using find_t by (simp add: Find_write [OF t])
  then show "rate_at H (snd (MemoryStore_RateLimit ub H now key limit window_ms cost st)) = (rate_at H st)
      (key \<mapsto> (if est + c \<le> limit then r\<lparr>current_count := current_count r + c\<rparr> else r))"
    unfolding op by (auto simp: rate_at_def fun_eq_iff shards_on_shard [OF inv])
  have "entries (snd (?body ?sh)) = entries ?sh" unfolding body by simp
  then show "contents H (snd (MemoryStore_RateLimit ub H now key limit window_ms cost st)) = contents H st"
    unfolding op by (auto simp: contents_def entry_at_def fun_eq_iff shards_on_shard [OF inv])
qed

section \<open>The limit holds in every window\<close>

text \<open>The rounded share of the previous window never exceeds its count.\<close>

lemma weight_prev_bounds: "0 \<le> weight_prev e w" "weight_prev e w \<le> 1"
  using fl_round_le_nat [of "1 - fl_round 53 (double_of (unat e) / double_of (unat w))" 1 53]
  by (simp_all add: weight_prev_def)

lemma unat_of_int_le:
  assumes "0 \<le> k" "k \<le> int n"
  shows "unat (word_of_int k :: u64) \<le> n"
proof -
  have "unat (word_of_int k :: u64) = take_bit 64 (nat k)"
    using assms(1) by (simp add: unsigned_of_int nat_take_bit_eq)
  then show ?thesis using take_bit_nat_less_eq_self [of 64 "nat k"] assms(2) by linarith
qed

lemma previous_share_le:
  fixes prev :: u64
  assumes "unat prev < 2 ^ 53"
  shows "unat (double_to_u64 ub (fl_round 53 (double_of (unat prev) * weight_prev e w))) \<le> unat prev"
proof -
  let ?x = "fl_round 53 (double_of (unat prev) * weight_prev e w)"
  have "double_of (unat prev) * weight_prev e w \<le> of_nat (unat prev) * 1"
    unfolding double_of_exact [OF assms] by (intro mult_left_mono weight_prev_bounds of_nat_0_le_iff)
  then have le: "?x \<le> of_nat (unat prev)" using assms by (intro fl_round_le_nat) simp_all
  also have "\<dots> < of_nat (2 ^ 64)" unfolding of_nat_less_iff by (rule unat_u64_less)
  finally have small: "?x < 2 ^ 64" by simp
  have fl: "0 \<le> \<lfloor>?x\<rfloor>" "\<lfloor>?x\<rfloor> \<le> int (unat prev)"
    using le by (simp_all add: floor_le_iff le_less_trans)
  then have "unat (word_of_int \<lfloor>?x\<rfloor> :: u64) \<le> unat prev"
    by (rule unat_of_int_le)
  then show ?thesis using small by (simp add: double_to_u64_def)
qed

text \<open>While nothing wraps, an admitted cost fits under the limit together with the count.\<close>

lemma admitted_fits:
  assumes "unat limit < 2 ^ 53" "previous_count r \<le> limit" "current_count r \<le> limit" "unat c < 2 ^ 63"
    and "estimated_count ub now w r + c \<le> limit"
  shows "unat (current_count r + c) = unat (current_count r) + unat c"
    and "current_count r + c \<le> limit"
proof -
  define e where "e = double_to_u64 ub
    (fl_round 53 (double_of (unat (previous_count r)) * weight_prev (now mod w) w))"
  have e: "unat e \<le> unat (previous_count r)"
    unfolding e_def using assms(1,2) by (intro previous_share_le) (simp add: word_le_nat_alt)
  have le: "unat e < 2 ^ 53" "unat (current_count r) < 2 ^ 53"
    using e assms(1,2,3) by (simp_all add: word_le_nat_alt)
  have est: "estimated_count ub now w r = e + current_count r"
    by (simp add: estimated_count_def e_def)
  have "unat (e + current_count r + c) = unat e + unat (current_count r) + unat c"
    using le assms(4) by (simp add: unat_word_ariths)
  moreover show "unat (current_count r + c) = unat (current_count r) + unat c"
    using le assms(4) by (simp add: unat_word_ariths)
  ultimately show "current_count r + c \<le> limit"
    using assms(5) unfolding est word_le_nat_alt by simp
qed

text \<open>A record of a client that always asks with the same limit and window, last at time \<open>t\<close>.\<close>

definition rate_wf :: "u64 \<Rightarrow> u64 \<Rightarrow> u64 \<Rightarrow> RateLimitRecord \<Rightarrow> bool" where
  "rate_wf limit w t r \<longleftrightarrow>
     rl_window_ms r = w \<and> current_window_idx r \<le> t div w \<and>
     rl_expire_at_ms r = (current_window_idx r + 2) * w \<and>
     current_count r \<le> limit \<and> previous_count r \<le> limit"

lemma window_end:
  fixes now w :: u64
  assumes "unat now + 2 * unat w < 2 ^ 64" "w \<noteq> 0"
  shows "unat ((now div w + 2) * w) = (unat now div unat w + 2) * unat w" "now < (now div w + 2) * w"
proof -
  have w: "0 < unat w" using assms(2) by (simp add: unat_gt_0)
  have split: "unat now = unat now div unat w * unat w + unat now mod unat w" by simp
  have le: "(unat now div unat w + 2) * unat w \<le> unat now + 2 * unat w"
    using split by (simp add: add_mult_distrib)
  have "unat now div unat w + 2 \<le> (unat now div unat w + 2) * unat w"
    using mult_le_mono2 [of 1 "unat w" "unat now div unat w + 2"] w by (simp only: mult_1_right)
  then have "unat now div unat w + 2 < 2 ^ 64" using le assms(1) by linarith
  then have "unat (now div w + 2) = unat now div unat w + 2"
    by (simp add: unat_word_ariths(1) unat_div)
  then show eq: "unat ((now div w + 2) * w) = (unat now div unat w + 2) * unat w"
    using le_less_trans [OF le assms(1)] by (simp add: unat_word_ariths(2))
  have "unat now < (unat now div unat w + 2) * unat w"
    using dividend_less_div_times [OF w, of "unat now"] by simp
  then show "now < (now div w + 2) * w" unfolding word_less_nat_alt eq .
qed

lemma roll_window_wf:
  assumes "rate_wf limit w t r" "t \<le> now" "unat now + 2 * unat w < 2 ^ 64" "w \<noteq> 0"
  shows "rate_wf limit w now (roll_window now w r)"
    and "current_window_idx (roll_window now w r) = now div w"
    and "current_window_idx r = now div w \<Longrightarrow> roll_window now w r = r"
proof -
  let ?i = "current_window_idx r"
  have "t div w \<le> now div w" using assms(2) by (simp add: word_le_nat_alt unat_div div_le_mono)
  then have idx: "?i \<le> now div w" using assms(1) by (auto simp: rate_wf_def)
  have same: "roll_window now w r = r" if "?i = now div w"
    using that assms(1) window_end(2) [OF assms(3,4)]
    by (auto simp: roll_window_def Let_def rate_wf_def RateLimitRecord_IsExpired_def)
  then show "?i = now div w \<Longrightarrow> roll_window now w r = r" .
  have diff: "now div w - ?i = 1 \<or> now div w - ?i > 1" if "?i \<noteq> now div w"
    using that by (metis eq_iff_diff_eq_0 word_neq_0_conv word_less_1 linorder_less_linear)
  show "current_window_idx (roll_window now w r) = now div w"
    using same diff assms(1) by (auto simp: roll_window_def Let_def rate_wf_def)
  show "rate_wf limit w now (roll_window now w r)"
  proof (cases "?i = now div w")
    case True
    then show ?thesis using same assms(1) by (simp add: rate_wf_def)
  next
    case False
    then show ?thesis using diff assms(1) by (auto simp: roll_window_def Let_def rate_wf_def)
  qed
qed

text \<open>
  A client's run: requests for one key with one limit and one window, each with its time and cost;
  the log has the time, the cost counted and whether the request was admitted.
\<close>

fun rate_run ::
  "(rat \<Rightarrow> u64) \<Rightarrow> hash_fn \<Rightarrow> string \<Rightarrow> u64 \<Rightarrow> u64 \<Rightarrow> (u64 \<times> u64) list \<Rightarrow> MemoryStore \<Rightarrow> (u64 \<times> u64 \<times> bool) list" where
  "rate_run ub H key limit w [] st = []"
| "rate_run ub H key limit w ((now, cost) # reqs) st =
     (case MemoryStore_RateLimit ub H now key limit w cost st of (res, st') \<Rightarrow>
        (now, effective_cost cost, allowed res) # rate_run ub H key limit w reqs st')"

definition admitted_in :: "u64 \<Rightarrow> u64 \<Rightarrow> (u64 \<times> u64 \<times> bool) list \<Rightarrow> nat" where
  "admitted_in w idx lg =
     sum_list (map (\<lambda>(now, cost, ok). if ok \<and> now div w = idx then unat cost else 0) lg)"

definition request_ok :: "u64 \<Rightarrow> u64 \<times> u64 \<Rightarrow> bool" where
  "request_ok w req \<longleftrightarrow> unat (fst req) + 2 * unat w < 2 ^ 64 \<and> unat (snd req) < 2 ^ 63"

lemma admitted_in_Cons [simp]:
  "admitted_in w idx ((now, cost, ok) # lg) =
     (if ok \<and> now div w = idx then unat cost else 0) + admitted_in w idx lg"
  by (simp add: admitted_in_def)

lemma admitted_in_later:
  assumes "\<And>req. req \<in> set reqs \<Longrightarrow> idx < fst req div w"
  shows "admitted_in w idx (rate_run ub H key limit w reqs st) = 0"
  using assms
proof (induction reqs arbitrary: st)
  case (Cons req reqs)
  obtain now cost where "req = (now, cost)" by fastforce
  then show ?case using Cons.IH Cons.prems [of "(now, cost)"] Cons.prems
    by (auto simp: case_prod_beta)
qed (simp add: admitted_in_def)

text \<open>What the record already counts in a window.\<close>

definition counted_in :: "u64 \<Rightarrow> RateLimitRecord option \<Rightarrow> nat" where
  "counted_in idx x = (case x of None \<Rightarrow> 0
     | Some r \<Rightarrow> if current_window_idx r = idx then unat (current_count r) else 0)"

lemma new_rate_record_wf [simp]:
  "rate_wf limit w now (new_rate_record now key w)"
  "current_window_idx (new_rate_record now key w) = now div w"
  by (simp_all add: rate_wf_def new_rate_record_def)

lemma rate_record_wf:
  assumes "\<forall>r. rate_at H st key = Some r \<longrightarrow> rate_wf limit w t r" "t \<le> now"
    and "unat now + 2 * unat w < 2 ^ 64" "w \<noteq> 0"
  shows "rate_wf limit w now (rate_record H now key w st)"
    and "current_window_idx (rate_record H now key w st) = now div w"
    and "counted_in (now div w) (rate_at H st key) \<le> unat (current_count (rate_record H now key w st))"
    and "counted_in idx (rate_at H st key) \<noteq> 0 \<Longrightarrow> idx \<le> now div w"
proof -
  note roll = roll_window_wf [OF _ assms(2-4)]
  show "rate_wf limit w now (rate_record H now key w st)"
    "current_window_idx (rate_record H now key w st) = now div w"
    "counted_in (now div w) (rate_at H st key) \<le> unat (current_count (rate_record H now key w st))"
    using assms(1) roll by (auto simp: rate_record_def counted_in_def split: option.splits)
  have "t div w \<le> now div w" using assms(2) by (simp add: word_le_nat_alt unat_div div_le_mono)
  then show "idx \<le> now div w" if "counted_in idx (rate_at H st key) \<noteq> 0"
    using that assms(1) by (auto simp: counted_in_def rate_wf_def split: option.splits if_splits)
qed

lemma rate_run_bound:
  assumes "store_inv H st" "\<forall>r. rate_at H st key = Some r \<longrightarrow> rate_wf limit w t r"
    and "limit \<noteq> 0" "w \<noteq> 0" "unat limit < 2 ^ 53"
    and "sorted (t # map fst reqs)" "\<forall>req \<in> set reqs. request_ok w req"
  shows "counted_in idx (rate_at H st key) + admitted_in w idx (rate_run ub H key limit w reqs st) \<le> unat limit"
  using assms(1,2,6,7)
proof (induction reqs arbitrary: st t)
  case Nil
  then show ?case
    by (auto simp: admitted_in_def counted_in_def rate_wf_def word_le_nat_alt split: option.splits)
next
  case (Cons req reqs)
  obtain now cost where req: "req = (now, cost)" by fastforce
  define r where "r = rate_record H now key w st"
  define c where "c = effective_cost cost"
  define ok where "ok \<longleftrightarrow> estimated_count ub now w r + c \<le> limit"
  define res where "res = MemoryStore_RateLimit ub H now key limit w cost st"
  define r' where "r' = (if ok then r\<lparr>current_count := current_count r + c\<rparr> else r)"
  have t: "t \<le> now" and now: "unat now + 2 * unat w < 2 ^ 64" and c: "unat c < 2 ^ 63"
    using Cons.prems(3,4) by (simp_all add: req request_ok_def c_def effective_cost_def)
  note rec = rate_record_wf [OF Cons.prems(2) t now assms(4), folded r_def]
  note eff = RateLimit_effect [OF Cons.prems(1) assms(3,4), of ub now key cost, folded r_def c_def res_def, folded ok_def]
  have fits: "unat (current_count r + c) = unat (current_count r) + unat c" "current_count r + c \<le> limit" if ok
    using admitted_fits [of limit r c ub now w] rec(1) assms(5) c that by (simp_all add: rate_wf_def ok_def)
  have at': "rate_at H (snd res) key = Some r'" using eff(4) by (simp add: r'_def)
  have wf': "rate_wf limit w now r'" using rec(1) fits by (simp add: r'_def rate_wf_def)
  have idx': "current_window_idx r' = now div w" using rec(2) by (simp add: r'_def)
  have IH: "counted_in idx (Some r') + admitted_in w idx (rate_run ub H key limit w reqs (snd res)) \<le> unat limit"
    using Cons.IH [OF eff(3), of now] at' wf' Cons.prems(3,4) by (simp add: req)
  have run: "admitted_in w idx (rate_run ub H key limit w (req # reqs) st) =
      (if ok \<and> now div w = idx then unat c else 0) + admitted_in w idx (rate_run ub H key limit w reqs (snd res))"
    using eff(1) by (simp add: req case_prod_beta flip: res_def c_def)
  show ?case
  proof (cases "idx = now div w")
    case True
    have "counted_in idx (Some r') = unat (current_count r) + (if ok then unat c else 0)"
      using True idx' fits(1) by (simp add: counted_in_def r'_def)
    then show ?thesis using IH rec(3) True unfolding run by simp
  next
    case False
    have "counted_in idx (rate_at H st key) = 0 \<or>
        admitted_in w idx (rate_run ub H key limit w reqs (snd res)) = 0 \<and> counted_in idx (rate_at H st key) \<le> unat limit"
    proof (cases "idx < now div w")
      case True
      have "idx < fst q div w" if "q \<in> set reqs" for q
      proof -
        have "now \<le> fst q" using Cons.prems(3) that by (auto simp: req)
        then have "now div w \<le> fst q div w" by (simp add: word_le_nat_alt unat_div div_le_mono)
        then show ?thesis using True by simp
      qed
      then have "admitted_in w idx (rate_run ub H key limit w reqs (snd res)) = 0"
        by (rule admitted_in_later)
      moreover have "counted_in idx (rate_at H st key) \<le> unat limit"
        using Cons.prems(2) by (auto simp: counted_in_def rate_wf_def word_le_nat_alt split: option.splits)
      ultimately show ?thesis by simp
    next
      case False
      then show ?thesis using rec(4) \<open>idx \<noteq> now div w\<close> by force
    qed
    then show ?thesis using IH False idx' unfolding run by (auto simp: counted_in_def [of _ "Some _"])
  qed
qed

section \<open>Properties\<close>

text \<open>INCRBY is exact integer addition. On a live key whose value is a 64-bit decimal the new
  value is the mathematical sum, the deadline is kept, and a sum outside the 64-bit range is refused
  with ERR_OVERFLOW and no change; an absent or expired key starts from zero with the initial
  time to live; any other value is refused with ERR_NOT_AN_INTEGER; WRONGTYPE never occurs.\<close>

theorem incr_by_exact:
  assumes "kv_refines H now st m"
  shows "fst (MemoryStore_IncrBy H now key delta ttl st) = fst (spec_incr now key delta ttl m) \<and>
    kv_refines H now (snd (MemoryStore_IncrBy H now key delta ttl st)) (snd (spec_incr now key delta ttl m)) \<and>
    (\<forall>v d n. unexpired now m key = Some (v, d) \<and> as_integer v = Some n \<longrightarrow>
      (if in_i64 (n + sint delta)
       then sint (incr_value (fst (MemoryStore_IncrBy H now key delta ttl st))) = n + sint delta
       else incr_error_code (fst (MemoryStore_IncrBy H now key delta ttl st)) = ''ERR_OVERFLOW''))"
  using IncrBy_refines [OF assms, of key delta ttl] by (auto simp: spec_incr_def sint_add_exact)

theorem incr_by_exact_witness:
  "incr_value (fst (MemoryStore_IncrBy length 5 ''c'' (- 3) 0
     (snd (MemoryStore_IncrBy length 4 ''c'' 10 0 MemoryStore_default)))) = 7"
proof -
  note one = incr_by_exact [OF kv_refines_default, of length 4 "''c''" 10 0]
  let ?m = "snd (spec_incr 4 ''c'' 10 0 Map.empty)"
  have "kv_refines length 5 (snd (MemoryStore_IncrBy length 4 ''c'' 10 0 MemoryStore_default)) ?m"
    using one by (auto intro: kv_refines_later [of _ 4])
  note two = incr_by_exact [OF this, of "''c''" "- 3" 0]
  have "unexpired 5 ?m ''c'' = Some (to_string_i64 10, 0)"
    by (simp add: spec_incr_def cell_expired_def)
  then show ?thesis using two by (simp add: spec_incr_def in_i64_def)
qed

text \<open>C13: the rate limit holds in every window. A client that asks for one key in time order, with
  one limit and one window, is admitted in each aligned window a total cost of at most the limit,
  however the estimate of the previous window is rounded. The bounds exclude wrap-around: a limit
  below \<open>2 ^ 53\<close>, costs below \<open>2 ^ 63\<close> and windows whose end is representable.\<close>

theorem rate_limit_holds_in_every_window:
  assumes "store_inv H st" "rate_at H st key = None" "limit \<noteq> 0" "w \<noteq> 0" "unat limit < 2 ^ 53"
    and "sorted (map fst reqs)" "\<forall>req \<in> set reqs. request_ok w req"
  shows "admitted_in w idx (rate_run ub H key limit w reqs st) \<le> unat limit"
  using rate_run_bound [OF assms(1) _ assms(3-5), of key 0 reqs idx ub] assms(2,6,7)
  by (simp add: counted_in_def)

theorem rate_limit_holds_in_every_window_witness:
  "admitted_in 1000 2 (rate_run (\<lambda>_. 0) length ''ip'' 5 1000 [(1990, 4), (2000, 3), (2100, 2), (2500, 4)]
     MemoryStore_default) \<le> 5"
  using rate_limit_holds_in_every_window [OF store_inv_default at_default(2), of 5 1000
      "[(1990, 4), (2000, 3), (2100, 2), (2500, 4)]" 2 "\<lambda>_. 0" length "''ip''"]
  by (simp add: request_ok_def)

text \<open>the reply of RATELIMIT. An admitted request is charged, and the reply has what the limit
  leaves; a refused request is not charged, and the retry delay leads exactly to the start of the
  next window.\<close>

theorem rate_limit_reply:
  assumes "store_inv H st" "limit \<noteq> 0" "w \<noteq> 0" "unat now + 2 * unat w < 2 ^ 64"
  shows "let res = fst (MemoryStore_RateLimit ub H now key limit w cost st);
             after = rate_at H (snd (MemoryStore_RateLimit ub H now key limit w cost st)) key;
             r = rate_record H now key w st; est = estimated_count ub now w r;
             c = effective_cost cost
    in (if allowed res
        then est + c \<le> limit \<and> rl_remaining res = limit - (est + c) \<and>
          after = Some (r\<lparr>current_count := current_count r + c\<rparr>)
        else \<not> est + c \<le> limit \<and> after = Some r \<and> 0 < retry_after_ms res \<and> retry_after_ms res \<le> w \<and>
          unat now + unat (retry_after_ms res) = (unat now div unat w + 1) * unat w)"
proof -
  note eff = RateLimit_effect [OF assms(1-3), of ub now key cost]
  have w: "0 < unat w" using assms(3) by (simp add: unat_gt_0)
  have lt: "now mod w < w" using w by (simp add: word_less_nat_alt unat_mod)
  have sub: "unat (w - now mod w) = unat w - unat now mod unat w"
    using lt by (simp add: unat_sub less_imp_le unat_mod)
  have pos: "0 < unat w - unat now mod unat w" using w by simp
  have sum: "unat now + (unat w - unat now mod unat w) = (unat now div unat w + 1) * unat w"
    using div_mult_mod_eq [of "unat now" "unat w"] mod_less_divisor [OF w, of "unat now"]
    by (simp only: add_mult_distrib mult_1)
  have ne: "w - now mod w \<noteq> 0" using lt by auto
  have "rl_remaining (fst (MemoryStore_RateLimit ub H now key limit w cost st)) =
      limit - (estimated_count ub now w (rate_record H now key w st) + effective_cost cost)"
    if "allowed (fst (MemoryStore_RateLimit ub H now key limit w cost st))"
    using that assms(2,3) by (auto simp: MemoryStore_RateLimit_def on_shard_fst RateLimit_locked_def Let_def
        rate_record_def rate_at_def effective_cost_def split: option.splits if_splits)
  moreover have "retry_after_ms (fst (MemoryStore_RateLimit ub H now key limit w cost st)) = w - now mod w"
    if "\<not> allowed (fst (MemoryStore_RateLimit ub H now key limit w cost st))"
    using that assms(2,3) ne by (auto simp: MemoryStore_RateLimit_def on_shard_fst RateLimit_locked_def Let_def
        split: option.splits if_splits)
  moreover have "0 < w - now mod w" "w - now mod w \<le> w"
    using pos sub by (simp_all add: word_less_nat_alt word_le_nat_alt)
  ultimately show ?thesis
    using eff(1,4) sum unfolding Let_def by (simp add: sub)
qed

theorem rate_limit_reply_witness:
  "retry_after_ms (fst (MemoryStore_RateLimit (\<lambda>_. 0) length 1300 ''ip'' 5 1000 9 MemoryStore_default)) = 700"
proof -
  let ?res = "fst (MemoryStore_RateLimit (\<lambda>_. 0) length 1300 ''ip'' 5 1000 9 MemoryStore_default)"
  have "\<not> allowed ?res"
    by (subst RateLimit_effect(1) [OF store_inv_default])
      (simp_all add: rate_record_def new_rate_record_def effective_cost_def)
  then have "unat (retry_after_ms ?res) = unat (700 :: u64)"
    using rate_limit_reply [OF store_inv_default, of 5 1000 1300 "\<lambda>_. 0" length "''ip''" 9]
    by (simp add: Let_def)
  then show ?thesis by (simp only: word_unat_eq_iff)
qed

text \<open>C38: the cost is added to the estimate modulo \<open>2 ^ 64\<close>: after an ordinary request, one of cost
  \<open>2 ^ 64 - 1\<close> is admitted under a limit of ten and resets the count of the window, so that the
  full limit is admitted once more.\<close>

theorem rate_limit_cost_wraps:
  "rate_run ub H key 10 1000 [(0, 1), (0, - 1), (0, 10)] MemoryStore_default =
    [(0, 1, True), (0, - 1, True), (0, 10, True)]"
proof -
  let ?rec = "\<lambda>n. \<lparr>rl_key = key, current_window_idx = 0, current_count = n, previous_count = 0,
    rl_window_ms = 1000, rl_expire_at_ms = 2000\<rparr>"
  define st1 where "st1 = snd (MemoryStore_RateLimit ub H 0 key 10 1000 1 MemoryStore_default)"
  define st2 where "st2 = snd (MemoryStore_RateLimit ub H 0 key 10 1000 (- 1) st1)"
  note eff1 = RateLimit_effect [OF store_inv_default [of H], of 10 1000 ub 0 key 1, folded st1_def]
  have rec0: "rate_record H 0 key 1000 MemoryStore_default = ?rec 0"
    by (simp add: rate_record_def new_rate_record_def)
  have at1: "rate_at H st1 key = Some (?rec 1)" using eff1(4) by (simp add: rec0 effective_cost_def)
  have roll: "roll_window 0 1000 (?rec n) = ?rec n" for n
    by (simp add: roll_window_def RateLimitRecord_IsExpired_def)
  have rec1: "rate_record H 0 key 1000 st1 = ?rec 1" by (simp add: rate_record_def at1 roll)
  have inv1: "store_inv H st1" using eff1(3) by simp
  note eff2 = RateLimit_effect [OF inv1, of 10 1000 ub 0 key "- 1", folded st2_def]
  have at2: "rate_at H st2 key = Some (?rec 0)" using eff2(4) by (simp add: rec1 effective_cost_def)
  have rec2: "rate_record H 0 key 1000 st2 = ?rec 0" by (simp add: rate_record_def at2 roll)
  have inv2: "store_inv H st2" using eff2(3) by simp
  note eff3 = RateLimit_effect(1) [OF inv2, of 10 1000 ub 0 key 10]
  show ?thesis
    using eff1(1) eff2(1) eff3
    by (simp add: case_prod_beta rec0 rec1 rec2 effective_cost_def flip: st1_def st2_def)
qed

end
