(* ===== verification/GK_Kv_Spec.thy ===== *)
theory GK_Kv_Spec
  imports GK_Counters
begin

text \<open>
  The key-value and counter operations of the store as one service: a call is executed on the store
  and on the timed map, and every sequence of calls in time order gets the same replies from both.
  Concurrent clients are covered, since each operation runs under the lock of its shard and so takes
  effect as one step of such a sequence.
\<close>

datatype kv_op =
  OpSet string string WriteCondition u64
| OpGet string
| OpDel string
| OpExists string
| OpType string
| OpExpire string u64
| OpTtl string
| OpPttl string
| OpPersist string
| OpIncrBy string i64 u64
| OpDbSize
| OpKeys string

datatype kv_reply =
  RBool bool
| RFound bool
| RValue "string option"
| RType DataType
| RInt i64
| RIncr IncrResult
| RSize nat
| RKeys "string set"

fun kv_exec :: "hash_fn \<Rightarrow> u64 \<Rightarrow> kv_op \<Rightarrow> MemoryStore \<Rightarrow> kv_reply \<times> MemoryStore" where
  "kv_exec H now (OpSet key v c ttl) st = apfst RBool (MemoryStore_Set H now key v c ttl st)"
| "kv_exec H now (OpGet key) st = apfst RValue (MemoryStore_Get H now key st)"
| "kv_exec H now (OpDel key) st = apfst RFound (MemoryStore_Del H key st)"
| "kv_exec H now (OpExists key) st = apfst RBool (MemoryStore_Exists H now key st)"
| "kv_exec H now (OpType key) st = apfst RType (MemoryStore_Type H now key st)"
| "kv_exec H now (OpExpire key ttl) st = apfst RBool (MemoryStore_Expire H now key ttl st)"
| "kv_exec H now (OpTtl key) st = apfst RInt (MemoryStore_Ttl H now key st)"
| "kv_exec H now (OpPttl key) st = apfst RInt (MemoryStore_Pttl H now key st)"
| "kv_exec H now (OpPersist key) st = apfst RBool (MemoryStore_Persist H now key st)"
| "kv_exec H now (OpIncrBy key d ttl) st = apfst RIncr (MemoryStore_IncrBy H now key d ttl st)"
| "kv_exec H now OpDbSize st = (RSize (MemoryStore_DbSize now st), st)"
| "kv_exec H now (OpKeys pattern) st = (RKeys (set (MemoryStore_Keys now pattern st)), st)"

fun spec_exec :: "u64 \<Rightarrow> kv_op \<Rightarrow> timed_map \<Rightarrow> kv_reply \<times> timed_map" where
  "spec_exec now (OpSet key v c ttl) m = apfst RBool (spec_set now key v c ttl m)"
| "spec_exec now (OpGet key) m = (RValue (map_option fst (unexpired now m key)), m)"
| "spec_exec now (OpDel key) m = (RFound (unexpired now m key \<noteq> None), m(key := None))"
| "spec_exec now (OpExists key) m = (RBool (unexpired now m key \<noteq> None), m)"
| "spec_exec now (OpType key) m =
     (RType (if unexpired now m key = None then DataType_None else DataType_String), m)"
| "spec_exec now (OpExpire key ttl) m = apfst RBool (spec_expire now key ttl m)"
| "spec_exec now (OpTtl key) m = (RInt (spec_ttl now key m), m)"
| "spec_exec now (OpPttl key) m = (RInt (spec_pttl now key m), m)"
| "spec_exec now (OpPersist key) m = apfst RBool (spec_persist now key m)"
| "spec_exec now (OpIncrBy key d ttl) m = apfst RIncr (spec_incr now key d ttl m)"
| "spec_exec now OpDbSize m = (RSize (card (dom (unexpired now m))), m)"
| "spec_exec now (OpKeys pattern) m = (RKeys {k \<in> dom (unexpired now m). MatchPattern pattern k}, m)"

text \<open>Replies agree, except that \<open>Del\<close> may also report an entry that had already expired.\<close>

fun reply_ok :: "kv_reply \<Rightarrow> kv_reply \<Rightarrow> bool" where
  "reply_ok (RFound r) (RFound s) \<longleftrightarrow> (s \<longrightarrow> r)"
| "reply_ok r s \<longleftrightarrow> r = s"

lemma reply_ok_refl [simp]: "reply_ok r r"
  by (cases r) auto

lemma kv_exec_refines:
  assumes "kv_refines H now st m"
  shows "reply_ok (fst (kv_exec H now op st)) (fst (spec_exec now op m)) \<and>
    kv_refines H now (snd (kv_exec H now op st)) (snd (spec_exec now op m))"
proof (cases op)
  case (OpDel key)
  have "entry_at H st key \<noteq> None" if "unexpired now m key \<noteq> None"
    using that kv_refines_found [OF assms, of key] by (cases "entry_at H st key") auto
  then show ?thesis using Del_refines [OF assms, of key] OpDel by auto
qed (use assms Set_refines Get_refines Exists_refines Type_refines Expire_refines Ttl_refines Pttl_refines
    Persist_refines IncrBy_refines DbSize_refines Keys_refines in simp_all)

fun kv_run :: "hash_fn \<Rightarrow> (u64 \<times> kv_op) list \<Rightarrow> MemoryStore \<Rightarrow> kv_reply list" where
  "kv_run H [] st = []"
| "kv_run H ((now, op) # ops) st =
     fst (kv_exec H now op st) # kv_run H ops (snd (kv_exec H now op st))"

fun spec_run :: "(u64 \<times> kv_op) list \<Rightarrow> timed_map \<Rightarrow> kv_reply list" where
  "spec_run [] m = []"
| "spec_run ((now, op) # ops) m = fst (spec_exec now op m) # spec_run ops (snd (spec_exec now op m))"

lemma kv_run_refines:
  assumes "kv_refines H t st m" "sorted (t # map fst ops)"
  shows "list_all2 reply_ok (kv_run H ops st) (spec_run ops m)"
  using assms
proof (induction ops arbitrary: t st m)
  case (Cons x ops)
  obtain now op where x: "x = (now, op)" by fastforce
  have "kv_refines H now st m" using Cons.prems by (auto simp: x intro: kv_refines_later)
  note step = kv_exec_refines [OF this, of op]
  have "sorted (now # map fst ops)" using Cons.prems(2) by (auto simp: x)
  then show ?case using step Cons.IH [of now] by (simp add: x)
qed simp

lemma sint_of_small:
  fixes w :: u64
  assumes "unat w = n" "n < 2 ^ 63"
  shows "sint w = int n"
  using assms by (simp add: sint_uint uint_nat signed_take_bit_int_eq_self)



text \<open>TTL and PTTL report the time to the deadline. For a live key with a deadline less than
  \<open>2 ^ 62\<close> milliseconds away, PTTL is the exact number of milliseconds left, TTL that number in
  seconds rounded up, so that TTL is never zero while the key is live.\<close>

theorem ttl_reports_remaining_time:
  assumes "kv_refines H now st m" "unexpired now m key = Some (v, d)" "d \<noteq> 0" "unat d - unat now < 2 ^ 62"
  shows "let pttl = sint (fst (MemoryStore_Pttl H now key st)); ttl = sint (fst (MemoryStore_Ttl H now key st))
    in pttl = int (unat d) - int (unat now) \<and> 0 < ttl \<and> 1000 * (ttl - 1) < pttl \<and> pttl \<le> 1000 * ttl"
proof -
  have "\<not> cell_expired (v, d) now"
    using assms(2) by (simp add: unexpired_def cell.visible_Some_iff)
  then have "now < d" using assms(3) by (simp add: cell_expired_def word_gt_0 not_le)
  then have lt: "unat now < unat d" by (simp add: word_less_nat_alt)
  define n where "n = unat d - unat now"
  have n: "unat (d - now) = n" using lt by (simp add: n_def unat_sub_if_size)
  have small: "n < 2 ^ 62" using assms(4) by (simp add: n_def)
  have "sint (d - now) = int n" using small n by (intro sint_of_small) simp_all
  moreover have "unat ((d - now + 999) div 1000) = (n + 999) div 1000"
    using small n by (simp add: unat_div unat_word_ariths(1))
  then have "sint ((d - now + 999) div 1000) = int ((n + 999) div 1000)"
    using small by (intro sint_of_small) simp_all
  moreover have "fst (MemoryStore_Pttl H now key st) = d - now" "fst (MemoryStore_Ttl H now key st) = (d - now + 999) div 1000"
    using Pttl_refines [OF assms(1), of key] Ttl_refines [OF assms(1), of key] assms(2,3)
    by (simp_all add: spec_pttl_def spec_ttl_def)
  moreover have "0 < n" using lt by (simp add: n_def)
  moreover have "int (unat d) - int (unat now) = int n" using lt by (simp add: n_def)
  ultimately show ?thesis by (simp add: Let_def del: of_nat_div) linarith
qed

theorem ttl_reports_remaining_time_witness:
  "sint (fst (MemoryStore_Pttl length 105 ''a'' (snd (MemoryStore_Set length 5 ''a'' ''x'' Always 1500 MemoryStore_default)))) = 1400"
proof -
  let ?st = "snd (MemoryStore_Set length 5 ''a'' ''x'' Always 1500 MemoryStore_default)"
  let ?m = "snd (spec_set 5 ''a'' ''x'' Always 1500 Map.empty)"
  have "kv_refines length 105 ?st ?m"
    using Set_refines [OF kv_refines_default, of length 5 "''a''" "''x''" Always 1500]
    by (auto intro: kv_refines_later [of _ 5])
  moreover have "unexpired 105 ?m ''a'' = Some (''x'', 1505)"
    by (simp add: spec_set_def cell_expired_def)
  ultimately show ?thesis
    using ttl_reports_remaining_time [of length 105 ?st ?m "''a''" "''x''" 1505] by (simp add: Let_def)
qed

end
