(* ===== verification/GK_Quota.thy ===== *)
theory GK_Quota
  imports GK_Memory_Store
begin

text \<open>
  Two-phase quotas of \<open>src/storage/memory_store.cpp\<close>: \<open>ReserveQuota\<close>, \<open>CommitQuota\<close> and
  \<open>RollbackQuota\<close>. A balance is the decimal string stored under the quota's key; a reservation
  is a record in the table of the same shard. The sequence number of reservation identifiers is
  part of the store's state and is returned by the body that draws from it.

  The ledger of a key is its balance plus what is reserved for it. The lemmas show what each
  operation does to it, and the trace theorem that no sequence of operations creates quota.
\<close>

section \<open>Operations\<close>

text \<open>\<open>std::stoull\<close> with every exception replaced by zero.\<close>

definition balance_of :: "string \<Rightarrow> u64" where
  "balance_of v = (case stoull v of Some (b, idx) \<Rightarrow> b | None \<Rightarrow> 0)"

definition quota_entry :: "u64 \<Rightarrow> string \<Rightarrow> u64 \<Rightarrow> Entry" where
  "quota_entry now key balance =
     \<lparr>e_key = key, e_value = to_string_u64 balance,
      meta = \<lparr>meta_type = DataType_String, created_at_ms = now, expire_at_ms = 0\<rparr>\<rparr>"

definition set_balance :: "hash_fn \<Rightarrow> string \<Rightarrow> u64 \<Rightarrow> StorageShard \<Rightarrow> StorageShard" where
  "set_balance H key balance sh =
     sh\<lparr>entries := Write H key (\<lambda>e. e\<lparr>e_value := to_string_u64 balance\<rparr>) (entries sh)\<rparr>"

definition put_balance :: "hash_fn \<Rightarrow> u64 \<Rightarrow> string \<Rightarrow> u64 \<Rightarrow> StorageShard \<Rightarrow> StorageShard" where
  "put_balance H now key balance sh =
     (if Find H key (entries sh) \<noteq> None then set_balance H key balance sh
      else sh\<lparr>entries := fst (Insert H key (quota_entry now key balance) (entries sh))\<rparr>)"

text \<open>The balance of the target entry of a commit or a rollback.\<close>

definition target_balance :: "hash_fn \<Rightarrow> string \<Rightarrow> StorageShard \<Rightarrow> u64" where
  "target_balance H key sh =
     (case Find H key (entries sh) of None \<Rightarrow> 0 | Some target \<Rightarrow> balance_of (e_value target))"

abbreviation erase_reservation :: "hash_fn \<Rightarrow> string \<Rightarrow> StorageShard \<Rightarrow> StorageShard" where
  "erase_reservation H rid sh \<equiv> sh\<lparr>reservations := fst (Erase H rid (reservations sh))\<rparr>"

definition make_res_id :: "u64 \<Rightarrow> u64 \<Rightarrow> string" where
  "make_res_id now seq = ''res_'' @ to_string_u64 now @ ''_'' @ to_string_u64 seq"

definition ReserveQuota_locked ::
  "hash_fn \<Rightarrow> u64 \<Rightarrow> string \<Rightarrow> u64 \<Rightarrow> u64 \<Rightarrow> u64 \<Rightarrow> StorageShard \<Rightarrow> (ReservationResult \<times> u64) \<times> StorageShard" where
  "ReserveQuota_locked H now key amount ttl_ms seq sh0 =
     (case lazy_find H now key sh0 of (existing, sh) \<Rightarrow>
     (case existing of
        None \<Rightarrow> ((ReservationResult True False [] 0 ''INSUFFICIENT_QUOTA'' ''quota key does not exist'', seq), sh)
      | Some e \<Rightarrow>
          (case stoull (e_value e) of
             None \<Rightarrow> ((ReservationResult False False [] 0 ''ERR_NOT_AN_INTEGER'' ''quota balance is not an integer'', seq), sh)
           | Some (balance, idx) \<Rightarrow>
               if idx \<noteq> length (e_value e)
               then ((ReservationResult False False [] 0 ''ERR_NOT_AN_INTEGER'' ''quota balance is not an integer'', seq), sh)
               else if balance < amount
               then ((ReservationResult True False [] balance ''INSUFFICIENT_QUOTA'' ''insufficient quota balance'', seq), sh)
               else (let rid = make_res_id now seq;
                         sh1 = set_balance H key (balance - amount) sh
                     in ((ReservationResult True True rid (balance - amount) [] [], seq + 1),
                         sh1\<lparr>reservations := fst (Insert H rid
                           \<lparr>res_id = rid, res_key = key, res_amount = amount,
                            res_created_at_ms = now, res_expire_at_ms = now + ttl_ms\<rparr>
                           (reservations sh1))\<rparr>)))))"

definition MemoryStore_ReserveQuota ::
  "hash_fn \<Rightarrow> u64 \<Rightarrow> string \<Rightarrow> u64 \<Rightarrow> u64 \<Rightarrow> MemoryStore \<Rightarrow> ReservationResult \<times> MemoryStore" where
  "MemoryStore_ReserveQuota H now key amount ttl_ms st =
     (if amount = 0
      then (ReservationResult False False [] 0 ''INVALID_ARGUMENTS'' ''amount must be greater than zero'', st)
      else if ttl_ms = 0
      then (ReservationResult False False [] 0 ''INVALID_ARGUMENTS'' ''ttl_ms must be greater than zero'', st)
      else (case on_shard key (ReserveQuota_locked H now key amount ttl_ms (next_reservation_seq st)) st of
              ((r, seq), st') \<Rightarrow> (r, st'\<lparr>next_reservation_seq := seq\<rparr>)))"

definition CommitQuota_locked ::
  "hash_fn \<Rightarrow> u64 \<Rightarrow> string \<Rightarrow> string \<Rightarrow> u64 \<Rightarrow> StorageShard \<Rightarrow> CommitResult \<times> StorageShard" where
  "CommitQuota_locked H now key rid actual sh =
     (case Find H rid (reservations sh) of
        None \<Rightarrow> (CommitResult False False 0 0 0 ''RESERVATION_NOT_FOUND'' ''reservation not found or key mismatch'', sh)
      | Some res \<Rightarrow>
          if res_key res \<noteq> key
          then (CommitResult False False 0 0 0 ''RESERVATION_NOT_FOUND'' ''reservation not found or key mismatch'', sh)
          else if Reservation_IsExpired res now
          then (let sh1 = (case Find H (res_key res) (entries sh) of
                             None \<Rightarrow> sh
                           | Some target \<Rightarrow>
                               set_balance H (res_key res) (balance_of (e_value target) + res_amount res) sh)
                in (CommitResult False False 0 0 0 ''RESERVATION_EXPIRED''
                      ''reservation expired and was automatically rolled back'',
                    erase_reservation H rid sh1))
          else (let reserved_amount = res_amount res;
                    key_str = res_key res;
                    sh1 = erase_reservation H rid sh;
                    balance0 = target_balance H key_str sh1;
                    (refunded, balance) =
                      (if actual \<le> reserved_amount
                       then (reserved_amount - actual, balance0 + (reserved_amount - actual))
                       else (let extra = actual - reserved_amount
                             in (0, if balance0 \<ge> extra then balance0 - extra else 0)))
                in (CommitResult True True actual refunded balance [] [],
                    put_balance H now key_str balance sh1)))"

definition MemoryStore_CommitQuota ::
  "hash_fn \<Rightarrow> u64 \<Rightarrow> string \<Rightarrow> string \<Rightarrow> u64 \<Rightarrow> MemoryStore \<Rightarrow> CommitResult \<times> MemoryStore" where
  "MemoryStore_CommitQuota H now key rid actual =
     on_shard key (CommitQuota_locked H now key rid actual)"

definition RollbackQuota_locked ::
  "hash_fn \<Rightarrow> u64 \<Rightarrow> string \<Rightarrow> string \<Rightarrow> StorageShard \<Rightarrow> RollbackResult \<times> StorageShard" where
  "RollbackQuota_locked H now key rid sh =
     (case Find H rid (reservations sh) of
        None \<Rightarrow> (RollbackResult False False 0 0 ''RESERVATION_NOT_FOUND'' ''reservation not found or key mismatch'', sh)
      | Some res \<Rightarrow>
          if res_key res \<noteq> key
          then (RollbackResult False False 0 0 ''RESERVATION_NOT_FOUND'' ''reservation not found or key mismatch'', sh)
          else (let refund_amount = res_amount res;
                    key_str = res_key res;
                    was_expired = Reservation_IsExpired res now;
                    sh1 = erase_reservation H rid sh;
                    balance0 = target_balance H key_str sh1
                in if \<not> was_expired
                   then (RollbackResult True True refund_amount (balance0 + refund_amount) [] [],
                         put_balance H now key_str (balance0 + refund_amount) sh1)
                   else (RollbackResult True True refund_amount balance0 [] [], sh1)))"

definition MemoryStore_RollbackQuota ::
  "hash_fn \<Rightarrow> u64 \<Rightarrow> string \<Rightarrow> string \<Rightarrow> MemoryStore \<Rightarrow> RollbackResult \<times> MemoryStore" where
  "MemoryStore_RollbackQuota H now key rid =
     on_shard key (RollbackQuota_locked H now key rid)"

section \<open>The ledger of a key\<close>

definition reserved_in :: "string \<Rightarrow> StorageShard \<Rightarrow> nat" where
  "reserved_in k sh =
     sum_list (map (\<lambda>(rid, r). if res_key r = k then unat (res_amount r) else 0) (nodes (reservations sh)))"

definition ledger_in :: "hash_fn \<Rightarrow> string \<Rightarrow> StorageShard \<Rightarrow> nat" where
  "ledger_in H k sh = unat (target_balance H k sh) + reserved_in k sh"

lemma balance_of_to_string [simp]: "balance_of (to_string_u64 b) = b"
  by (simp add: balance_of_def)

lemma shard_inv_reservations:
  "shard_inv H i sh \<Longrightarrow> table_inv H (resv_ok i) t \<Longrightarrow> shard_inv H i (sh\<lparr>reservations := t\<rparr>)"
  by (simp add: shard_inv_def)

subsection \<open>The parts of an operation\<close>

lemma set_balance_frame [simp]:
  "reservations (set_balance H key b sh) = reservations sh"
  "rate_limits (set_balance H key b sh) = rate_limits sh"
  "idempotency_records (set_balance H key b sh) = idempotency_records sh"
  by (simp_all add: set_balance_def)

lemma put_balance_frame [simp]:
  "reservations (put_balance H now key b sh) = reservations sh"
  "rate_limits (put_balance H now key b sh) = rate_limits sh"
  "idempotency_records (put_balance H now key b sh) = idempotency_records sh"
  by (simp_all add: put_balance_def)

lemma set_balance_inv: "shard_inv H i sh \<Longrightarrow> shard_inv H i (set_balance H key b sh)"
  unfolding set_balance_def
  by (rule shard_inv_entries) (auto simp: shard_inv_tables entry_ok_def intro!: table_inv_write)

lemma put_balance_inv: "shard_inv H (GetShard key) sh \<Longrightarrow> shard_inv H (GetShard key) (put_balance H now key b sh)"
  by (auto simp: put_balance_def set_balance_inv shard_inv_tables entry_ok_def quota_entry_def
      intro!: shard_inv_entries table_inv_put)

lemma target_balance_set:
  "shard_inv H i sh \<Longrightarrow> Find H key (entries sh) \<noteq> None \<Longrightarrow>
   target_balance H k (set_balance H key b sh) = (if k = key then b else target_balance H k sh)"
  by (auto simp: target_balance_def set_balance_def Find_write [OF shard_inv_tables(1)])

lemma target_balance_put:
  "shard_inv H i sh \<Longrightarrow>
   target_balance H k (put_balance H now key b sh) = (if k = key then b else target_balance H k sh)"
  by (simp add: put_balance_def target_balance_set)
    (auto simp: target_balance_def Find_put [OF shard_inv_tables(1)] quota_entry_def)

lemma target_balance_reservations [simp]: "target_balance H k (sh\<lparr>reservations := t\<rparr>) = target_balance H k sh"
  by (simp add: target_balance_def)

lemma reserved_in_cong: "reservations sh = reservations sh' \<Longrightarrow> reserved_in k sh = reserved_in k sh'"
  by (simp add: reserved_in_def)

lemma reserved_in_balance [simp]:
  "reserved_in k (set_balance H key b sh) = reserved_in k sh"
  "reserved_in k (put_balance H now key b sh) = reserved_in k sh"
  by (rule reserved_in_cong, simp)+

lemma erase_reservation_inv: "shard_inv H i sh \<Longrightarrow> shard_inv H i (erase_reservation H rid sh)"
  by (auto simp: shard_inv_tables intro!: shard_inv_reservations table_inv_erase)

lemma erase_reservation_reserved:
  assumes "shard_inv H i sh" "Find H rid (reservations sh) = Some r"
  shows "reserved_in k sh = reserved_in k (erase_reservation H rid sh) +
    (if res_key r = k then unat (res_amount r) else 0)"
  using ht.sum_erase [OF table_inv_ht [OF shard_inv_tables(3) [OF assms(1)]] assms(2)]
  by (simp add: reserved_in_def)

lemma add_reservation_reserved:
  assumes "shard_inv H i sh" "Find H rid (reservations sh) = None"
  shows "reserved_in k (sh\<lparr>reservations := fst (Insert H rid r (reservations sh))\<rparr>) =
    reserved_in k sh + (if res_key r = k then unat (res_amount r) else 0)"
  using ht.sum_put [OF table_inv_ht [OF shard_inv_tables(3) [OF assms(1)]] assms(2)]
  by (simp add: reserved_in_def)

subsection \<open>What the operations do to it\<close>

lemma lazy_find_ledger:
  assumes "shard_inv H i sh"
  shows "ledger_in H k (snd (lazy_find H now key sh)) \<le> ledger_in H k sh"
    and "fst (lazy_find H now key sh) = Some e \<Longrightarrow> snd (lazy_find H now key sh) = sh \<and> Find H key (entries sh) = Some e"
  using assms reserved_in_cong [of "snd (lazy_find H now key sh)" sh k]
  by (auto simp: ledger_in_def target_balance_def lazy_find_def Find_erase [OF shard_inv_tables(1)]
      split: option.splits if_splits)

text \<open>The record a granted reservation adds, and the shard after it.\<close>

definition granted_record :: "u64 \<Rightarrow> u64 \<Rightarrow> string \<Rightarrow> u64 \<Rightarrow> u64 \<Rightarrow> Reservation" where
  "granted_record now seq key amount ttl =
     \<lparr>res_id = make_res_id now seq, res_key = key, res_amount = amount, res_created_at_ms = now,
      res_expire_at_ms = now + ttl\<rparr>"

definition granted_shard :: "hash_fn \<Rightarrow> u64 \<Rightarrow> u64 \<Rightarrow> string \<Rightarrow> u64 \<Rightarrow> u64 \<Rightarrow> u64 \<Rightarrow> StorageShard \<Rightarrow> StorageShard" where
  "granted_shard H now seq key amount ttl b sh =
     set_balance H key (b - amount) sh\<lparr>reservations :=
       fst (Insert H (make_res_id now seq) (granted_record now seq key amount ttl) (reservations sh))\<rparr>"

lemma ReserveQuota_locked_cases:
  assumes "ReserveQuota_locked H now key amount ttl seq sh = ((r, seq'), sh')"
  obtains (refused) "\<not> reserved r" "sh' = snd (lazy_find H now key sh)" "seq' = seq"
  | (granted) e b where "fst (lazy_find H now key sh) = Some e"
      "stoull (e_value e) = Some (b, length (e_value e))" "amount \<le> b"
      "r = ReservationResult True True (make_res_id now seq) (b - amount) [] []" "seq' = seq + 1"
      "sh' = granted_shard H now seq key amount ttl b (snd (lazy_find H now key sh))"
proof (cases "fst (lazy_find H now key sh)")
  case None
  then show ?thesis using assms refused by (simp add: ReserveQuota_locked_def case_prod_beta) fastforce
next
  case (Some e)
  note found = this
  show ?thesis
  proof (cases "\<exists>b. stoull (e_value e) = Some (b, length (e_value e)) \<and> amount \<le> b")
    case True
    then obtain b where b: "stoull (e_value e) = Some (b, length (e_value e))" "amount \<le> b" by blast
    then show ?thesis using assms found granted [OF found b]
      by (simp add: ReserveQuota_locked_def granted_shard_def granted_record_def case_prod_beta Let_def
          not_less [symmetric])
  next
    case False
    then show ?thesis using assms found refused
      by (simp add: ReserveQuota_locked_def case_prod_beta split: option.splits if_splits) fastforce+
  qed
qed

lemma granted_shard_ledger:
  fixes ttl
  assumes inv: "shard_inv H (GetShard key) sh"
    and fresh: "Find H (make_res_id now seq) (reservations sh) = None"
    and e: "Find H key (entries sh) = Some e" "balance_of (e_value e) = b" "amount \<le> b"
  defines "sh' \<equiv> granted_shard H now seq key amount ttl b sh"
  shows "shard_inv H (GetShard key) sh'"
    and "target_balance H k sh' = (if k = key then b - amount else target_balance H k sh)"
    and "ledger_in H k sh' = ledger_in H k sh"
    and "Find H rid (reservations sh') = (if rid = make_res_id now seq
       then Some (granted_record now seq key amount ttl) else Find H rid (reservations sh))"
proof -
  let ?s1 = "set_balance H key (b - amount) sh"
  have inv1: "shard_inv H (GetShard key) ?s1" by (rule set_balance_inv [OF inv])
  note rti = shard_inv_tables(3) [OF inv]
  show "shard_inv H (GetShard key) sh'"
    unfolding sh'_def granted_shard_def
    by (intro shard_inv_reservations [OF inv1] table_inv_put [OF rti]) (simp add: resv_ok_def granted_record_def)
  show bal: "target_balance H k sh' = (if k = key then b - amount else target_balance H k sh)" for k
    unfolding sh'_def granted_shard_def using target_balance_set [OF inv, of key k "b - amount"] e by simp
  have "reserved_in k sh' = reserved_in k sh + (if key = k then unat amount else 0)"
    unfolding sh'_def granted_shard_def
    using add_reservation_reserved [OF inv1, of "make_res_id now seq" k] fresh by (simp add: granted_record_def)
  moreover have "target_balance H key sh = b" using e by (simp add: target_balance_def)
  moreover have "unat b = unat (b - amount) + unat amount"
    using e(3) by (simp add: unat_sub word_le_nat_alt)
  ultimately show "ledger_in H k sh' = ledger_in H k sh"
    using bal [of k] by (cases "k = key") (simp_all add: ledger_in_def)
  show "Find H rid (reservations sh') = (if rid = make_res_id now seq
       then Some (granted_record now seq key amount ttl) else Find H rid (reservations sh))"
    unfolding sh'_def granted_shard_def by (simp add: Find_put [OF rti])
qed

text \<open>What a commit takes from the ledger of its key.\<close>

definition charge :: "hash_fn \<Rightarrow> u64 \<Rightarrow> string \<Rightarrow> string \<Rightarrow> u64 \<Rightarrow> StorageShard \<Rightarrow> nat" where
  "charge H now key rid actual sh =
     (case Find H rid (reservations sh) of
        None \<Rightarrow> 0
      | Some r \<Rightarrow> if res_key r = key \<and> \<not> Reservation_IsExpired r now
                 then min (unat actual) (unat (res_amount r) + unat (target_balance H key sh)) else 0)"

lemma reserved_le:
  assumes "shard_inv H i sh" "Find H rid (reservations sh) = Some r" "res_key r = k"
  shows "unat (res_amount r) \<le> reserved_in k sh"
  using erase_reservation_reserved [OF assms(1,2), of k] assms(3) by simp

lemma erase_reservation_ledger:
  assumes "shard_inv H i sh" "Find H rid (reservations sh) = Some r"
  shows "ledger_in H k sh = ledger_in H k (erase_reservation H rid sh) +
    (if res_key r = k then unat (res_amount r) else 0)"
  using erase_reservation_reserved [OF assms, of k] by (simp add: ledger_in_def)

text \<open>The new balance of a commit, as a number.\<close>

lemma commit_balance:
  fixes amount actual b :: u64
  assumes "unat b + unat amount < 2 ^ 64"
  shows "unat (if actual \<le> amount then b + (amount - actual)
      else if b \<ge> actual - amount then b - (actual - amount) else 0) + min (unat actual) (unat amount + unat b)
    = unat b + unat amount"
proof (cases "actual \<le> amount")
  case True
  then have "unat (amount - actual) = unat amount - unat actual" "unat actual \<le> unat amount"
    by (simp_all add: unat_sub word_le_nat_alt)
  then have "unat (b + (amount - actual)) = unat b + (unat amount - unat actual)"
    using assms by (simp add: unat_word_ariths(1))
  then show ?thesis using True \<open>unat actual \<le> unat amount\<close> by simp
next
  case False
  then have le: "unat (actual - amount) = unat actual - unat amount" "unat amount < unat actual"
    by (simp_all add: unat_sub word_le_nat_alt)
  show ?thesis
  proof (cases "actual - amount \<le> b")
    case True
    then have "unat (b - (actual - amount)) = unat b - (unat actual - unat amount)"
      "unat actual - unat amount \<le> unat b"
      using le by (simp_all add: unat_sub word_le_nat_alt)
    then show ?thesis using False True le by simp
  next
    case nb: False
    then have "unat b < unat actual - unat amount" using le by (simp add: word_le_nat_alt)
    then show ?thesis using False nb by simp
  qed
qed

lemma CommitQuota_locked_cases:
  assumes "CommitQuota_locked H now key rid actual sh = (r, sh')"
  obtains (unknown) "\<not> committed r" "sh' = sh" "charge H now key rid actual sh = 0"
  | (expired) res where "Find H rid (reservations sh) = Some res" "res_key res = key" "\<not> committed r"
      "charge H now key rid actual sh = 0"
      "sh' = erase_reservation H rid (if Find H key (entries sh) = None then sh
         else set_balance H key (target_balance H key sh + res_amount res) sh)"
  | (live) res where "Find H rid (reservations sh) = Some res" "res_key res = key" "committed r"
      "charge H now key rid actual sh = min (unat actual) (unat (res_amount res) + unat (target_balance H key sh))"
      "sh' = put_balance H now key
         (if actual \<le> res_amount res then target_balance H key sh + (res_amount res - actual)
          else if target_balance H key sh \<ge> actual - res_amount res
          then target_balance H key sh - (actual - res_amount res) else 0) (erase_reservation H rid sh)"
proof (cases "Find H rid (reservations sh)")
  case None
  then show ?thesis using assms unknown by (auto simp: CommitQuota_locked_def charge_def)
next
  case (Some res)
  show ?thesis
  proof (cases "res_key res = key")
    case False
    then show ?thesis using assms unknown Some by (auto simp: CommitQuota_locked_def charge_def)
  next
    case key: True
    show ?thesis
    proof (cases "Reservation_IsExpired res now")
      case True
      have "(case Find H key (entries sh) of None \<Rightarrow> sh
          | Some target \<Rightarrow> set_balance H key (balance_of (e_value target) + res_amount res) sh) =
        (if Find H key (entries sh) = None then sh
         else set_balance H key (target_balance H key sh + res_amount res) sh)"
        by (simp add: target_balance_def split: option.splits)
      then show ?thesis
        by (intro expired [OF Some key])
          (use assms Some key True in \<open>auto simp: CommitQuota_locked_def charge_def Let_def\<close>)
    next
      case False
      show ?thesis
        by (rule live [OF Some key])
          (use assms Some key False in \<open>auto simp: CommitQuota_locked_def charge_def Let_def split: if_splits\<close>)
    qed
  qed
qed

lemma target_small: "ledger_in H key sh < 2 ^ 64 \<Longrightarrow> shard_inv H i sh \<Longrightarrow> Find H rid (reservations sh) = Some r \<Longrightarrow>
    res_key r = key \<Longrightarrow> unat (target_balance H key sh) + unat (res_amount r) < 2 ^ 64"
  using reserved_le [of H i sh rid r key] by (simp add: ledger_in_def)

text \<open>An operation on a key: the invariant is kept, no reservation is made up, and no ledger grows;
  \<open>ch\<close> is taken from the ledger of the key.\<close>

definition ledger_step :: "hash_fn \<Rightarrow> string \<Rightarrow> nat \<Rightarrow> StorageShard \<Rightarrow> StorageShard \<Rightarrow> bool" where
  "ledger_step H key ch sh sh' \<longleftrightarrow>
     shard_inv H (GetShard key) sh' \<and>
     (\<forall>k. ledger_in H k sh' + (if k = key then ch else 0) \<le> ledger_in H k sh)"

lemma CommitQuota_locked_ledger:
  assumes inv: "shard_inv H (GetShard key) sh" and small: "ledger_in H key sh < 2 ^ 64"
    and res: "CommitQuota_locked H now key rid actual sh = (r, sh')"
  shows "ledger_step H key (charge H now key rid actual sh) sh sh'"
    and "committed r \<Longrightarrow> ledger_in H key sh' + charge H now key rid actual sh = ledger_in H key sh"
    and "Find H rid' (reservations sh') = Some q \<Longrightarrow> Find H rid' (reservations sh) = Some q"
proof -
  note einv = erase_reservation_inv [OF inv, of rid]
  have "ledger_step H key (charge H now key rid actual sh) sh sh' \<and>
      (committed r \<longrightarrow> ledger_in H key sh' + charge H now key rid actual sh = ledger_in H key sh) \<and>
      reservations sh' \<in> {reservations sh, fst (Erase H rid (reservations sh))}"
    using res
  proof (cases rule: CommitQuota_locked_cases)
    case unknown
    then show ?thesis using inv by (simp add: ledger_step_def)
  next
    case (expired q)
    define s where "s = (if Find H key (entries sh) = None then sh
         else set_balance H key (target_balance H key sh + res_amount q) sh)"
    have sh': "sh' = erase_reservation H rid s" using expired(5) by (simp add: s_def)
    have s: "shard_inv H (GetShard key) s" "reservations s = reservations sh"
      using inv by (simp_all add: s_def set_balance_inv)
    have le: "ledger_in H k s \<le> ledger_in H k sh + (if k = key then unat (res_amount q) else 0)" for k
      using target_small [OF small inv expired(1,2)]
      by (simp add: s_def ledger_in_def target_balance_set [OF inv] unat_word_ariths(1))
    have "ledger_in H k s = ledger_in H k sh' + (if key = k then unat (res_amount q) else 0)" for k
      using erase_reservation_ledger [OF s(1), of rid q k] expired(1,2) by (simp add: s(2) sh')
    with le have "ledger_in H k sh' \<le> ledger_in H k sh" for k
      by (metis add_le_cancel_right)
    then show ?thesis using expired(3,4) erase_reservation_inv [OF s(1), of rid]
      by (simp add: ledger_step_def sh' s(2))
  next
    case (live q)
    define b where "b = (if actual \<le> res_amount q then target_balance H key sh + (res_amount q - actual)
          else if target_balance H key sh \<ge> actual - res_amount q
          then target_balance H key sh - (actual - res_amount q) else 0)"
    have sh': "sh' = put_balance H now key b (erase_reservation H rid sh)" using live(5) by (simp only: b_def)
    have bal: "unat b + charge H now key rid actual sh = unat (target_balance H key sh) + unat (res_amount q)"
      using commit_balance [OF target_small [OF small inv live(1,2)], of actual] by (simp only: live(4) b_def)
    have eq: "ledger_in H k sh' + (if k = key then charge H now key rid actual sh else 0) = ledger_in H k sh" for k
      using bal erase_reservation_ledger [OF inv live(1), of k] live(2)
      by (auto simp: sh' target_balance_put [OF einv] ledger_in_def)
    then have "ledger_step H key (charge H now key rid actual sh) sh sh'"
      using put_balance_inv [OF einv] by (simp add: ledger_step_def sh' eq_imp_le)
    then show ?thesis using eq [of key] by (simp add: sh')
  qed
  then show "ledger_step H key (charge H now key rid actual sh) sh sh'"
    and "committed r \<Longrightarrow> ledger_in H key sh' + charge H now key rid actual sh = ledger_in H key sh"
    and "Find H rid' (reservations sh') = Some q \<Longrightarrow> Find H rid' (reservations sh) = Some q"
    by (auto simp: Find_erase [OF shard_inv_tables(3) [OF inv]] split: if_splits)
qed

lemma RollbackQuota_locked_ledger:
  assumes inv: "shard_inv H (GetShard key) sh" and small: "ledger_in H key sh < 2 ^ 64"
    and res: "RollbackQuota_locked H now key rid sh = (r, sh')"
  shows "ledger_step H key 0 sh sh'"
    and "Find H rid (reservations sh) = Some q \<Longrightarrow> res_key q = key \<Longrightarrow> \<not> Reservation_IsExpired q now \<Longrightarrow>
      rolled_back r \<and> ledger_in H key sh' = ledger_in H key sh \<and>
      unat (target_balance H key sh') = unat (target_balance H key sh) + unat (res_amount q)"
    and "Find H rid' (reservations sh') = Some q \<Longrightarrow> Find H rid' (reservations sh) = Some q"
proof -
  let ?s = "erase_reservation H rid sh"
  note einv = erase_reservation_inv [OF inv, of rid]
  consider (unknown) "sh' = sh" "\<And>q. Find H rid (reservations sh) = Some q \<Longrightarrow> res_key q \<noteq> key"
    | (found) q where "Find H rid (reservations sh) = Some q" "res_key q = key" "rolled_back r"
      "sh' = (if Reservation_IsExpired q now then ?s
         else put_balance H now key (target_balance H key sh + res_amount q) ?s)"
    using res by (auto simp: RollbackQuota_locked_def Let_def split: option.splits if_splits)
  then have "ledger_step H key 0 sh sh' \<and>
      (\<forall>q. Find H rid (reservations sh) = Some q \<longrightarrow> res_key q = key \<longrightarrow> \<not> Reservation_IsExpired q now \<longrightarrow>
        rolled_back r \<and> ledger_in H key sh' = ledger_in H key sh \<and>
        unat (target_balance H key sh') = unat (target_balance H key sh) + unat (res_amount q)) \<and>
      reservations sh' \<in> {reservations sh, fst (Erase H rid (reservations sh))}"
  proof cases
    case unknown
    then show ?thesis using inv by (auto simp: ledger_step_def)
  next
    case (found q)
    have bal: "unat (target_balance H key sh + res_amount q) = unat (target_balance H key sh) + unat (res_amount q)"
      using target_small [OF small inv found(1,2)] by (simp add: unat_word_ariths(1))
    have eq: "ledger_in H k sh = ledger_in H k ?s + (if key = k then unat (res_amount q) else 0)" for k
      using erase_reservation_ledger [OF inv found(1), of k] found(2) by simp
    show ?thesis
    proof (cases "Reservation_IsExpired q now")
      case True
      then show ?thesis using found einv eq by (simp add: ledger_step_def)
    next
      case False
      then have sh': "sh' = put_balance H now key (target_balance H key sh + res_amount q) ?s" using found(4) by simp
      have "ledger_in H k sh' = ledger_in H k sh" for k
        using eq [of k] bal by (auto simp: sh' target_balance_put [OF einv] ledger_in_def)
      then show ?thesis using found put_balance_inv [OF einv] bal
        by (simp add: ledger_step_def sh' target_balance_put [OF einv])
    qed
  qed
  then show "ledger_step H key 0 sh sh'"
    and "Find H rid (reservations sh) = Some q \<Longrightarrow> res_key q = key \<Longrightarrow> \<not> Reservation_IsExpired q now \<Longrightarrow>
      rolled_back r \<and> ledger_in H key sh' = ledger_in H key sh \<and>
      unat (target_balance H key sh') = unat (target_balance H key sh) + unat (res_amount q)"
    and "Find H rid' (reservations sh') = Some q \<Longrightarrow> Find H rid' (reservations sh) = Some q"
    by (auto simp: Find_erase [OF shard_inv_tables(3) [OF inv]] split: if_splits)
qed

lemma ReserveQuota_locked_ledger:
  assumes inv: "shard_inv H (GetShard key) sh"
    and fresh: "Find H (make_res_id now seq) (reservations sh) = None"
    and res: "ReserveQuota_locked H now key amount ttl seq sh = ((r, seq'), sh')"
  shows "ledger_step H key 0 sh sh'"
    and "reserved r \<Longrightarrow> ledger_in H key sh' = ledger_in H key sh \<and>
       unat (target_balance H key sh) = unat (rv_remaining r) + unat amount \<and>
       target_balance H key sh' = rv_remaining r \<and> reservation_id r = make_res_id now seq"
    and "seq' = (if reserved r then seq + 1 else seq)"
    and "Find H rid (reservations sh') = (if reserved r \<and> rid = make_res_id now seq
        then Some (granted_record now seq key amount ttl) else Find H rid (reservations sh))"
proof -
  note lf = lazy_find_inv [OF inv, of now key] lazy_find_ledger [OF inv, where now = now and key = key]
  have "ledger_step H key 0 sh sh' \<and>
    (reserved r \<longrightarrow> ledger_in H key sh' = ledger_in H key sh \<and>
       unat (target_balance H key sh) = unat (rv_remaining r) + unat amount \<and>
       target_balance H key sh' = rv_remaining r \<and> reservation_id r = make_res_id now seq) \<and>
    seq' = (if reserved r then seq + 1 else seq) \<and>
    (\<forall>rid. Find H rid (reservations sh') = (if reserved r \<and> rid = make_res_id now seq
        then Some (granted_record now seq key amount ttl) else Find H rid (reservations sh)))"
    using res
  proof (cases rule: ReserveQuota_locked_cases)
    case refused
    then show ?thesis using lf(1,2) by (simp add: ledger_step_def)
  next
    case (granted e b)
    have sh: "snd (lazy_find H now key sh) = sh" and e: "Find H key (entries sh) = Some e"
      using lf(3) [OF granted(1)] by simp_all
    have b: "balance_of (e_value e) = b" using granted(2) by (simp add: balance_of_def)
    have bal: "target_balance H key sh = b" using e b by (simp add: target_balance_def)
    have "unat b = unat (b - amount) + unat amount"
      using granted(3) by (simp add: unat_sub word_le_nat_alt)
    then show ?thesis
      using granted_shard_ledger [OF inv fresh e b granted(3), where ttl = ttl] bal granted(4,5,6) sh
      by (simp add: ledger_step_def)
  qed
  then show "ledger_step H key 0 sh sh'"
    and "reserved r \<Longrightarrow> ledger_in H key sh' = ledger_in H key sh \<and>
       unat (target_balance H key sh) = unat (rv_remaining r) + unat amount \<and>
       target_balance H key sh' = rv_remaining r \<and> reservation_id r = make_res_id now seq"
    and "seq' = (if reserved r then seq + 1 else seq)"
    and "Find H rid (reservations sh') = (if reserved r \<and> rid = make_res_id now seq
        then Some (granted_record now seq key amount ttl) else Find H rid (reservations sh))"
    by blast+
qed

section \<open>Identifiers of reservations are not reused\<close>

lemma to_dec_inject [simp]: "to_dec m = to_dec n \<longleftrightarrow> m = n"
  by (metis dec_value_to_dec)

lemma make_res_id_seq:
  assumes "make_res_id t n = make_res_id t' n'"
  shows "n = n'"
proof -
  let ?digits = "\<lambda>xs. rev (takeWhile (\<lambda>c. c \<noteq> CHR ''_'') (rev xs))"
  have "?digits (make_res_id t n) = to_dec (unat n)" for t n
  proof -
    have "CHR ''_'' \<notin> set (to_dec (unat n))"
      using to_dec_digits [of "CHR ''_''" "unat n"] by (auto simp: isdigit_def byte_val_def)
    then have "takeWhile (\<lambda>c. c \<noteq> CHR ''_'') (rev (to_dec (unat n)) @ CHR ''_'' # r) = rev (to_dec (unat n))" for r
      by (subst takeWhile_append2) auto
    then show ?thesis by (simp add: make_res_id_def to_string_u64_def)
  qed
  then have "unat n = unat n'" using assms by (metis to_dec_inject)
  then show ?thesis by (simp add: word_unat_eq_iff)
qed

definition ids_used :: "hash_fn \<Rightarrow> MemoryStore \<Rightarrow> bool" where
  "ids_used H st \<longleftrightarrow> (\<forall>i < kNumShards. \<forall>rid r. Find H rid (reservations (shards st ! i)) = Some r \<longrightarrow>
     (\<exists>t n. rid = make_res_id t n \<and> n < next_reservation_seq st))"

definition quota_inv :: "hash_fn \<Rightarrow> MemoryStore \<Rightarrow> bool" where
  "quota_inv H st \<longleftrightarrow> store_inv H st \<and> ids_used H st"

lemma fresh_id:
  assumes "ids_used H st" "i < kNumShards"
  shows "Find H (make_res_id now (next_reservation_seq st)) (reservations (shards st ! i)) = None"
proof (rule ccontr)
  assume "\<not> ?thesis"
  then obtain r where "Find H (make_res_id now (next_reservation_seq st)) (reservations (shards st ! i)) = Some r"
    by blast
  then obtain t n where "make_res_id now (next_reservation_seq st) = make_res_id t n" "n < next_reservation_seq st"
    using assms unfolding ids_used_def by blast
  then show False by (auto dest: make_res_id_seq)
qed

lemma ids_used_update:
  assumes "ids_used H st" "length (shards st) = kNumShards" "next_reservation_seq st \<le> seq"
    and "\<And>rid r. Find H rid (reservations sh) = Some r \<Longrightarrow>
      Find H rid (reservations (shards st ! i)) = Some r \<and> i < kNumShards \<or>
      (\<exists>t n. rid = make_res_id t n \<and> n < seq)"
  shows "ids_used H (st\<lparr>shards := (shards st)[i := sh], next_reservation_seq := seq\<rparr>)"
  unfolding ids_used_def
proof (intro allI impI)
  fix j rid r
  let ?st' = "st\<lparr>shards := (shards st)[i := sh], next_reservation_seq := seq\<rparr>"
  assume j: "j < kNumShards" and r: "Find H rid (reservations (shards ?st' ! j)) = Some r"
  have old: "\<exists>t n. rid = make_res_id t n \<and> n < seq"
    if "Find H rid (reservations (shards st ! k)) = Some r" "k < kNumShards" for k
    using that assms(1,3) unfolding ids_used_def by (meson order_less_le_trans)
  show "\<exists>t n. rid = make_res_id t n \<and> n < next_reservation_seq ?st'"
    using r j old assms(2) assms(4) [of rid r] by (cases "i = j") auto
qed

section \<open>The ledger over sequences of operations\<close>

definition ledger :: "hash_fn \<Rightarrow> MemoryStore \<Rightarrow> string \<Rightarrow> nat" where
  "ledger H st k = ledger_in H k (shards st ! GetShard k)"

datatype quota_op =
  QReserve string u64 u64
| QCommit string string u64
| QRollback string string

definition quota_exec :: "hash_fn \<Rightarrow> u64 \<times> quota_op \<Rightarrow> MemoryStore \<Rightarrow> MemoryStore" where
  "quota_exec H x st = (case x of (now, op) \<Rightarrow> (case op of
       QReserve key amount ttl \<Rightarrow> snd (MemoryStore_ReserveQuota H now key amount ttl st)
     | QCommit key rid actual \<Rightarrow> snd (MemoryStore_CommitQuota H now key rid actual st)
     | QRollback key rid \<Rightarrow> snd (MemoryStore_RollbackQuota H now key rid st)))"

text \<open>What an operation charges to a key: nothing, unless it commits a live reservation of the key.\<close>

definition quota_charge :: "hash_fn \<Rightarrow> string \<Rightarrow> u64 \<times> quota_op \<Rightarrow> MemoryStore \<Rightarrow> nat" where
  "quota_charge H k x st = (case x of (now, op) \<Rightarrow> (case op of
       QCommit key rid actual \<Rightarrow>
         if key = k then charge H now key rid actual (shards st ! GetShard key) else 0
     | _ \<Rightarrow> 0))"

fun charged :: "hash_fn \<Rightarrow> string \<Rightarrow> (u64 \<times> quota_op) list \<Rightarrow> MemoryStore \<Rightarrow> nat" where
  "charged H k [] st = 0"
| "charged H k (x # xs) st = quota_charge H k x st + charged H k xs (quota_exec H x st)"

lemma ledger_update:
  assumes "store_inv H st" "ledger_step H key ch (shards st ! GetShard key) sh"
  shows "ledger H (st\<lparr>shards := (shards st)[GetShard key := sh]\<rparr>) k + (if k = key then ch else 0) \<le> ledger H st k"
  using assms by (cases "GetShard k = GetShard key") (auto simp: ledger_def ledger_step_def nth_list_update)

lemma ledger_seq [simp]: "ledger H (st\<lparr>next_reservation_seq := n\<rparr>) k = ledger H st k"
  by (simp add: ledger_def)

lemma quota_shard_step:
  assumes inv: "quota_inv H st"
    and led: "ledger_step H key ch (shards st ! GetShard key) sh'"
    and n: "next_reservation_seq st \<le> n"
    and ids: "\<And>rid r. Find H rid (reservations sh') = Some r \<Longrightarrow>
      Find H rid (reservations (shards st ! GetShard key)) = Some r \<or> (\<exists>t m. rid = make_res_id t m \<and> m < n)"
  defines "st' \<equiv> st\<lparr>shards := (shards st)[GetShard key := sh'], next_reservation_seq := n\<rparr>"
  shows "quota_inv H st'" and "ledger H st' k + (if k = key then ch else 0) \<le> ledger H st k"
proof -
  have st: "store_inv H st" "ids_used H st" "length (shards st) = kNumShards"
    using inv by (simp_all add: quota_inv_def store_inv_def)
  have "store_inv H (st\<lparr>shards := (shards st)[GetShard key := sh']\<rparr>)"
    using led by (intro store_inv_update st) (simp add: ledger_step_def)
  moreover have "ids_used H st'"
    unfolding st'_def using ids by (intro ids_used_update st n) auto
  ultimately show "quota_inv H st'"
    by (simp add: quota_inv_def st'_def store_inv_def)
  show "ledger H st' k + (if k = key then ch else 0) \<le> ledger H st k"
    using ledger_update [OF st(1) led, of k] by (simp add: st'_def ledger_def)
qed

lemma quota_step:
  assumes inv: "quota_inv H st" and small: "\<And>k. ledger H st k < 2 ^ 64"
    and seq: "unat (next_reservation_seq st) + 1 < 2 ^ 64"
  shows "quota_inv H (quota_exec H x st) \<and>
    ledger H (quota_exec H x st) k + quota_charge H k x st \<le> ledger H st k \<and>
    unat (next_reservation_seq (quota_exec H x st)) \<le> unat (next_reservation_seq st) + 1"
proof -
  have st: "store_inv H st" "ids_used H st" using inv by (simp_all add: quota_inv_def)
  have smaller: "ledger_in H key (shards st ! GetShard key) < 2 ^ 64" for key
    using small [of key] by (simp add: ledger_def)
  note shi = store_inv_shard [OF st(1)]
  let ?seq = "next_reservation_seq st"
  have up: "?seq < ?seq + 1" "unat (?seq + 1) = unat ?seq + 1"
    using seq by (simp_all add: word_less_nat_alt unat_word_ariths(1))
  obtain now op where x: "x = (now, op)" by fastforce
  show ?thesis
  proof (cases op)
    case (QReserve key amount ttl)
    show ?thesis
    proof (cases "amount = 0 \<or> ttl = 0")
      case True
      then show ?thesis using inv by (auto simp: x QReserve quota_exec_def quota_charge_def MemoryStore_ReserveQuota_def)
    next
      case False
      obtain r n sh' where res:
        "ReserveQuota_locked H now key amount ttl ?seq (shards st ! GetShard key) = ((r, n), sh')"
        by (metis prod.exhaust)
      note led = ReserveQuota_locked_ledger [OF shi fresh_id [OF st(2) GetShard_bound] res]
      have "quota_exec H x st = st\<lparr>shards := (shards st)[GetShard key := sh'], next_reservation_seq := n\<rparr>"
        using False res by (simp add: x QReserve quota_exec_def MemoryStore_ReserveQuota_def on_shard_def)
      moreover have "?seq \<le> n" "unat n \<le> unat ?seq + 1"
        using led(3) up by (auto split: if_splits)
      moreover have "Find H rid (reservations (shards st ! GetShard key)) = Some q \<or>
          (\<exists>t m. rid = make_res_id t m \<and> m < n)" if "Find H rid (reservations sh') = Some q" for rid q
        using that led(3,4) up by (auto split: if_splits)
      note quota_shard_step [OF inv led(1) \<open>?seq \<le> n\<close> this]
      ultimately show ?thesis by (simp add: x QReserve quota_charge_def)
    qed
  next
    case (QCommit key rid actual)
    obtain r sh' where res: "CommitQuota_locked H now key rid actual (shards st ! GetShard key) = (r, sh')"
      by (metis prod.exhaust)
    note led = CommitQuota_locked_ledger [OF shi smaller res]
    have "quota_exec H x st = st\<lparr>shards := (shards st)[GetShard key := sh'], next_reservation_seq := ?seq\<rparr>"
      using res by (simp add: x QCommit quota_exec_def MemoryStore_CommitQuota_def on_shard_def)
    then show ?thesis
      using quota_shard_step(1) [OF inv led(1) order_refl disjI1 [OF led(3)]]
        quota_shard_step(2) [OF inv led(1) order_refl disjI1 [OF led(3)], where k = k]
      by (auto simp: x QCommit quota_charge_def)
  next
    case (QRollback key rid)
    obtain r sh' where res: "RollbackQuota_locked H now key rid (shards st ! GetShard key) = (r, sh')"
      by (metis prod.exhaust)
    note led = RollbackQuota_locked_ledger [OF shi smaller res]
    have "quota_exec H x st = st\<lparr>shards := (shards st)[GetShard key := sh'], next_reservation_seq := ?seq\<rparr>"
      using res by (simp add: x QRollback quota_exec_def MemoryStore_RollbackQuota_def on_shard_def)
    then show ?thesis
      using quota_shard_step(1) [OF inv led(1) order_refl disjI1 [OF led(3)]]
        quota_shard_step(2) [OF inv led(1) order_refl disjI1 [OF led(3)], where k = k]
      by (auto simp: x QRollback quota_charge_def)
  qed
qed

lemma quota_run_bound:
  assumes "quota_inv H st" "\<And>k. ledger H st k < 2 ^ 64"
    and "unat (next_reservation_seq st) + length ops < 2 ^ 64"
  shows "quota_inv H (fold (quota_exec H) ops st) \<and>
    ledger H (fold (quota_exec H) ops st) k + charged H k ops st \<le> ledger H st k"
  using assms
proof (induction ops arbitrary: st)
  case (Cons x ops)
  let ?st = "quota_exec H x st"
  have seq: "unat (next_reservation_seq st) + 1 < 2 ^ 64" using Cons.prems(3) by simp
  note step = quota_step [OF Cons.prems(1,2) seq, of x]
  have "quota_inv H ?st" "unat (next_reservation_seq ?st) + length ops < 2 ^ 64"
    using step [of k] Cons.prems(3) by auto
  moreover have "ledger H ?st k < 2 ^ 64" for k using step [of k] Cons.prems(2) [of k] by simp
  ultimately have "quota_inv H (fold (quota_exec H) ops ?st) \<and>
      ledger H (fold (quota_exec H) ops ?st) k + charged H k ops ?st \<le> ledger H ?st k"
    using Cons.IH [of ?st] by blast
  then show ?case using step [of k] by simp
qed simp

text \<open>A store whose keys are only set has no reservation.\<close>

lemma Set_reservations:
  "store_inv H st \<Longrightarrow>
   reservations (shards (snd (MemoryStore_Set H now key v c ttl st)) ! i) = reservations (shards st ! i)"
  by (cases "i = GetShard key")
    (simp_all add: MemoryStore_Set_def on_shard_snd case_prod_beta Let_def)

lemma no_reservations:
  assumes "store_inv H st" "\<And>i. i < kNumShards \<Longrightarrow> reservations (shards st ! i) = HashTable_default"
  shows "quota_inv H st" "ledger H st k = unat (target_balance H k (shards st ! GetShard k))" "ledger H st k < 2 ^ 64"
proof -
  show "quota_inv H st" using assms by (simp add: quota_inv_def ids_used_def HashTable_default_def)
  show eq: "ledger H st k = unat (target_balance H k (shards st ! GetShard k))"
    by (simp add: ledger_def ledger_in_def reserved_in_def assms(2) HashTable_default_def HashTable_def nodes_def)
  show "ledger H st k < 2 ^ 64" unfolding eq by (rule unat_u64_less)
qed

section \<open>Properties\<close>


definition example_quota :: MemoryStore where
  "example_quota = snd (MemoryStore_Set length 0 ''q'' ''100'' Always 0 MemoryStore_default)"

lemma example_quota_ok:
  "quota_inv length example_quota" "\<forall>k. ledger length example_quota k < 2 ^ 64" "next_reservation_seq example_quota = 1"
proof -
  have inv: "store_inv length example_quota"
    using Set_refines [OF kv_refines_default] by (auto simp: example_quota_def kv_refines_def)
  have res: "reservations (shards example_quota ! i) = HashTable_default" if "i < kNumShards" for i
    using that Set_reservations [OF store_inv_default, of length 0 "''q''" "''100''" Always 0 i]
    by (simp add: example_quota_def MemoryStore_default_def StorageShard_default_def)
  show "quota_inv length example_quota" "\<forall>k. ledger length example_quota k < 2 ^ 64"
    using no_reservations [OF inv res] by simp_all
  show "next_reservation_seq example_quota = 1"
    by (simp add: example_quota_def MemoryStore_Set_def on_shard_snd MemoryStore_default_def)
qed


text \<open>A reservation that was just granted.\<close>

lemma granted_reservation:
  assumes "quota_inv H st" and res: "MemoryStore_ReserveQuota H now key amount ttl st = (r, st1)" "reserved r"
  obtains q where "Find H (reservation_id r) (reservations (shards st1 ! GetShard key)) = Some q"
    "res_key q = key" "res_amount q = amount" "res_expire_at_ms q = now + ttl"
    "target_balance H key (shards st1 ! GetShard key) = rv_remaining r"
    "unat (rv_remaining r) + unat amount = unat (target_balance H key (shards st ! GetShard key))"
    "store_inv H st1"
proof -
  have st: "store_inv H st" "ids_used H st" using assms(1) by (simp_all add: quota_inv_def)
  let ?seq = "next_reservation_seq st"
  have args: "amount \<noteq> 0" "ttl \<noteq> 0" using res by (auto simp: MemoryStore_ReserveQuota_def split: if_splits)
  obtain r' n sh' where lk: "ReserveQuota_locked H now key amount ttl ?seq (shards st ! GetShard key) = ((r', n), sh')"
    by (metis prod.exhaust)
  note led = ReserveQuota_locked_ledger [OF store_inv_shard [OF st(1)] fresh_id [OF st(2) GetShard_bound] lk]
  have eq: "r' = r" and st1: "st1 = st\<lparr>shards := (shards st)[GetShard key := sh'], next_reservation_seq := n\<rparr>"
    using res(1) args lk by (auto simp: MemoryStore_ReserveQuota_def on_shard_def)
  have sh': "shards st1 ! GetShard key = sh'" using st(1) by (simp add: st1)
  have inv1: "store_inv H st1"
    using store_inv_update [OF st(1), of "GetShard key" sh'] led(1) by (simp add: st1 ledger_step_def store_inv_def)
  have id: "reservation_id r = make_res_id now ?seq" using led(2) res(2) eq by simp
  show ?thesis
    by (rule that [of "granted_record now ?seq key amount ttl"])
      (use led(2) led(4) [of "reservation_id r"] eq sh' id res(2) inv1 in \<open>simp_all add: granted_record_def\<close>)
qed


definition example_reserve :: "ReservationResult \<times> MemoryStore" where
  "example_reserve = MemoryStore_ReserveQuota length 1 ''q'' 30 1000 example_quota"

lemma example_entry:
  "entry_at length example_quota ''q'' = Some \<lparr>e_key = ''q'', e_value = ''100'',
     meta = \<lparr>meta_type = DataType_String, created_at_ms = 0, expire_at_ms = 0\<rparr>\<rparr>"
  by (simp add: example_quota_def MemoryStore_Set_def entry_at_def on_shard_snd lazy_find_def
      MemoryStore_default_def StorageShard_default_def HashTable_default_def Find_put [where P = "\<lambda>_ _. True"]
      table_inv_def)

lemma stoull_100: "stoull ''100'' = Some (100, 3)"
  by code_simp

lemma example_reserved: "reserved (fst example_reserve)"
  unfolding example_reserve_def MemoryStore_ReserveQuota_def ReserveQuota_locked_def on_shard_def
  by (simp add: case_prod_beta Let_def lazy_find_fst entry_at_def [symmetric] example_entry stoull_100
      entry.visible_def EntryMetadata_IsExpired_def)


text \<open>a reservation is granted exactly when it is well formed and covered: a positive amount, a
  positive time to live, a live key whose whole value is a number, and a balance of at least the
  amount.\<close>

theorem reserve_granted_iff:
  "reserved (fst (MemoryStore_ReserveQuota H now key amount ttl st)) \<longleftrightarrow>
     amount \<noteq> 0 \<and> ttl \<noteq> 0 \<and>
     (\<exists>e b. entry.visible now (entry_at H st key) = Some e \<and>
       stoull (e_value e) = Some (b, length (e_value e)) \<and> amount \<le> b)"
proof -
  have lz: "fst (lazy_find H now key (shards st ! GetShard key)) = entry.visible now (entry_at H st key)"
    by (simp add: lazy_find_fst entry_at_def)
  show ?thesis
    unfolding MemoryStore_ReserveQuota_def ReserveQuota_locked_def on_shard_def
    by (auto simp: case_prod_beta Let_def lz not_less split: option.splits)
qed

text \<open>C39: rolling back an expired reservation reports the full amount as refunded, but the balance is
  unchanged and the amount leaves the ledger.\<close>

theorem rollback_expired_loses_quota:
  assumes "store_inv H st" "resv_at H st key rid = Some q" "res_key q = key" "Reservation_IsExpired q now"
  shows "fst (MemoryStore_RollbackQuota H now key rid st) =
      RollbackResult True True (res_amount q) (target_balance H key (shards st ! GetShard key)) [] [] \<and>
    ledger H (snd (MemoryStore_RollbackQuota H now key rid st)) key + unat (res_amount q) = ledger H st key"
proof -
  let ?sh = "shards st ! GetShard key"
  have q: "Find H rid (reservations ?sh) = Some q" using assms(2) by (simp add: resv_at_def)
  have op: "RollbackQuota_locked H now key rid ?sh =
      (RollbackResult True True (res_amount q) (target_balance H key ?sh) [] [], erase_reservation H rid ?sh)"
    using q assms(3,4) by (simp add: RollbackQuota_locked_def Let_def)
  show ?thesis
    using erase_reservation_ledger [OF store_inv_shard [OF assms(1)] q, of key] assms(1,3)
    by (simp add: MemoryStore_RollbackQuota_def on_shard_fst on_shard_snd op ledger_def)
qed

theorem rollback_expired_loses_quota_witness:
  "rb_refunded (fst (MemoryStore_RollbackQuota length 2000 ''q'' (reservation_id (fst example_reserve)) (snd example_reserve))) = 30"
proof -
  obtain q where q: "Find length (reservation_id (fst example_reserve)) (reservations (shards (snd example_reserve) ! GetShard ''q'')) = Some q"
    "res_key q = ''q''" "res_amount q = 30" "res_expire_at_ms q = 1001" and inv: "store_inv length (snd example_reserve)"
    using granted_reservation [OF example_quota_ok(1), of 1 "''q''" 30 1000 "fst example_reserve" "snd example_reserve"]
      example_reserved by (auto simp: example_reserve_def)
  show ?thesis
    using rollback_expired_loses_quota [OF inv, of "''q''" "reservation_id (fst example_reserve)" q 2000] q
    by (simp add: resv_at_def Reservation_IsExpired_def)
qed

end
