(* ===== verification/GK_Idempotency.thy ===== *)
theory GK_Idempotency
  imports GK_Memory_Store
begin

text \<open>
  Idempotency records of \<open>src/storage/memory_store.cpp\<close>: \<open>IdemBegin\<close>, \<open>IdemComplete\<close>, \<open>IdemFail\<close> and
  \<open>IdemGet\<close>. The abstract machine of a key is the step relation \<open>idem_step\<close>; the operations are
  shown to refine it, and its invariants give mutual exclusion and replay.
\<close>

section \<open>Operations\<close>

abbreviation erase_idem :: "hash_fn \<Rightarrow> string \<Rightarrow> StorageShard \<Rightarrow> StorageShard" where
  "erase_idem H key sh \<equiv> sh\<lparr>idempotency_records := fst (Erase H key (idempotency_records sh))\<rparr>"

abbreviation write_idem ::
  "hash_fn \<Rightarrow> string \<Rightarrow> (IdempotencyRecord \<Rightarrow> IdempotencyRecord) \<Rightarrow> StorageShard \<Rightarrow> StorageShard" where
  "write_idem H key f sh \<equiv> sh\<lparr>idempotency_records := Write H key f (idempotency_records sh)\<rparr>"

definition lazy_idem :: "hash_fn \<Rightarrow> u64 \<Rightarrow> string \<Rightarrow> StorageShard \<Rightarrow> IdempotencyRecord option \<times> StorageShard" where
  "lazy_idem H now key sh =
     (case Find H key (idempotency_records sh) of
        None \<Rightarrow> (None, sh)
      | Some r \<Rightarrow> if IdempotencyRecord_IsExpired r now then (None, erase_idem H key sh) else (Some r, sh))"

text \<open>The token of a new owner: the one it brings, or a fresh one drawn from the sequence.\<close>

definition new_token :: "u64 \<Rightarrow> string \<Rightarrow> u64 \<Rightarrow> string \<times> u64" where
  "new_token now tok seq =
     (if tok = [] then (''idem_'' @ to_string_u64 now @ ''_'' @ to_string_u64 seq, seq + 1) else (tok, seq))"

definition IdemBegin_locked ::
  "hash_fn \<Rightarrow> u64 \<Rightarrow> string \<Rightarrow> string \<Rightarrow> u64 \<Rightarrow> string \<Rightarrow> u64 \<Rightarrow> StorageShard
    \<Rightarrow> (IdempotencyBeginResult \<times> u64) \<times> StorageShard" where
  "IdemBegin_locked H now key hash ttl_ms tok seq sh0 =
     (case lazy_idem H now key sh0 of (record, sh) \<Rightarrow>
     (case record of
        None \<Rightarrow>
          (let (token, seq') = new_token now tok seq;
               rec = \<lparr>idem_key = key, request_hash = hash, status = InProgress, response_code = 0,
                      response_body = [], owner_token = token, idem_created_at_ms = now,
                      idem_expire_at_ms = (if ttl_ms > 0 then now + ttl_ms else 0)\<rparr>
           in ((IdempotencyBeginResult True Execute token 0 [] [] [], seq'),
               sh\<lparr>idempotency_records := fst (Insert H key rec (idempotency_records sh))\<rparr>))
      | Some r \<Rightarrow>
          if request_hash r \<noteq> hash
          then ((IdempotencyBeginResult False Conflict [] 0 [] ''ERR_IDEMPOTENCY_CONFLICT''
                   ''Request hash mismatch for idempotency key'', seq), sh)
          else (case status r of
                  InProgress \<Rightarrow>
                    if tok \<noteq> [] \<and> owner_token r = tok
                    then ((IdempotencyBeginResult True Execute (owner_token r) 0 [] [] [], seq), sh)
                    else ((IdempotencyBeginResult True Park (owner_token r) 0 [] [] [], seq), sh)
                | Completed \<Rightarrow>
                    ((IdempotencyBeginResult True Replay (owner_token r) (response_code r) (response_body r) [] [], seq), sh)
                | Failed \<Rightarrow>
                    (let (token, seq') = new_token now tok seq
                     in ((IdempotencyBeginResult True Execute token 0 [] [] [], seq'),
                         write_idem H key (\<lambda>r. r\<lparr>status := InProgress, owner_token := token,
                           idem_created_at_ms := now,
                           idem_expire_at_ms := (if ttl_ms > 0 then now + ttl_ms else 0),
                           response_code := 0, response_body := []\<rparr>) sh))
                | Status_None \<Rightarrow>
                    ((IdempotencyBeginResult False Conflict [] 0 [] ''ERR_UNKNOWN_STATUS''
                        ''Unknown idempotency status'', seq), sh))))"

definition MemoryStore_IdemBegin ::
  "hash_fn \<Rightarrow> u64 \<Rightarrow> string \<Rightarrow> string \<Rightarrow> u64 \<Rightarrow> string \<Rightarrow> MemoryStore \<Rightarrow> IdempotencyBeginResult \<times> MemoryStore" where
  "MemoryStore_IdemBegin H now key hash ttl_ms tok st =
     (case on_shard key (IdemBegin_locked H now key hash ttl_ms tok (next_idempotency_seq st)) st of
        ((r, seq), st') \<Rightarrow> (r, st'\<lparr>next_idempotency_seq := seq\<rparr>))"

definition MemoryStore_IdemComplete ::
  "hash_fn \<Rightarrow> u64 \<Rightarrow> string \<Rightarrow> string \<Rightarrow> 32 word \<Rightarrow> string \<Rightarrow> MemoryStore \<Rightarrow> IdempotencyCompleteResult \<times> MemoryStore" where
  "MemoryStore_IdemComplete H now key tok code body = on_shard key (\<lambda>sh.
     case Find H key (idempotency_records sh) of
       None \<Rightarrow> (IdempotencyCompleteResult False False ''ERR_NOT_FOUND'' ''Idempotency record not found'', sh)
     | Some r \<Rightarrow>
         if IdempotencyRecord_IsExpired r now
         then (IdempotencyCompleteResult False False ''ERR_EXPIRED'' ''Idempotency record has expired'',
               erase_idem H key sh)
         else if tok \<noteq> [] \<and> owner_token r \<noteq> tok
         then (IdempotencyCompleteResult False False ''ERR_TOKEN_MISMATCH'' ''Owner token mismatch'', sh)
         else if status r = Completed then (IdempotencyCompleteResult True True [] [], sh)
         else (IdempotencyCompleteResult True True [] [],
               write_idem H key (\<lambda>r. r\<lparr>status := Completed, response_code := code, response_body := body\<rparr>) sh))"

definition MemoryStore_IdemFail ::
  "hash_fn \<Rightarrow> u64 \<Rightarrow> string \<Rightarrow> string \<Rightarrow> string \<Rightarrow> MemoryStore \<Rightarrow> IdempotencyFailResult \<times> MemoryStore" where
  "MemoryStore_IdemFail H now key tok msg = on_shard key (\<lambda>sh.
     case Find H key (idempotency_records sh) of
       None \<Rightarrow> (IdempotencyFailResult False False ''ERR_NOT_FOUND'' ''Idempotency record not found'', sh)
     | Some r \<Rightarrow>
         if IdempotencyRecord_IsExpired r now
         then (IdempotencyFailResult False False ''ERR_EXPIRED'' ''Idempotency record has expired'',
               erase_idem H key sh)
         else if tok \<noteq> [] \<and> owner_token r \<noteq> tok
         then (IdempotencyFailResult False False ''ERR_TOKEN_MISMATCH'' ''Owner token mismatch'', sh)
         else (IdempotencyFailResult True True [] [],
               write_idem H key (\<lambda>r. r\<lparr>status := Failed, response_body := msg\<rparr>) sh))"

definition MemoryStore_IdemGet ::
  "hash_fn \<Rightarrow> u64 \<Rightarrow> string \<Rightarrow> MemoryStore \<Rightarrow> IdempotencyRecord option \<times> MemoryStore" where
  "MemoryStore_IdemGet H now key = on_shard key (lazy_idem H now key)"

section \<open>The abstract machine of a key\<close>

text \<open>
  A key is free, or bound to a request (its hash) with an owner. The labels are the calls with
  their replies; a binding disappears when its deadline passes.
\<close>

record binding =
  b_hash :: string
  b_owner :: string
  b_deadline :: u64

datatype idem_state =
  Free
| Running binding
| Done binding "32 word" string
| Broken binding

datatype idem_call =
  CBegin string u64 string IdempotencyBeginResult
| CComplete string "32 word" string IdempotencyCompleteResult
| CFail string string IdempotencyFailResult
| CGet

fun binding_of :: "idem_state \<Rightarrow> binding option" where
  "binding_of Free = None"
| "binding_of (Running b) = Some b"
| "binding_of (Done b c body) = Some b"
| "binding_of (Broken b) = Some b"

definition over :: "binding \<Rightarrow> u64 \<Rightarrow> bool" where
  "over b now \<longleftrightarrow> b_deadline b > 0 \<and> now \<ge> b_deadline b"

interpretation bind: expiring b_deadline over
  by unfold_locales (simp add: over_def)

text \<open>The state with an expired binding dropped.\<close>

definition current :: "u64 \<Rightarrow> idem_state \<Rightarrow> idem_state" where
  "current now s = (case binding_of s of None \<Rightarrow> Free | Some b \<Rightarrow> if over b now then Free else s)"

definition may_settle :: "string \<Rightarrow> binding \<Rightarrow> bool" where
  "may_settle tok b \<longleftrightarrow> tok = [] \<or> b_owner b = tok"

inductive idem_step :: "u64 \<Rightarrow> idem_state \<Rightarrow> idem_call \<Rightarrow> idem_state \<Rightarrow> bool" where
  grant: "current now s = Free \<or> (\<exists>b. current now s = Broken b \<and> b_hash b = hash) \<Longrightarrow>
    tok = [] \<or> tok' = tok \<Longrightarrow>
    idem_step now s (CBegin hash ttl tok (IdempotencyBeginResult True Execute tok' 0 [] [] []))
      (Running \<lparr>b_hash = hash, b_owner = tok', b_deadline = (if ttl > 0 then now + ttl else 0)\<rparr>)"
| resume: "current now s = Running b \<Longrightarrow> b_hash b = hash \<Longrightarrow> tok \<noteq> [] \<Longrightarrow> b_owner b = tok \<Longrightarrow>
    idem_step now s (CBegin hash ttl tok (IdempotencyBeginResult True Execute tok 0 [] [] [])) (Running b)"
| park: "current now s = Running b \<Longrightarrow> b_hash b = hash \<Longrightarrow> tok = [] \<or> b_owner b \<noteq> tok \<Longrightarrow>
    idem_step now s (CBegin hash ttl tok (IdempotencyBeginResult True Park (b_owner b) 0 [] [] [])) (Running b)"
| replay: "current now s = Done b code body \<Longrightarrow> b_hash b = hash \<Longrightarrow>
    idem_step now s (CBegin hash ttl tok (IdempotencyBeginResult True Replay (b_owner b) code body [] []))
      (Done b code body)"
| conflict: "binding_of (current now s) = Some b \<Longrightarrow> b_hash b \<noteq> hash \<Longrightarrow> \<not> ib_ok res \<Longrightarrow> ib_action res = Conflict \<Longrightarrow>
    idem_step now s (CBegin hash ttl tok res) (current now s)"
| complete: "current now s \<in> {Running b, Broken b} \<Longrightarrow> may_settle tok b \<Longrightarrow>
    idem_step now s (CComplete tok code body (IdempotencyCompleteResult True True [] [])) (Done b code body)"
| complete_again: "current now s = Done b c bd \<Longrightarrow> may_settle tok b \<Longrightarrow>
    idem_step now s (CComplete tok code body (IdempotencyCompleteResult True True [] [])) (Done b c bd)"
| complete_refused: "case binding_of (current now s) of None \<Rightarrow> True | Some b \<Rightarrow> \<not> may_settle tok b \<Longrightarrow>
    \<not> ic_ok res \<Longrightarrow> idem_step now s (CComplete tok code body res) (current now s)"
| fail: "binding_of (current now s) = Some b \<Longrightarrow> may_settle tok b \<Longrightarrow>
    idem_step now s (CFail tok msg (IdempotencyFailResult True True [] [])) (Broken b)"
| fail_refused: "case binding_of (current now s) of None \<Rightarrow> True | Some b \<Rightarrow> \<not> may_settle tok b \<Longrightarrow>
    \<not> if_ok res \<Longrightarrow> idem_step now s (CFail tok msg res) (current now s)"
| get: "idem_step now s CGet (current now s)"

inductive_cases idem_step_BeginE: "idem_step now s (CBegin hash ttl tok res) s'"
inductive_cases idem_step_CompleteE: "idem_step now s (CComplete tok code body res) s'"
inductive_cases idem_step_FailE: "idem_step now s (CFail tok msg res) s'"
inductive_cases idem_step_GetE: "idem_step now s CGet s'"

section \<open>The store refines the machine\<close>

definition abs_binding :: "IdempotencyRecord \<Rightarrow> binding" where
  "abs_binding r = \<lparr>b_hash = request_hash r, b_owner = owner_token r, b_deadline = idem_expire_at_ms r\<rparr>"

fun idem_abs :: "IdempotencyRecord option \<Rightarrow> idem_state" where
  "idem_abs None = Free"
| "idem_abs (Some r) = (case status r of
     InProgress \<Rightarrow> Running (abs_binding r)
   | Completed \<Rightarrow> Done (abs_binding r) (response_code r) (response_body r)
   | Failed \<Rightarrow> Broken (abs_binding r)
   | Status_None \<Rightarrow> Free)"

lemma over_abs [simp]: "over (abs_binding r) now = IdempotencyRecord_IsExpired r now"
  by (simp add: over_def abs_binding_def IdempotencyRecord_IsExpired_def)

lemma binding_of_abs: "status r \<noteq> Status_None \<Longrightarrow> binding_of (idem_abs (Some r)) = Some (abs_binding r)"
  by (cases "status r") auto

lemma current_abs:
  "(\<And>r. x = Some r \<Longrightarrow> status r \<noteq> Status_None) \<Longrightarrow> current now (idem_abs x) = idem_abs (idem.visible now x)"
  by (cases x) (auto simp: current_def binding_of_abs idem.visible_def simp del: idem_abs.simps(2))

lemma abs_binding_simps [simp]:
  "b_hash (abs_binding r) = request_hash r" "b_owner (abs_binding r) = owner_token r"
  "b_deadline (abs_binding r) = idem_expire_at_ms r"
  by (simp_all add: abs_binding_def)

lemma idem_at_ok: "store_inv H st \<Longrightarrow> idem_at H st k = Some r \<Longrightarrow> idem_key r = k \<and> status r \<noteq> Status_None"
  using table_inv_Find [OF shard_inv_tables(4) [OF store_inv_shard]]
  by (fastforce simp: idem_at_def idem_ok_def)

text \<open>The effect of a body that leaves \<open>y\<close> as the record of its key.\<close>

definition idem_effect :: "hash_fn \<Rightarrow> string \<Rightarrow> IdempotencyRecord option \<Rightarrow> StorageShard \<Rightarrow> StorageShard \<Rightarrow> bool" where
  "idem_effect H key y sh sh' \<longleftrightarrow>
     shard_inv H (GetShard key) sh' \<and>
     (\<forall>k. Find H k (idempotency_records sh') = (if k = key then y else Find H k (idempotency_records sh)))"

lemma shard_inv_idem:
  "shard_inv H i sh \<Longrightarrow> table_inv H (idem_ok i) t \<Longrightarrow> shard_inv H i (sh\<lparr>idempotency_records := t\<rparr>)"
  by (simp add: shard_inv_def)

lemma idem_keep:
  "shard_inv H (GetShard key) sh \<Longrightarrow> Find H key (idempotency_records sh) = y \<Longrightarrow> idem_effect H key y sh sh"
  by (simp add: idem_effect_def)

lemma idem_erase: "shard_inv H (GetShard key) sh \<Longrightarrow> idem_effect H key None sh (erase_idem H key sh)"
  by (auto simp: idem_effect_def Find_erase [OF shard_inv_tables(4)] shard_inv_tables
      intro!: shard_inv_idem table_inv_erase)

lemma idem_put:
  "shard_inv H (GetShard key) sh \<Longrightarrow> idem_key r = key \<Longrightarrow> status r \<noteq> Status_None \<Longrightarrow>
   idem_effect H key (Some r) sh (sh\<lparr>idempotency_records := fst (Insert H key r (idempotency_records sh))\<rparr>)"
  by (auto simp: idem_effect_def Find_put [OF shard_inv_tables(4)] shard_inv_tables idem_ok_def
      intro!: shard_inv_idem table_inv_put)

lemma idem_write:
  assumes "shard_inv H (GetShard key) sh" "Find H key (idempotency_records sh) = Some r"
    and "\<And>r. idem_ok (GetShard key) key r \<Longrightarrow> idem_ok (GetShard key) key (f r)"
  shows "idem_effect H key (Some (f r)) sh (write_idem H key f sh)"
  using assms by (auto simp: idem_effect_def Find_write [OF shard_inv_tables(4)] shard_inv_tables
      intro!: shard_inv_idem table_inv_write)

lemma idem_effect_trans: "idem_effect H key x sh sh' \<Longrightarrow> idem_effect H key y sh' sh'' \<Longrightarrow> idem_effect H key y sh sh''"
  by (simp add: idem_effect_def)

lemma lazy_idem_effect:
  assumes "shard_inv H (GetShard key) sh"
  shows "fst (lazy_idem H now key sh) = idem.visible now (Find H key (idempotency_records sh))"
    and "idem_effect H key (idem.visible now (Find H key (idempotency_records sh))) sh (snd (lazy_idem H now key sh))"
  using assms by (auto simp: lazy_idem_def idem.visible_def intro: idem_keep idem_erase split: option.splits)

text \<open>An effect on the shard of the key, seen from the store.\<close>

lemma idem_store_effect:
  assumes "store_inv H st" "idem_effect H key y (shards st ! GetShard key) sh'"
  defines "st' \<equiv> st\<lparr>shards := (shards st)[GetShard key := sh']\<rparr>"
  shows "store_inv H st'" "idem_at H st' = (idem_at H st)(key := y)"
proof -
  show "store_inv H st'"
    unfolding st'_def using assms(2) by (intro store_inv_update assms(1)) (simp add: idem_effect_def)
  show "idem_at H st' = (idem_at H st)(key := y)"
  proof
    fix k
    show "idem_at H st' k = ((idem_at H st)(key := y)) k"
      using assms(1,2) by (cases "GetShard k = GetShard key") (auto simp: idem_at_def st'_def idem_effect_def)
  qed
qed

lemma new_token_cases: "new_token now tok seq = (t, seq') \<Longrightarrow> tok = [] \<or> t = tok"
  by (auto simp: new_token_def split: if_splits)

lemma Find_status:
  "shard_inv H i sh \<Longrightarrow> Find H k (idempotency_records sh) = Some r \<Longrightarrow> status r \<noteq> Status_None"
  using table_inv_Find [OF shard_inv_tables(4), of H i sh k r] by (simp add: idem_ok_def)

lemma IdemBegin_locked_step:
  assumes inv: "shard_inv H (GetShard key) sh"
    and res: "IdemBegin_locked H now key hash ttl tok seq sh = ((r, seq'), sh')"
  shows "\<exists>y. idem_effect H key y sh sh' \<and>
    idem_step now (idem_abs (Find H key (idempotency_records sh))) (CBegin hash ttl tok r) (idem_abs y)"
proof -
  let ?x = "Find H key (idempotency_records sh)" and ?s = "snd (lazy_idem H now key sh)"
  have ok: "status q \<noteq> Status_None" if "?x = Some q" for q using Find_status [OF inv that] .
  note lz = lazy_idem_effect [OF inv, of now]
  have cur: "current now (idem_abs ?x) = idem_abs (idem.visible now ?x)" by (rule current_abs [OF ok])
  have s: "shard_inv H (GetShard key) ?s" "Find H key (idempotency_records ?s) = idem.visible now ?x"
    using lz(2) by (simp_all add: idem_effect_def)
  obtain t n where tok: "new_token now tok seq = (t, n)" by fastforce
  note t = new_token_cases [OF tok]
  show ?thesis
  proof (cases "idem.visible now ?x")
    case None
    let ?r = "\<lparr>idem_key = key, request_hash = hash, status = InProgress, response_code = 0,
      response_body = [], owner_token = t, idem_created_at_ms = now,
      idem_expire_at_ms = (if ttl > 0 then now + ttl else 0)\<rparr>"
    have "r = IdempotencyBeginResult True Execute t 0 [] [] []"
      "sh' = ?s\<lparr>idempotency_records := fst (Insert H key ?r (idempotency_records ?s))\<rparr>"
      using res None tok by (simp_all add: IdemBegin_locked_def case_prod_beta lz(1))
    moreover from this have "idem_effect H key (Some ?r) sh sh'"
      using idem_effect_trans [OF lz(2) idem_put [OF s(1)]] by simp
    moreover have "current now (idem_abs ?x) = Free" using cur None by simp
    ultimately show ?thesis
      using grant [of now "idem_abs ?x" hash tok t ttl] t by (intro exI [of _ "Some ?r"]) (simp add: abs_binding_def)
  next
    case (Some q)
    have x: "?x = Some q" "status q \<noteq> Status_None" using Some ok by (auto simp: idem.visible_Some_iff)
    have keep: "idem_effect H key (Some q) sh ?s" using lz(2) Some by simp
    have cur': "current now (idem_abs ?x) = idem_abs (Some q)" using cur Some by simp
    show ?thesis
    proof (cases "request_hash q = hash")
      case False
      then have "r = IdempotencyBeginResult False Conflict [] 0 [] ''ERR_IDEMPOTENCY_CONFLICT''
          ''Request hash mismatch for idempotency key''" "sh' = ?s"
        using res Some by (simp_all add: IdemBegin_locked_def case_prod_beta lz(1))
      then show ?thesis
        using conflict [of now "idem_abs ?x" "abs_binding q" hash r ttl tok] cur' binding_of_abs [OF x(2)] False keep
        by (intro exI [of _ "Some q"]) (simp del: idem_abs.simps(2))
    next
      case hash: True
      show ?thesis
      proof (cases "status q")
        case Status_None
        then show ?thesis using x(2) by simp
      next
        case InProgress
        then have r: "r = IdempotencyBeginResult True (if tok \<noteq> [] \<and> owner_token q = tok then Execute else Park)
            (owner_token q) 0 [] [] []" "sh' = ?s"
          using res Some hash by (auto simp: IdemBegin_locked_def case_prod_beta lz(1) split: if_splits)
        have "idem_step now (idem_abs ?x) (CBegin hash ttl tok r) (Running (abs_binding q))"
          using resume [of now "idem_abs ?x" "abs_binding q" hash tok ttl]
            park [of now "idem_abs ?x" "abs_binding q" hash tok ttl] cur' InProgress hash r(1) by auto
        then show ?thesis using keep InProgress r(2) by (intro exI [of _ "Some q"]) simp
      next
        case Completed
        then have "r = IdempotencyBeginResult True Replay (owner_token q) (response_code q) (response_body q) [] []" "sh' = ?s"
          using res Some hash by (simp_all add: IdemBegin_locked_def case_prod_beta lz(1))
        then show ?thesis
          using replay [of now "idem_abs ?x" "abs_binding q" "response_code q" "response_body q" hash ttl tok]
            cur' Completed hash keep by (intro exI [of _ "Some q"]) simp
      next
        case Failed
        let ?f = "\<lambda>r. r\<lparr>status := InProgress, owner_token := t, idem_created_at_ms := now,
          idem_expire_at_ms := (if ttl > 0 then now + ttl else 0), response_code := 0, response_body := []\<rparr>"
        have "r = IdempotencyBeginResult True Execute t 0 [] [] []" "sh' = write_idem H key ?f ?s"
          using res Some hash tok Failed by (simp_all add: IdemBegin_locked_def case_prod_beta lz(1))
        moreover from this have "idem_effect H key (Some (?f q)) sh sh'"
          using idem_effect_trans [OF lz(2) idem_write [OF s(1), of q ?f]] s(2) Some by (simp add: idem_ok_def)
        ultimately show ?thesis
          using grant [of now "idem_abs ?x" hash tok t ttl] t cur' Failed hash
          by (intro exI [of _ "Some (?f q)"]) (simp add: abs_binding_def)
      qed
    qed
  qed
qed

text \<open>What a settling call finds.\<close>

lemma settle_cases:
  assumes inv: "shard_inv H (GetShard key) sh"
  obtains (absent) "Find H key (idempotency_records sh) = None"
      "current now (idem_abs (Find H key (idempotency_records sh))) = Free"
  | (expired) q where "Find H key (idempotency_records sh) = Some q" "IdempotencyRecord_IsExpired q now"
      "current now (idem_abs (Find H key (idempotency_records sh))) = Free"
  | (live) q where "Find H key (idempotency_records sh) = Some q" "\<not> IdempotencyRecord_IsExpired q now"
      "status q \<noteq> Status_None" "current now (idem_abs (Find H key (idempotency_records sh))) = idem_abs (Some q)"
      "binding_of (idem_abs (Some q)) = Some (abs_binding q)"
proof -
  let ?x = "Find H key (idempotency_records sh)"
  have ok: "status q \<noteq> Status_None" if "?x = Some q" for q using Find_status [OF inv that] .
  have cur: "current now (idem_abs ?x) = idem_abs (idem.visible now ?x)" by (rule current_abs [OF ok])
  show ?thesis
  proof (cases ?x)
    case None
    then show ?thesis using absent cur by simp
  next
    case (Some q)
    then show ?thesis
      using expired [OF Some] live [OF Some _ ok [OF Some] _ binding_of_abs [OF ok [OF Some]]] cur
      by (cases "IdempotencyRecord_IsExpired q now") (simp_all del: idem_abs.simps(2))
  qed
qed

lemma IdemComplete_step:
  assumes inv: "store_inv H st" and res: "MemoryStore_IdemComplete H now key tok code body st = (r, st')"
  shows "store_inv H st' \<and> (\<exists>y. idem_at H st' = (idem_at H st)(key := y) \<and>
    idem_step now (idem_abs (idem_at H st key)) (CComplete tok code body r) (idem_abs y))"
proof -
  let ?sh = "shards st ! GetShard key"
  let ?x = "Find H key (idempotency_records ?sh)" and ?f = "\<lambda>r. r\<lparr>status := Completed, response_code := code, response_body := body\<rparr>"
  note shi = store_inv_shard [OF inv, of key]
  have st: "idem_at H st key = Find H key (idempotency_records ?sh)" by (simp add: idem_at_def)
  note op = MemoryStore_IdemComplete_def [of H now key tok code body] on_shard_def Let_def
  have "\<exists>y sh'. st' = st\<lparr>shards := (shards st)[GetShard key := sh']\<rparr> \<and> idem_effect H key y ?sh sh' \<and>
    idem_step now (idem_abs ?x) (CComplete tok code body r) (idem_abs y)"
    using shi
  proof (cases rule: settle_cases [where now = now])
    case absent
    then show ?thesis using res idem_keep [OF shi, of None] complete_refused [of tok now "idem_abs ?x" r code body]
      by (intro exI [of _ None] exI [of _ ?sh]) (auto simp: op)
  next
    case (expired q)
    then show ?thesis using res idem_erase [OF shi] complete_refused [of tok now "idem_abs ?x" r code body]
      by (intro exI [of _ None] exI [of _ "erase_idem H key ?sh"]) (auto simp: op)
  next
    case (live q)
    show ?thesis
    proof (cases "may_settle tok (abs_binding q)")
      case False
      then show ?thesis using res live idem_keep [OF shi, of "Some q"]
          complete_refused [of tok now "idem_abs ?x" r code body]
        by (intro exI [of _ "Some q"] exI [of _ ?sh]) (auto simp: op may_settle_def simp del: idem_abs.simps(2))
    next
      case settle: True
      show ?thesis
      proof (cases "status q = Completed")
        case True
        then show ?thesis using res live settle idem_keep [OF shi, of "Some q"]
            complete_again [of now "idem_abs ?x" "abs_binding q" "response_code q" "response_body q" tok code body]
          by (intro exI [of _ "Some q"] exI [of _ ?sh]) (auto simp: op may_settle_def)
      next
        case False
        then have "current now (idem_abs ?x) \<in> {Running (abs_binding q), Broken (abs_binding q)}"
          using live by (cases "status q") auto
        from complete [OF this settle, of code body] show ?thesis
          using res live settle False idem_write [OF shi live(1), of ?f]
          by (intro exI [of _ "Some (?f q)"] exI [of _ "write_idem H key ?f ?sh"])
            (auto simp: op may_settle_def idem_ok_def abs_binding_def)
      qed
    qed
  qed
  then show ?thesis unfolding st using idem_store_effect [OF inv] by blast
qed

lemma IdemFail_step:
  assumes inv: "store_inv H st" and res: "MemoryStore_IdemFail H now key tok msg st = (r, st')"
  shows "store_inv H st' \<and> (\<exists>y. idem_at H st' = (idem_at H st)(key := y) \<and>
    idem_step now (idem_abs (idem_at H st key)) (CFail tok msg r) (idem_abs y))"
proof -
  let ?sh = "shards st ! GetShard key"
  let ?x = "Find H key (idempotency_records ?sh)" and ?f = "\<lambda>r. r\<lparr>status := Failed, response_body := msg\<rparr>"
  note shi = store_inv_shard [OF inv, of key]
  have st: "idem_at H st key = Find H key (idempotency_records ?sh)" by (simp add: idem_at_def)
  note op = MemoryStore_IdemFail_def [of H now key tok msg] on_shard_def Let_def
  have "\<exists>y sh'. st' = st\<lparr>shards := (shards st)[GetShard key := sh']\<rparr> \<and> idem_effect H key y ?sh sh' \<and>
    idem_step now (idem_abs ?x) (CFail tok msg r) (idem_abs y)"
    using shi
  proof (cases rule: settle_cases [where now = now])
    case absent
    then show ?thesis using res idem_keep [OF shi, of None] fail_refused [of tok now "idem_abs ?x" r msg]
      by (intro exI [of _ None] exI [of _ ?sh]) (auto simp: op)
  next
    case (expired q)
    then show ?thesis using res idem_erase [OF shi] fail_refused [of tok now "idem_abs ?x" r msg]
      by (intro exI [of _ None] exI [of _ "erase_idem H key ?sh"]) (auto simp: op)
  next
    case (live q)
    show ?thesis
    proof (cases "may_settle tok (abs_binding q)")
      case False
      then show ?thesis using res live idem_keep [OF shi, of "Some q"]
          fail_refused [of tok now "idem_abs ?x" r msg]
        by (intro exI [of _ "Some q"] exI [of _ ?sh]) (auto simp: op may_settle_def simp del: idem_abs.simps(2))
    next
      case True
      have "binding_of (current now (idem_abs ?x)) = Some (abs_binding q)"
        using live by (simp del: idem_abs.simps(2))
      from fail [OF this True, of msg] show ?thesis
        using res live True idem_write [OF shi live(1), of ?f]
        by (intro exI [of _ "Some (?f q)"] exI [of _ "write_idem H key ?f ?sh"])
          (auto simp: op may_settle_def idem_ok_def abs_binding_def)
    qed
  qed
  then show ?thesis unfolding st using idem_store_effect [OF inv] by blast
qed

lemma IdemGet_step:
  assumes inv: "store_inv H st" and res: "MemoryStore_IdemGet H now key st = (r, st')"
  shows "store_inv H st' \<and> r = idem.visible now (idem_at H st key) \<and>
    (\<exists>y. idem_at H st' = (idem_at H st)(key := y) \<and>
      idem_step now (idem_abs (idem_at H st key)) CGet (idem_abs y))"
proof -
  note shi = store_inv_shard [OF inv, of key]
  let ?x = "Find H key (idempotency_records (shards st ! GetShard key))"
  have x: "?x = idem_at H st key" by (simp add: idem_at_def)
  have st': "r = idem.visible now ?x"
    "st' = st\<lparr>shards := (shards st)[GetShard key := snd (lazy_idem H now key (shards st ! GetShard key))]\<rparr>"
    using res lazy_idem_effect(1) [OF shi, of now]
    by (simp_all add: MemoryStore_IdemGet_def on_shard_def case_prod_beta Let_def)
  have "current now (idem_abs ?x) = idem_abs (idem.visible now ?x)"
    by (rule current_abs) (rule Find_status [OF shi])
  then have "idem_step now (idem_abs ?x) CGet (idem_abs (idem.visible now ?x))" by (metis get)
  then show ?thesis
    using idem_store_effect [OF inv lazy_idem_effect(2) [OF shi, of now]] st' by (auto simp: x)
qed

lemma IdemBegin_step:
  assumes inv: "store_inv H st" and res: "MemoryStore_IdemBegin H now key hash ttl tok st = (r, st')"
  shows "store_inv H st' \<and> (\<exists>y. idem_at H st' = (idem_at H st)(key := y) \<and>
    idem_step now (idem_abs (idem_at H st key)) (CBegin hash ttl tok r) (idem_abs y))"
proof -
  note shi = store_inv_shard [OF inv, of key]
  obtain n sh' where lk:
    "IdemBegin_locked H now key hash ttl tok (next_idempotency_seq st) (shards st ! GetShard key) = ((r, n), sh')"
    and st': "st' = st\<lparr>shards := (shards st)[GetShard key := sh'], next_idempotency_seq := n\<rparr>"
    using res by (auto simp: MemoryStore_IdemBegin_def on_shard_def Let_def split: prod.splits)
  obtain y where y: "idem_effect H key y (shards st ! GetShard key) sh'"
    "idem_step now (idem_abs (idem_at H st key)) (CBegin hash ttl tok r) (idem_abs y)"
    using IdemBegin_locked_step [OF shi lk] by (auto simp: idem_at_def)
  have "store_inv H st'" "idem_at H st' = (idem_at H st)(key := y)"
    using idem_store_effect [OF inv y(1)] by (auto simp: st' store_inv_def idem_at_def fun_eq_iff)
  then show ?thesis using y(2) by blast
qed

section \<open>Sequences of calls\<close>

datatype idem_op =
  IBegin string string u64 string
| IComplete string string "32 word" string
| IFail string string string
| IGet string

fun op_key :: "idem_op \<Rightarrow> string" where
  "op_key (IBegin key hash ttl tok) = key"
| "op_key (IComplete key tok code body) = key"
| "op_key (IFail key tok msg) = key"
| "op_key (IGet key) = key"

fun idem_exec :: "hash_fn \<Rightarrow> u64 \<Rightarrow> idem_op \<Rightarrow> MemoryStore \<Rightarrow> idem_call \<times> MemoryStore" where
  "idem_exec H now (IBegin key hash ttl tok) st =
     (case MemoryStore_IdemBegin H now key hash ttl tok st of (r, st') \<Rightarrow> (CBegin hash ttl tok r, st'))"
| "idem_exec H now (IComplete key tok code body) st =
     (case MemoryStore_IdemComplete H now key tok code body st of (r, st') \<Rightarrow> (CComplete tok code body r, st'))"
| "idem_exec H now (IFail key tok msg) st =
     (case MemoryStore_IdemFail H now key tok msg st of (r, st') \<Rightarrow> (CFail tok msg r, st'))"
| "idem_exec H now (IGet key) st =
     (case MemoryStore_IdemGet H now key st of (r, st') \<Rightarrow> (CGet, st'))"

fun idem_run :: "hash_fn \<Rightarrow> (u64 \<times> idem_op) list \<Rightarrow> MemoryStore \<Rightarrow> (idem_op \<times> idem_call) list" where
  "idem_run H [] st = []"
| "idem_run H ((now, op) # ops) st =
     (case idem_exec H now op st of (call, st') \<Rightarrow> (op, call) # idem_run H ops st')"

lemma idem_exec_step:
  assumes "store_inv H st" "idem_exec H now op st = (call, st')"
  shows "store_inv H st' \<and> (\<exists>y. idem_at H st' = (idem_at H st)(op_key op := y) \<and>
    idem_step now (idem_abs (idem_at H st (op_key op))) call (idem_abs y))"
  using assms IdemBegin_step [OF assms(1)] IdemComplete_step [OF assms(1)] IdemFail_step [OF assms(1)]
    IdemGet_step [OF assms(1)]
  by (cases op) (auto split: prod.splits)

text \<open>A binding stays while its deadline has not passed and no failure is reported.\<close>

definition bound :: "binding \<Rightarrow> idem_state \<Rightarrow> bool" where
  "bound b s \<longleftrightarrow> s = Running b \<or> (\<exists>c bd. s = Done b c bd)"

fun is_fail :: "idem_call \<Rightarrow> bool" where
  "is_fail (CFail tok msg r) = if_ok r"
| "is_fail _ = False"

lemma current_bound: "bound b s \<Longrightarrow> \<not> over b now \<Longrightarrow> current now s = s"
  by (auto simp: bound_def current_def)

lemma bound_step:
  assumes "idem_step now s call s'" "bound b s" "\<not> over b now" "\<not> is_fail call"
  shows "bound b s'" and "s = Done b c bd \<Longrightarrow> s' = s"
  using assms current_bound [OF assms(2,3)]
  by (auto simp: bound_def elim: idem_step.cases)

lemma bound_begin:
  assumes "idem_step now s (CBegin hash ttl tok r) s'" "bound b s" "\<not> over b now"
  shows "ib_action r = Execute \<Longrightarrow> s = Running b \<and> tok = b_owner b \<and> tok \<noteq> [] \<and> hash = b_hash b"
    and "s = Done b c bd \<Longrightarrow> hash = b_hash b \<Longrightarrow> r = IdempotencyBeginResult True Replay (b_owner b) c bd [] []"
    and "hash \<noteq> b_hash b \<Longrightarrow> ib_action r = Conflict \<and> \<not> ib_ok r"
  using assms current_bound [OF assms(2,3)]
  by (auto simp: bound_def elim!: idem_step_BeginE)

definition no_fail :: "string \<Rightarrow> idem_op \<Rightarrow> bool" where
  "no_fail key op \<longleftrightarrow> (case op of IFail k tok msg \<Rightarrow> k \<noteq> key | _ \<Rightarrow> True)"

lemma no_fail_call: "no_fail (op_key op) op \<Longrightarrow> idem_exec H now op st = (call, st') \<Longrightarrow> \<not> is_fail call"
  by (cases op) (auto simp: no_fail_def split: prod.splits)

text \<open>An invariant of the machine of a key holds before each call on the key of a run.\<close>

lemma idem_run_inv:
  assumes "store_inv H st" "I (idem_abs (idem_at H st key))"
    and "\<And>now s call s'. I s \<Longrightarrow> idem_step now s call s' \<Longrightarrow> ok now \<Longrightarrow> \<not> is_fail call \<Longrightarrow> I s'"
    and "\<forall>(now, op) \<in> set ops. ok now \<and> no_fail key op"
    and "(op, call) \<in> set (idem_run H ops st)" "op_key op = key"
  shows "\<exists>now s s'. ok now \<and> I s \<and> idem_step now s call s'"
  using assms(1,2,4,5)
proof (induction ops arbitrary: st)
  case (Cons x ops)
  obtain now o1 where x: "x = (now, o1)" by fastforce
  obtain call1 st1 where ex: "idem_exec H now o1 st = (call1, st1)" by fastforce
  obtain y where y: "store_inv H st1" "idem_at H st1 = (idem_at H st)(op_key o1 := y)"
    "idem_step now (idem_abs (idem_at H st (op_key o1))) call1 (idem_abs y)"
    using idem_exec_step [OF Cons.prems(1) ex] by blast
  have ok: "ok now" "no_fail key o1" using Cons.prems(3) by (auto simp: x)
  have I1: "I (idem_abs (idem_at H st1 key))"
  proof (cases "op_key o1 = key")
    case True
    then show ?thesis
      using y(2,3) assms(3) [OF Cons.prems(2), of now call1 "idem_abs y"] ok no_fail_call [of o1, OF _ ex] by simp
  qed (use y(2) Cons.prems(2) in simp)
  show ?case
  proof (cases "(op, call) = (o1, call1)")
    case True
    then show ?thesis using y(3) ok Cons.prems(2) assms(6) by auto
  next
    case False
    then have "(op, call) \<in> set (idem_run H ops st1)" using Cons.prems(4) by (auto simp: x ex)
    then show ?thesis using Cons.IH [OF y(1) I1] Cons.prems(3) by auto
  qed
qed simp

section \<open>An example\<close>

definition example_begin :: MemoryStore where
  "example_begin = snd (MemoryStore_IdemBegin length 10 ''k'' ''h'' 1000 ''me'' MemoryStore_default)"

definition example_complete :: MemoryStore where
  "example_complete = snd (MemoryStore_IdemComplete length 30 ''k'' ''me'' 200 ''ok'' example_begin)"

definition example_record :: IdempotencyRecord where
  "example_record = \<lparr>idem_key = ''k'', request_hash = ''h'', status = InProgress, response_code = 0,
     response_body = [], owner_token = ''me'', idem_created_at_ms = 10, idem_expire_at_ms = 1010\<rparr>"

lemma example_begin_ok: "store_inv length example_begin" "idem_at length example_begin ''k'' = Some example_record"
proof -
  show "store_inv length example_begin"
    unfolding example_begin_def using IdemBegin_step [OF store_inv_default prod.collapse [symmetric]] by blast
  show "idem_at length example_begin ''k'' = Some example_record"
    by (simp add: example_begin_def MemoryStore_IdemBegin_def IdemBegin_locked_def idem_at_def on_shard_def lazy_idem_def
        new_token_def MemoryStore_default_def StorageShard_default_def HashTable_default_def Find_put [where P = "\<lambda>_ _. True"]
        table_inv_def example_record_def)
qed

lemma example_complete_ok:
  "store_inv length example_complete"
  "idem_at length example_complete ''k'' =
     Some (example_record\<lparr>status := Completed, response_code := 200, response_body := ''ok''\<rparr>)"
proof -
  show "store_inv length example_complete"
    unfolding example_complete_def using IdemComplete_step [OF example_begin_ok(1) prod.collapse [symmetric]] by blast
  let ?sh = "shards example_begin ! GetShard ''k''"
  have f: "Find length ''k'' (idempotency_records ?sh) = Some example_record"
    using example_begin_ok(2) by (simp add: idem_at_def)
  then show "idem_at length example_complete ''k'' =
     Some (example_record\<lparr>status := Completed, response_code := 200, response_body := ''ok''\<rparr>)"
    using Find_write [OF shard_inv_tables(4) [OF store_inv_shard [OF example_begin_ok(1)]]] example_begin_ok(1)
    by (simp add: example_complete_def MemoryStore_IdemComplete_def idem_at_def on_shard_snd
        IdempotencyRecord_IsExpired_def example_record_def)
qed

section \<open>Properties\<close>

text \<open>C5: mutual exclusion. While a request is in progress, its deadline has not passed and no failure
  is reported for its key, every \<open>IdemBegin\<close> on the key that is told to execute carries the owner's
  token and the same request hash; a different hash is refused as a conflict.\<close>

theorem idem_begin_exclusive:
  assumes "store_inv H st" "idem_at H st key = Some rec" "status rec = InProgress"
    and "\<forall>(now, op) \<in> set ops. \<not> IdempotencyRecord_IsExpired rec now \<and> no_fail key op"
    and "(IBegin key hash ttl tok, CBegin hash ttl tok r) \<in> set (idem_run H ops st)"
  shows "(ib_action r = Execute \<longrightarrow> tok = owner_token rec \<and> tok \<noteq> [] \<and> hash = request_hash rec) \<and>
    (hash \<noteq> request_hash rec \<longrightarrow> ib_action r = Conflict \<and> \<not> ib_ok r)"
proof -
  let ?b = "abs_binding rec"
  have "bound ?b (idem_abs (idem_at H st key))" using assms(2,3) by (simp add: bound_def)
  then have "\<exists>now s s'. \<not> over ?b now \<and> bound ?b s \<and> idem_step now s (CBegin hash ttl tok r) s'"
    by (rule idem_run_inv [OF assms(1) _ bound_step(1) _ assms(5)]) (use assms(4) in auto)
  then show ?thesis using bound_begin(1,3) by fastforce
qed

theorem idem_begin_exclusive_witness:
  "ib_action (fst (MemoryStore_IdemBegin length 20 ''k'' ''h'' 0 ''you'' example_begin)) \<noteq> Execute"
  using idem_begin_exclusive [OF example_begin_ok, of "[(20, IBegin ''k'' ''h'' 0 ''you'')]" "''h''" 0 "''you''"
      "fst (MemoryStore_IdemBegin length 20 ''k'' ''h'' 0 ''you'' example_begin)"]
  by (auto simp: example_record_def IdempotencyRecord_IsExpired_def no_fail_def case_prod_beta)

text \<open>C17: replay. Once a request is completed, until its deadline and unless a failure is reported for
  its key, every further \<open>IdemBegin\<close> with the same hash gets the recorded response, whatever else is
  called in between.\<close>

theorem idem_completed_replays:
  assumes "store_inv H st" "idem_at H st key = Some rec" "status rec = Completed"
    and "\<forall>(now, op) \<in> set ops. \<not> IdempotencyRecord_IsExpired rec now \<and> no_fail key op"
    and "(IBegin key (request_hash rec) ttl tok, CBegin (request_hash rec) ttl tok r) \<in> set (idem_run H ops st)"
  shows "r = IdempotencyBeginResult True Replay (owner_token rec) (response_code rec) (response_body rec) [] []"
proof -
  let ?b = "abs_binding rec" and ?s = "Done (abs_binding rec) (response_code rec) (response_body rec)"
  have "\<exists>now s s'. \<not> over ?b now \<and> s = ?s \<and> idem_step now s (CBegin (request_hash rec) ttl tok r) s'"
    by (rule idem_run_inv [OF assms(1) _ _ _ assms(5)])
      (use assms(2-4) in \<open>auto simp: bound_def dest: bound_step(2) [of _ _ _ _ ?b]\<close>)
  then show ?thesis using bound_begin(2) by (fastforce simp: bound_def)
qed

theorem idem_completed_replays_witness:
  "fst (MemoryStore_IdemBegin length 40 ''k'' ''h'' 0 ''you'' example_complete) =
     IdempotencyBeginResult True Replay ''me'' 200 ''ok'' [] []"
  using idem_completed_replays [OF example_complete_ok, of "[(40, IBegin ''k'' ''h'' 0 ''you'')]" 0 "''you''"
      "fst (MemoryStore_IdemBegin length 40 ''k'' ''h'' 0 ''you'' example_complete)"]
  by (simp add: example_record_def IdempotencyRecord_IsExpired_def no_fail_def case_prod_beta)

text \<open>C40: \<open>IdemFail\<close> does not look at the status: it turns a completed record into a failed one, and the
  next \<open>IdemBegin\<close> with the same hash is told to execute again. An empty token passes its owner
  check, so any client can do this.\<close>

theorem idem_fail_reopens_completed:
  assumes "store_inv H st" "idem_at H st key = Some rec" "status rec = Completed"
    and "\<not> IdempotencyRecord_IsExpired rec now"
  shows "if_ok (fst (MemoryStore_IdemFail H now key [] msg st)) \<and>
    ib_action (fst (MemoryStore_IdemBegin H now key (request_hash rec) ttl tok
      (snd (MemoryStore_IdemFail H now key [] msg st)))) = Execute"
proof -
  let ?st = "snd (MemoryStore_IdemFail H now key [] msg st)"
  let ?r = "fst (MemoryStore_IdemFail H now key [] msg st)"
  obtain y where y: "store_inv H ?st" "idem_at H ?st = (idem_at H st)(key := y)"
    "idem_step now (idem_abs (idem_at H st key)) (CFail [] msg ?r) (idem_abs y)"
    using IdemFail_step [OF assms(1), of now key "[]" msg ?r ?st] by auto
  have cur: "current now (idem_abs (idem_at H st key)) = idem_abs (Some rec)"
    using current_abs [of "Some rec" now] assms by simp
  have fail: "if_ok ?r" "idem_abs y = Broken (abs_binding rec)"
    using y(3) cur assms(3) by (auto simp: may_settle_def elim!: idem_step_FailE)
  obtain y' st' where b: "idem_step now (idem_abs y) (CBegin (request_hash rec) ttl tok
      (fst (MemoryStore_IdemBegin H now key (request_hash rec) ttl tok ?st))) y'"
    using IdemBegin_step [OF y(1), of now key "request_hash rec" ttl tok] y(2)
    by (metis fun_upd_same prod.exhaust_sel)
  have "current now (idem_abs y) = Broken (abs_binding rec)"
    using fail(2) assms(4) by (simp add: current_def)
  then show ?thesis using b fail(1) by (auto elim!: idem_step_BeginE)
qed

theorem idem_fail_reopens_completed_witness:
  "ib_action (fst (MemoryStore_IdemBegin length 50 ''k'' ''h'' 0 ''you''
      (snd (MemoryStore_IdemFail length 50 ''k'' [] ''x'' example_complete)))) = Execute"
  using idem_fail_reopens_completed [OF example_complete_ok, of 50 "''x''" 0 "''you''"]
  by (simp add: example_record_def IdempotencyRecord_IsExpired_def)

end
