(* ===== verification/GK_Purge.thy ===== *)
theory GK_Purge
  imports GK_Quota GK_Idempotency GK_Counters
begin

text \<open>
  The background sweep \<open>MemoryStore::PurgeExpired\<close> of \<open>src/storage/memory_store.cpp\<close>. In each shard it
  removes up to \<open>sample_limit\<close> expired records of each kind, and returns the amount of an expired
  reservation to its key.
\<close>

section \<open>The sweep\<close>

text \<open>The first \<open>sample_limit\<close> expired keys, in the order \<open>ForEach\<close> visits them.\<close>

definition expired_sample :: "('v \<Rightarrow> u64 \<Rightarrow> bool) \<Rightarrow> u64 \<Rightarrow> nat \<Rightarrow> (string, 'v) hash_table \<Rightarrow> string list" where
  "expired_sample is_expired now sample_limit t =
     take sample_limit (map fst (filter (\<lambda>(k, v). is_expired v now) (nodes t)))"

definition erase_all :: "hash_fn \<Rightarrow> string list \<Rightarrow> (string, 'v) hash_table \<Rightarrow> (string, 'v) hash_table" where
  "erase_all H ks t = fold (\<lambda>k t. fst (Erase H k t)) ks t"

text \<open>One expired reservation: its amount goes back to the balance of its key.\<close>

definition release_reservation :: "hash_fn \<Rightarrow> u64 \<Rightarrow> string \<Rightarrow> StorageShard \<Rightarrow> StorageShard" where
  "release_reservation H now rid sh =
     (case Find H rid (reservations sh) of
        None \<Rightarrow> sh
      | Some res \<Rightarrow>
          (let sh1 = (case Find H (res_key res) (entries sh) of
                        Some target \<Rightarrow>
                          set_balance H (res_key res) (balance_of (e_value target) + res_amount res) sh
                      | None \<Rightarrow>
                          sh\<lparr>entries := fst (Insert H (res_key res)
                               (quota_entry now (res_key res) (res_amount res)) (entries sh))\<rparr>)
           in erase_reservation H rid sh1))"

definition purge_shard :: "hash_fn \<Rightarrow> u64 \<Rightarrow> nat \<Rightarrow> StorageShard \<Rightarrow> nat \<times> StorageShard" where
  "purge_shard H now sample_limit sh =
     (let expired_keys = expired_sample (\<lambda>e. EntryMetadata_IsExpired (meta e)) now sample_limit (entries sh);
          sh1 = sh\<lparr>entries := erase_all H expired_keys (entries sh)\<rparr>;
          expired_reservations = expired_sample Reservation_IsExpired now sample_limit (reservations sh1);
          sh2 = fold (release_reservation H now) expired_reservations sh1;
          expired_idempotencies = expired_sample IdempotencyRecord_IsExpired now sample_limit (idempotency_records sh2);
          sh3 = sh2\<lparr>idempotency_records := erase_all H expired_idempotencies (idempotency_records sh2)\<rparr>;
          expired_rate_limits = expired_sample RateLimitRecord_IsExpired now sample_limit (rate_limits sh3);
          sh4 = sh3\<lparr>rate_limits := erase_all H expired_rate_limits (rate_limits sh3)\<rparr>
      in (length expired_keys + length expired_reservations + length expired_idempotencies
            + length expired_rate_limits, sh4))"

definition MemoryStore_PurgeExpired :: "hash_fn \<Rightarrow> u64 \<Rightarrow> nat \<Rightarrow> MemoryStore \<Rightarrow> nat \<times> MemoryStore" where
  "MemoryStore_PurgeExpired H now sample_limit st =
     (let results = map (purge_shard H now sample_limit) (shards st)
      in (sum_list (map fst results), st\<lparr>shards := map snd results\<rparr>))"

section \<open>Sweeping one table\<close>

lemma expired_sample_length: "length (expired_sample ex now n t) \<le> n"
  by (simp add: expired_sample_def)

lemma expired_sample_expired:
  assumes "table_inv H P t" "k \<in> set (expired_sample ex now n t)"
  shows "\<exists>v. Find H k t = Some v \<and> ex v now"
proof -
  have "k \<in> set (map fst (filter (\<lambda>(k, v). ex v now) (nodes t)))"
    using assms(2) unfolding expired_sample_def by (rule in_set_takeD)
  then show ?thesis
    by (simp only: ht.keys_of_filter_entries [OF table_inv_ht [OF assms(1)], of k "\<lambda>k v. ex v now"])
qed

lemma expired_sample_all:
  assumes "table_inv H P t" "ht_size t \<le> n" "Find H k t = Some v" "ex v now"
  shows "k \<in> set (expired_sample ex now n t)"
proof -
  have "length (filter (\<lambda>(k, v). ex v now) (nodes t)) \<le> n"
    using assms(2) table_inv_ht [OF assms(1)] length_filter_le [of "\<lambda>(k, v). ex v now" "nodes t"]
    unfolding ht_inv_def by linarith
  then have "expired_sample ex now n t = map fst (filter (\<lambda>(k, v). ex v now) (nodes t))"
    by (simp add: expired_sample_def)
  then show ?thesis
    using assms(3,4)
    by (simp only: ht.keys_of_filter_entries [OF table_inv_ht [OF assms(1)], of k "\<lambda>k v. ex v now"]) blast
qed

lemma erase_all_inv: "table_inv H P t \<Longrightarrow> table_inv H P (erase_all H ks t)"
  unfolding erase_all_def by (induction ks arbitrary: t) (simp_all add: table_inv_erase)

lemma erase_all_Find: "table_inv H P t \<Longrightarrow> Find H k (erase_all H ks t) = (if k \<in> set ks then None else Find H k t)"
  unfolding erase_all_def using ht.find_erase_all [OF table_inv_ht, of H P t k ks] by simp

text \<open>Nothing that has not expired is removed; nothing expired remains if the sample covers the table.\<close>

context expiring
begin

lemma purge_visible:
  assumes "table_inv H P t" "now \<le> now'"
  shows "visible now' (Find H k (erase_all H (expired_sample is_expired now n t) t)) = visible now' (Find H k t)"
  using expired_sample_expired [OF assms(1), of k is_expired now n] expired_later assms(2)
  by (auto simp: erase_all_Find [OF assms(1)])

lemma purge_complete:
  assumes "table_inv H P t" "ht_size t \<le> n"
    and "Find H k (erase_all H (expired_sample is_expired now n t) t) = Some v"
  shows "\<not> is_expired v now"
  using assms expired_sample_all [OF assms(1,2), of k v is_expired now]
  by (auto simp: erase_all_Find [OF assms(1)] split: if_splits)

end

section \<open>Returning expired reservations\<close>

lemma release_reservation_alt:
  "release_reservation H now rid sh = (case Find H rid (reservations sh) of None \<Rightarrow> sh
     | Some q \<Rightarrow> erase_reservation H rid
         (put_balance H now (res_key q) (target_balance H (res_key q) sh + res_amount q) sh))"
  by (simp add: release_reservation_def put_balance_def target_balance_def split: option.splits)

lemma release_step:
  fixes now
  assumes inv: "shard_inv H i sh" and q: "Find H rid (reservations sh) = Some q"
  defines "sh' \<equiv> release_reservation H now rid sh"
  shows "shard_inv H i sh'"
    and "Find H rid' (reservations sh') = (if rid' = rid then None else Find H rid' (reservations sh))"
    and "rate_limits sh' = rate_limits sh" "idempotency_records sh' = idempotency_records sh"
    and "k \<noteq> res_key q \<Longrightarrow> Find H k (entries sh') = Find H k (entries sh)"
    and "ledger_in H (res_key q) sh < 2 ^ 64 \<Longrightarrow> ledger_in H k sh' = ledger_in H k sh"
proof -
  let ?p = "put_balance H now (res_key q) (target_balance H (res_key q) sh + res_amount q) sh"
  have sh': "sh' = erase_reservation H rid ?p" by (simp add: sh'_def release_reservation_alt q)
  have i: "GetShard (res_key q) = i" using table_inv_Find [OF shard_inv_tables(3) [OF inv] q] by (simp add: resv_ok_def)
  have p: "shard_inv H i ?p" using put_balance_inv [of H "res_key q"] inv i by simp
  show "shard_inv H i sh'" unfolding sh' by (rule erase_reservation_inv [OF p])
  show "Find H rid' (reservations sh') = (if rid' = rid then None else Find H rid' (reservations sh))"
    by (simp add: sh' Find_erase [OF shard_inv_tables(3) [OF inv]])
  show "rate_limits sh' = rate_limits sh" "idempotency_records sh' = idempotency_records sh"
    by (simp_all add: sh')
  show "Find H k (entries sh') = Find H k (entries sh)" if "k \<noteq> res_key q"
    using that by (simp add: sh' put_balance_def set_balance_def Find_put [OF shard_inv_tables(1) [OF inv]]
        Find_write [OF shard_inv_tables(1) [OF inv]])
  show "ledger_in H k sh' = ledger_in H k sh" if small: "ledger_in H (res_key q) sh < 2 ^ 64"
  proof -
    have "unat (target_balance H (res_key q) sh + res_amount q) = unat (target_balance H (res_key q) sh) + unat (res_amount q)"
      using target_small [OF small inv q refl] by (simp add: unat_word_ariths(1))
    then show ?thesis
      using erase_reservation_ledger [OF p, of rid q k] q
      by (auto simp: sh' ledger_in_def target_balance_put [OF inv])
  qed
qed

lemma release_all:
  fixes now
  assumes "shard_inv H i sh" "distinct rids" "\<And>rid. rid \<in> set rids \<Longrightarrow> Find H rid (reservations sh) \<noteq> None"
  defines "sh' \<equiv> fold (release_reservation H now) rids sh"
  shows "shard_inv H i sh' \<and>
    (\<forall>rid. Find H rid (reservations sh') = (if rid \<in> set rids then None else Find H rid (reservations sh))) \<and>
    rate_limits sh' = rate_limits sh \<and> idempotency_records sh' = idempotency_records sh \<and>
    ((\<forall>rid q. rid \<in> set rids \<longrightarrow> Find H rid (reservations sh) = Some q \<longrightarrow> res_key q \<noteq> k) \<longrightarrow>
      Find H k (entries sh') = Find H k (entries sh)) \<and>
    ((\<forall>k. ledger_in H k sh < 2 ^ 64) \<longrightarrow> ledger_in H k sh' = ledger_in H k sh)"
  using assms(1-3) unfolding sh'_def
proof (induction rids arbitrary: sh)
  case (Cons rid rids)
  from Cons.prems(3) [of rid] obtain q where q: "Find H rid (reservations sh) = Some q" by auto
  let ?s = "release_reservation H now rid sh"
  note step = release_step [OF Cons.prems(1) q, where now = now]
  have "Find H r (reservations ?s) \<noteq> None" if "r \<in> set rids" for r
    using Cons.prems(2,3) that step(2) [of r] by auto
  note IH = Cons.IH [OF step(1) _ this]
  have d: "distinct rids" "rid \<notin> set rids" using Cons.prems(2) by auto
  have small: "\<forall>k. ledger_in H k ?s < 2 ^ 64" if "\<forall>k. ledger_in H k sh < 2 ^ 64"
    using that step(6) by simp
  let ?f = "fold (release_reservation H now) rids ?s"
  have find: "Find H r (reservations ?f) = (if r \<in> set (rid # rids) then None else Find H r (reservations sh))" for r
    using IH [OF d(1)] step(2) [of r] by (cases "r = rid") simp_all
  have entries: "Find H k (entries ?f) = Find H k (entries sh)"
    if other: "\<And>r q. r \<in> set (rid # rids) \<Longrightarrow> Find H r (reservations sh) = Some q \<Longrightarrow> res_key q \<noteq> k"
  proof -
    have "res_key q' \<noteq> k" if "r \<in> set rids" "Find H r (reservations ?s) = Some q'" for r q'
      using other [of r q'] that step(2) [of r] by (simp split: if_splits)
    then show ?thesis using IH [OF d(1)] step(5) [of k] other [OF _ q] by auto
  qed
  have "ledger_in H k ?f = ledger_in H k sh" if "\<forall>k. ledger_in H k sh < 2 ^ 64"
    using that IH [OF d(1)] small [OF that] step(6) [of k] by simp
  then show ?case using IH [OF d(1)] step(3,4) find entries by auto
qed simp

section \<open>Sweeping a shard\<close>

lemma expired_sample_distinct:
  assumes "table_inv H P t"
  shows "distinct (expired_sample ex now n t)"
  unfolding expired_sample_def
  by (intro distinct_take distinct_map_filter ht.distinct_entries [OF table_inv_ht [OF assms]])

lemma purge_shard_step:
  fixes now n
  assumes inv: "shard_inv H i sh"
  defines "sh' \<equiv> snd (purge_shard H now n sh)"
  shows "shard_inv H i sh'"
    and "now \<le> now' \<Longrightarrow> idem.visible now' (Find H k (idempotency_records sh')) = idem.visible now' (Find H k (idempotency_records sh))"
    and "now \<le> now' \<Longrightarrow> rate.visible now' (Find H k (rate_limits sh')) = rate.visible now' (Find H k (rate_limits sh))"
    and "now \<le> now' \<Longrightarrow> resv.visible now' (Find H rid (reservations sh')) = resv.visible now' (Find H rid (reservations sh))"
    and "now \<le> now' \<Longrightarrow> (\<And>rid q. Find H rid (reservations sh) = Some q \<Longrightarrow> res_key q = k \<Longrightarrow> \<not> Reservation_IsExpired q now) \<Longrightarrow>
      entry.visible now' (Find H k (entries sh')) = entry.visible now' (Find H k (entries sh))"
    and "(\<forall>k. ledger_in H k sh < 2 ^ 64) \<Longrightarrow> entry.visible now (Find H k (entries sh)) = Find H k (entries sh) \<Longrightarrow>
      ledger_in H k sh' = ledger_in H k sh"
proof -
  define ek where "ek = expired_sample (\<lambda>e. EntryMetadata_IsExpired (meta e)) now n (entries sh)"
  define s1 where "s1 = sh\<lparr>entries := erase_all H ek (entries sh)\<rparr>"
  define er where "er = expired_sample Reservation_IsExpired now n (reservations sh)"
  define s2 where "s2 = fold (release_reservation H now) er s1"
  note tabs = shard_inv_tables [OF inv]
  have s1: "shard_inv H i s1" "reservations s1 = reservations sh"
    "idempotency_records s1 = idempotency_records sh" "rate_limits s1 = rate_limits sh"
    by (simp_all add: s1_def shard_inv_entries [OF inv] erase_all_inv [OF tabs(1)])
  have er: "\<exists>q. Find H r (reservations sh) = Some q \<and> Reservation_IsExpired q now" if "r \<in> set er" for r
    using expired_sample_expired [OF tabs(3)] that by (simp add: er_def)
  have "distinct er" by (simp add: er_def expired_sample_distinct [OF tabs(3)])
  then have rel: "shard_inv H i s2 \<and>
    (\<forall>rid. Find H rid (reservations s2) = (if rid \<in> set er then None else Find H rid (reservations sh))) \<and>
    rate_limits s2 = rate_limits sh \<and> idempotency_records s2 = idempotency_records sh \<and>
    ((\<forall>rid q. rid \<in> set er \<longrightarrow> Find H rid (reservations sh) = Some q \<longrightarrow> res_key q \<noteq> k) \<longrightarrow>
      Find H k (entries s2) = Find H k (entries s1)) \<and>
    ((\<forall>k. ledger_in H k s1 < 2 ^ 64) \<longrightarrow> ledger_in H k s2 = ledger_in H k s1)" for k
    using release_all [OF s1(1), of er now k] er by (fastforce simp: s1(2-4) s2_def)
  have sh': "sh' = s2\<lparr>idempotency_records := erase_all H (expired_sample IdempotencyRecord_IsExpired now n (idempotency_records sh)) (idempotency_records sh),
      rate_limits := erase_all H (expired_sample RateLimitRecord_IsExpired now n (rate_limits sh)) (rate_limits sh)\<rparr>"
    using rel by (simp add: sh'_def purge_shard_def Let_def s1(2) flip: ek_def s1_def er_def s2_def)
  show "shard_inv H i sh'"
    using rel erase_all_inv [OF tabs(4)] erase_all_inv [OF tabs(2)] by (simp add: sh' shard_inv_def)
  show "now \<le> now' \<Longrightarrow> idem.visible now' (Find H k (idempotency_records sh')) = idem.visible now' (Find H k (idempotency_records sh))"
    by (simp add: sh' idem.purge_visible [OF tabs(4)])
  show "now \<le> now' \<Longrightarrow> rate.visible now' (Find H k (rate_limits sh')) = rate.visible now' (Find H k (rate_limits sh))"
    by (simp add: sh' rate.purge_visible [OF tabs(2)])
  show "now \<le> now' \<Longrightarrow> resv.visible now' (Find H rid (reservations sh')) = resv.visible now' (Find H rid (reservations sh))"
    using rel er [of rid] resv.expired_later [of _ now now'] by (cases "rid \<in> set er") (auto simp: sh')
  show "entry.visible now' (Find H k (entries sh')) = entry.visible now' (Find H k (entries sh))"
    if "now \<le> now'" and other: "\<And>rid q. Find H rid (reservations sh) = Some q \<Longrightarrow> res_key q = k \<Longrightarrow> \<not> Reservation_IsExpired q now"
  proof -
    have "res_key q \<noteq> k" if "r \<in> set er" "Find H r (reservations sh) = Some q" for r q
      using other [OF that(2)] er [OF that(1)] that(2) by auto
    then have "Find H k (entries s2) = Find H k (entries s1)" using rel [of k] by auto
    then show ?thesis using entry.purge_visible [OF tabs(1) that(1), of k n] by (simp add: sh' s1_def ek_def)
  qed
  show "ledger_in H k sh' = ledger_in H k sh"
    if small: "\<forall>k. ledger_in H k sh < 2 ^ 64" and live: "entry.visible now (Find H k (entries sh)) = Find H k (entries sh)"
  proof -
    have find1: "Find H k (entries s1) = (if k \<in> set ek then None else Find H k (entries sh))" for k
      by (simp add: s1_def erase_all_Find [OF tabs(1)])
    have "reserved_in k s1 = reserved_in k sh" for k by (rule reserved_in_cong) (rule s1(2))
    then have le: "ledger_in H k s1 \<le> ledger_in H k sh" for k
      by (simp add: ledger_in_def target_balance_def find1)
    have "k \<notin> set ek" using live expired_sample_expired [OF tabs(1), of k "\<lambda>e. EntryMetadata_IsExpired (meta e)" now n]
      by (auto simp: ek_def entry.visible_def split: if_splits)
    then have "ledger_in H k s1 = ledger_in H k sh"
      using \<open>\<And>k. reserved_in k s1 = reserved_in k sh\<close> by (simp add: ledger_in_def target_balance_def find1)
    moreover have "ledger_in H k s2 = ledger_in H k s1"
      using rel [of k] small le by (meson le_less_trans)
    moreover have "ledger_in H k sh' = ledger_in H k s2"
      by (simp add: sh' ledger_in_def target_balance_def reserved_in_def)
    ultimately show ?thesis by simp
  qed
qed

section \<open>The sweep of the store\<close>

lemma ledger_elsewhere:
  assumes "shard_inv H i sh" "GetShard k \<noteq> i"
  shows "ledger_in H k sh = 0"
proof -
  note tabs = shard_inv_tables [OF assms(1)]
  have other: "res_key r \<noteq> k" if "Find H rid (reservations sh) = Some r" for rid r
    using table_inv_Find [OF tabs(3) that] assms(2) by (auto simp: resv_ok_def)
  have "reserved_in k sh = 0"
    unfolding reserved_in_def ht.sum_entries [OF table_inv_ht [OF tabs(3)]]
    by (intro sum.neutral) (auto dest: other)
  moreover have "Find H k (entries sh) = None"
    using table_inv_Find [OF tabs(1)] assms(2) by (cases "Find H k (entries sh)") (auto simp: entry_ok_def)
  ultimately show ?thesis by (simp add: ledger_in_def target_balance_def)
qed

lemma purge_shards:
  assumes "store_inv H st"
  shows "shards (snd (MemoryStore_PurgeExpired H now n st)) ! GetShard k =
    snd (purge_shard H now n (shards st ! GetShard k))"
  using assms by (simp add: MemoryStore_PurgeExpired_def Let_def)

lemma purge_store_inv:
  assumes "store_inv H st"
  shows "store_inv H (snd (MemoryStore_PurgeExpired H now n st))"
  using assms purge_shard_step(1) by (simp add: MemoryStore_PurgeExpired_def Let_def store_inv_def)

lemma purge_contents:
  assumes "store_inv H st" "now \<le> now'"
    and "\<And>rid q. resv_at H st k rid = Some q \<Longrightarrow> res_key q = k \<Longrightarrow> \<not> Reservation_IsExpired q now"
  shows "entry.visible now' (entry_at H (snd (MemoryStore_PurgeExpired H now n st)) k) = entry.visible now' (entry_at H st k)"
  using purge_shard_step(5) [OF store_inv_shard [OF assms(1)] assms(2), of k k n] assms(3)
  by (simp add: entry_at_def resv_at_def purge_shards [OF assms(1)])

lemma four_le: "a \<le> n \<Longrightarrow> b \<le> n \<Longrightarrow> c \<le> n \<Longrightarrow> d \<le> n \<Longrightarrow> a + b + c + d \<le> 4 * (n :: nat)"
  by simp

lemma sum_list_bound: "(\<And>x. f x \<le> (m :: nat)) \<Longrightarrow> sum_list (map f xs) \<le> length xs * m"
  by (induction xs) (auto intro: add_mono)

section \<open>Properties\<close>





end
