(* ===== verification/GK_Parking_Lot.thy ===== *)
theory GK_Parking_Lot
  imports GK_Prelude "HOL-Library.AList" "HOL-Library.Multiset"
begin

text \<open>
  The parking lot, \<open>src/domain/idempotency/parking_lot.cpp\<close>: requests that wait for the outcome of an
  idempotent operation. A callback is a number that identifies it; an operation returns the calls it
  makes. The hash map of waiters is an association list whose order stands for the order of iteration.

  Shown: a callback that was accepted is called exactly once, unless its waiter is cancelled or the lot
  is cleared; a broadcast wakes everybody waiting on its key and a purge everybody whose time is up.
\<close>

section \<open>The lot\<close>

record Waiter =
  waiter_id :: u64
  callback :: nat
  timeout_at_ms :: u64

type_synonym ParkingLot = "(string \<times> Waiter list) list"

datatype wake_call = Wake (wake_callback: nat) (wake_code: int) (wake_body: string) (wake_timed_out: bool)

text \<open>An empty callback is \<open>None\<close>.\<close>

definition ParkingLot_Park :: "string \<Rightarrow> u64 \<Rightarrow> nat option \<Rightarrow> u64 \<Rightarrow> ParkingLot \<Rightarrow> bool \<times> ParkingLot" where
  "ParkingLot_Park key wid cb timeout_at lot =
     (if key = [] \<or> wid = 0 then (False, lot)
      else case cb of
        None \<Rightarrow> (False, lot)
      | Some c \<Rightarrow>
          let lst = (case map_of lot key of None \<Rightarrow> [] | Some l \<Rightarrow> l)
          in if wid \<in> waiter_id ` set lst then (False, AList.update key lst lot)
             else (True, AList.update key (lst @ [\<lparr>waiter_id = wid, callback = c, timeout_at_ms = timeout_at\<rparr>]) lot))"

definition BroadcastAndUnpark :: "string \<Rightarrow> int \<Rightarrow> string \<Rightarrow> ParkingLot \<Rightarrow> wake_call list \<times> ParkingLot" where
  "BroadcastAndUnpark key code body lot =
     (case map_of lot key of
        None \<Rightarrow> ([], lot)
      | Some to_wake \<Rightarrow> (map (\<lambda>w. Wake (callback w) code body False) to_wake, AList.delete key lot))"

text \<open>The first waiter with the identifier, and the list without it.\<close>

fun cancel_in :: "u64 \<Rightarrow> Waiter list \<Rightarrow> (Waiter \<times> Waiter list) option" where
  "cancel_in wid [] = None"
| "cancel_in wid (w # ws) =
     (if waiter_id w = wid then Some (w, ws) else map_option (apsnd (Cons w)) (cancel_in wid ws))"

definition ParkingLot_Cancel :: "string \<Rightarrow> u64 \<Rightarrow> ParkingLot \<Rightarrow> bool \<times> ParkingLot" where
  "ParkingLot_Cancel key wid lot =
     (case map_of lot key of
        None \<Rightarrow> (False, lot)
      | Some lst \<Rightarrow>
          (case cancel_in wid lst of
             None \<Rightarrow> (False, lot)
           | Some (_, rest) \<Rightarrow> (True, if rest = [] then AList.delete key lot else AList.update key rest lot)))"

definition due :: "u64 \<Rightarrow> Waiter \<Rightarrow> bool" where
  "due now w \<longleftrightarrow> timeout_at_ms w > 0 \<and> now \<ge> timeout_at_ms w"

definition timeout_body :: string where
  "timeout_body =
     ''{'' @ [CHR 0x22] @ ''error'' @ [CHR 0x22] @ '':{'' @ [CHR 0x22] @ ''code'' @ [CHR 0x22] @ '':'' @ [CHR 0x22]
     @ ''ERR_GATEWAY_TIMEOUT'' @ [CHR 0x22] @ '','' @ [CHR 0x22] @ ''message'' @ [CHR 0x22] @ '':'' @ [CHR 0x22]
     @ ''Upstream execution timed out while parked'' @ [CHR 0x22] @ ''}}''"

definition PurgeTimeout :: "u64 \<Rightarrow> ParkingLot \<Rightarrow> wake_call list \<times> ParkingLot" where
  "PurgeTimeout now lot =
     (let timed_out = concat (map (\<lambda>(key, lst). filter (due now) lst) lot);
          kept = map (\<lambda>(key, lst). (key, filter (\<lambda>w. \<not> due now w) lst)) lot
      in (map (\<lambda>w. Wake (callback w) 504 timeout_body True) timed_out, filter (\<lambda>(key, lst). lst \<noteq> []) kept))"

definition WaiterCount :: "string \<Rightarrow> ParkingLot \<Rightarrow> nat" where
  "WaiterCount key lot = (case map_of lot key of None \<Rightarrow> 0 | Some lst \<Rightarrow> length lst)"

definition TotalWaiters :: "ParkingLot \<Rightarrow> nat" where
  "TotalWaiters lot = sum_list (map (\<lambda>(_, lst). length lst) lot)"

definition ParkingLot_Clear :: "ParkingLot \<Rightarrow> ParkingLot" where
  "ParkingLot_Clear lot = []"

section \<open>Invariant\<close>

definition lot_inv :: "ParkingLot \<Rightarrow> bool" where
  "lot_inv lot \<longleftrightarrow> distinct (map fst lot) \<and> list_all (\<lambda>(k, l). l \<noteq> [] \<and> distinct (map waiter_id l)) lot"

lemma lot_inv_update:
  "lot_inv lot \<Longrightarrow> l \<noteq> [] \<Longrightarrow> distinct (map waiter_id l) \<Longrightarrow> lot_inv (AList.update k l lot)"
proof -
  have "list_all P xs \<Longrightarrow> P (k, l) \<Longrightarrow> list_all P (AList.update k l xs)" for P xs
    by (induction xs) auto
  then show "lot_inv lot \<Longrightarrow> l \<noteq> [] \<Longrightarrow> distinct (map waiter_id l) \<Longrightarrow> ?thesis"
    by (simp add: lot_inv_def distinct_update)
qed

lemma lot_inv_delete: "lot_inv lot \<Longrightarrow> lot_inv (AList.delete k lot)"
  using distinct_delete [of lot k] by (auto simp: lot_inv_def list_all_iff AList.delete_eq)

lemma lot_inv_list: "lot_inv lot \<Longrightarrow> map_of lot k = Some l \<Longrightarrow> l \<noteq> [] \<and> distinct (map waiter_id l)"
  by (auto simp: lot_inv_def list_all_iff dest!: map_of_SomeD)

lemma cancel_in_Some:
  "cancel_in wid l = Some (w, r) \<Longrightarrow> mset l = add_mset w (mset r) \<and> waiter_id w = wid"
  by (induction l arbitrary: r) (auto split: if_splits)

lemma cancel_in_distinct:
  assumes "cancel_in wid l = Some (w, r)" "distinct (map waiter_id l)"
  shows "distinct (map waiter_id r)"
proof -
  have "mset (map waiter_id l) = mset (map waiter_id (w # r))"
    using cancel_in_Some [OF assms(1)] by simp
  then show ?thesis using assms(2) by (metis distinct.simps(2) list.simps(9) mset_eq_imp_distinct_iff)
qed

section \<open>Every waiter is accounted for\<close>

definition present :: "ParkingLot \<Rightarrow> nat multiset" where
  "present lot = mset (map callback (concat (map snd lot)))"

lemma present_update:
  assumes "distinct (map fst lot)"
  shows "present (AList.update k l lot) + mset (map callback (case map_of lot k of None \<Rightarrow> [] | Some l' \<Rightarrow> l'))
       = present lot + mset (map callback l)"
  using assms by (induction lot) (auto simp: present_def split: option.splits)

lemma present_delete:
  assumes "distinct (map fst lot)"
  shows "present (AList.delete k lot) + mset (map callback (case map_of lot k of None \<Rightarrow> [] | Some l' \<Rightarrow> l')) = present lot"
  using assms
proof (induction lot)
  case (Cons x lot)
  have "k \<notin> fst ` set lot \<Longrightarrow> AList.delete k lot = lot" by (simp add: delete_idem)
  then show ?case using Cons by (cases x) (auto simp: present_def split: option.splits)
qed (simp add: present_def)

datatype lot_op =
    L_Park string u64 "nat option" u64 | L_Broadcast string int string | L_Cancel string u64 | L_Purge u64 | L_Clear

text \<open>The callbacks an operation accepts, the calls it makes, and the callbacks it gives up.\<close>

fun lot_exec :: "lot_op \<Rightarrow> ParkingLot \<Rightarrow> (nat list \<times> wake_call list \<times> nat list) \<times> ParkingLot" where
  "lot_exec (L_Park key wid cb timeout_at) lot =
     (case ParkingLot_Park key wid cb timeout_at lot of (b, lot') \<Rightarrow> ((case cb of Some c \<Rightarrow> if b then [c] else [] | None \<Rightarrow> [], [], []), lot'))"
| "lot_exec (L_Broadcast key code body) lot =
     (case BroadcastAndUnpark key code body lot of (wakes, lot') \<Rightarrow> (([], wakes, []), lot'))"
| "lot_exec (L_Cancel key wid) lot =
     (([], [], case map_of lot key of
                 None \<Rightarrow> []
               | Some lst \<Rightarrow> (case cancel_in wid lst of None \<Rightarrow> [] | Some (w, _) \<Rightarrow> [callback w])),
      snd (ParkingLot_Cancel key wid lot))"
| "lot_exec (L_Purge now) lot = (case PurgeTimeout now lot of (wakes, lot') \<Rightarrow> (([], wakes, []), lot'))"
| "lot_exec L_Clear lot = (([], [], map callback (concat (map snd lot))), ParkingLot_Clear lot)"

fun lot_run :: "lot_op list \<Rightarrow> ParkingLot \<Rightarrow> (nat list \<times> wake_call list \<times> nat list) \<times> ParkingLot" where
  "lot_run [] lot = (([], [], []), lot)"
| "lot_run (x # xs) lot =
     (case lot_exec x lot of ((a, c, g), lot1) \<Rightarrow>
        (case lot_run xs lot1 of ((a', c', g'), lot2) \<Rightarrow> ((a @ a', c @ c', g @ g'), lot2)))"

lemma ParkingLot_Park_inv:
  assumes "lot_inv lot"
  shows "lot_inv (snd (ParkingLot_Park key wid (Some c) t lot))"
proof -
  define lst where "lst = (case map_of lot key of None \<Rightarrow> [] | Some l \<Rightarrow> l)"
  have d: "distinct (map waiter_id lst)"
    using lot_inv_list [OF assms, of key] by (simp add: lst_def split: option.split)
  have ne: "wid \<in> waiter_id ` set lst \<Longrightarrow> lst \<noteq> []" by auto
  show ?thesis
  proof (cases "wid \<in> waiter_id ` set lst")
    case True
    then show ?thesis using assms lot_inv_update [OF assms ne d] by (simp add: ParkingLot_Park_def flip: lst_def)
  next
    case False
    then show ?thesis
      using assms d lot_inv_update [OF assms, of "lst @ [\<lparr>waiter_id = wid, callback = c, timeout_at_ms = t\<rparr>]" key]
      by (simp add: ParkingLot_Park_def flip: lst_def)
  qed
qed

lemma ParkingLot_Cancel_inv:
  assumes "lot_inv lot"
  shows "lot_inv (snd (ParkingLot_Cancel key wid lot))"
proof (cases "Option.bind (map_of lot key) (cancel_in wid)")
  case None
  then show ?thesis using assms by (auto simp: ParkingLot_Cancel_def split: option.splits)
next
  case (Some y)
  then obtain l w r where l: "map_of lot key = Some l" "cancel_in wid l = Some (w, r)"
    by (cases y) (auto simp: bind_eq_Some_conv)
  have "distinct (map waiter_id r)" using cancel_in_distinct [OF l(2)] lot_inv_list [OF assms l(1)] by simp
  then show ?thesis using l lot_inv_delete [OF assms] lot_inv_update [OF assms] by (simp add: ParkingLot_Cancel_def)
qed

lemma PurgeTimeout_lot:
  "snd (PurgeTimeout now lot)
   = filter (\<lambda>x. snd x \<noteq> []) (map (\<lambda>x. (fst x, filter (\<lambda>w. \<not> due now w) (snd x))) lot)"
  by (simp add: PurgeTimeout_def case_prod_beta')

lemma PurgeTimeout_inv:
  assumes "lot_inv lot"
  shows "lot_inv (snd (PurgeTimeout now lot))"
proof -
  let ?kept = "map (\<lambda>x. (fst x, filter (\<lambda>w. \<not> due now w) (snd x))) lot"
  have "map fst ?kept = map fst lot" by simp
  then have "distinct (map fst ?kept)" using assms by (simp only: lot_inv_def)
  then have d: "distinct (map fst (filter (\<lambda>x. snd x \<noteq> []) ?kept))" by (rule distinct_map_filter)
  have "distinct (map waiter_id (filter P (snd x)))" if "x \<in> set lot" for x P
    using that assms by (cases x) (auto simp: lot_inv_def list_all_iff distinct_map_filter)
  then have "list_all (\<lambda>x. snd x \<noteq> [] \<and> distinct (map waiter_id (snd x))) (filter (\<lambda>x. snd x \<noteq> []) ?kept)"
    by (auto simp: list_all_iff)
  with d show ?thesis unfolding PurgeTimeout_lot lot_inv_def case_prod_beta' by blast
qed

lemma lot_exec_inv: "lot_inv lot \<Longrightarrow> lot_inv (snd (lot_exec x lot))"
proof (cases x)
  case (L_Park key wid cb t)
  then show "lot_inv lot \<Longrightarrow> ?thesis"
    using ParkingLot_Park_inv [of lot key wid _ t] by (cases cb) (simp_all add: case_prod_beta ParkingLot_Park_def)
next
  case (L_Broadcast key code body)
  then show "lot_inv lot \<Longrightarrow> ?thesis"
    by (simp add: BroadcastAndUnpark_def lot_inv_delete split: option.split)
qed (simp_all add: ParkingLot_Cancel_inv PurgeTimeout_inv case_prod_beta ParkingLot_Clear_def lot_inv_def [of "[]"])

lemma present_push:
  assumes "distinct (map fst lot)"
  shows "present (AList.update k ((case map_of lot k of None \<Rightarrow> [] | Some l \<Rightarrow> l) @ ws) lot) = present lot + mset (map callback ws)"
  using present_update [OF assms, of k "(case map_of lot k of None \<Rightarrow> [] | Some l \<Rightarrow> l) @ ws"] by simp

lemma ParkingLot_Park_balance:
  assumes "distinct (map fst lot)" and "ParkingLot_Park key wid (Some c) t lot = (b, lot')"
  shows "present lot' = present lot + (if b then {#c#} else {#})"
  using assms(2) present_push [OF assms(1), of key "[]"]
    present_push [OF assms(1), of key "[\<lparr>waiter_id = wid, callback = c, timeout_at_ms = t\<rparr>]"]
  by (auto simp: ParkingLot_Park_def Let_def simp del: AList.update.simps split: if_splits)

lemma ParkingLot_Cancel_balance:
  assumes "distinct (map fst lot)" and "map_of lot key = Some l" and "cancel_in wid l = Some (w, r)"
  shows "present lot = add_mset (callback w) (present (snd (ParkingLot_Cancel key wid lot)))"
proof -
  have l: "mset (map callback l) = add_mset (callback w) (mset (map callback r))"
    using cancel_in_Some [OF assms(3)] by simp
  show ?thesis
  proof (cases "r = []")
    case True
    then show ?thesis using present_delete [OF assms(1), of key] l assms(2,3) by (simp add: ParkingLot_Cancel_def)
  next
    case False
    then show ?thesis using present_update [OF assms(1), of key r] l assms(2,3) by (simp add: ParkingLot_Cancel_def)
  qed
qed

lemma purge_partition:
  "mset (map callback (concat (map (\<lambda>(key, lst). filter P lst) lot)))
   + present (filter (\<lambda>(key, lst). lst \<noteq> []) (map (\<lambda>(key, lst). (key, filter (\<lambda>w. \<not> P w) lst)) lot)) = present lot"
proof (induction lot)
  case (Cons x lot)
  obtain k l where x: "x = (k, l)" by (cases x)
  have p: "mset (map callback (filter P l)) + mset (map callback (filter (\<lambda>w. \<not> P w) l)) = mset (map callback l)"
    by (simp flip: image_mset_union)
  have c: "present ((k', l') # lot') = mset (map callback l') + present lot'" for k' l' lot'
    by (simp add: present_def)
  show ?case
  proof (cases "filter (\<lambda>w. \<not> P w) l = []")
    case True
    then have "mset (map callback (filter P l)) = mset (map callback l)" using p by simp
    then show ?thesis using Cons x True by (simp add: c add.assoc)
  next
    case False
    then show ?thesis using Cons x p [symmetric] by (simp add: c ac_simps)
  qed
qed (simp add: present_def)

lemma lot_exec_balance:
  assumes "lot_inv lot" and "lot_exec x lot = ((a, c, g), lot')"
  shows "present lot + mset a = mset (map wake_callback c) + mset g + present lot'"
proof -
  have d: "distinct (map fst lot)" using assms(1) by (simp add: lot_inv_def)
  show ?thesis
  proof (cases x)
    case (L_Park key wid cb t)
    show ?thesis
    proof (cases cb)
      case None
      then show ?thesis using assms(2) L_Park by (auto simp: ParkingLot_Park_def split: if_splits)
    next
      case (Some cb')
      obtain b lot1 where "ParkingLot_Park key wid (Some cb') t lot = (b, lot1)" by fastforce
      then show ?thesis using ParkingLot_Park_balance [OF d] assms(2) L_Park Some by auto
    qed
  next
    case (L_Broadcast key code body)
    then show ?thesis using assms(2) present_delete [OF d, of key]
      by (auto simp: BroadcastAndUnpark_def multiset.map_comp comp_def add.commute split: option.splits)
  next
    case (L_Cancel key wid)
    show ?thesis
    proof (cases "Option.bind (map_of lot key) (cancel_in wid)")
      case None
      then show ?thesis using assms(2) L_Cancel by (auto simp: ParkingLot_Cancel_def split: option.splits)
    next
      case (Some y)
      then show ?thesis using assms(2) L_Cancel ParkingLot_Cancel_balance [OF d]
        by (cases y) (auto simp: bind_eq_Some_conv)
    qed
  next
    case (L_Purge now)
    then show ?thesis using assms(2) purge_partition [of "due now" lot]
      by (auto simp: PurgeTimeout_def Let_def multiset.map_comp comp_def)
  next
    case L_Clear
    then show ?thesis using assms(2) by (auto simp: ParkingLot_Clear_def present_def)
  qed
qed

lemma lot_run_balance:
  assumes "lot_inv lot" and "lot_run xs lot = ((a, c, g), lot')"
  shows "lot_inv lot' \<and> present lot + mset a = mset (map wake_callback c) + mset g + present lot'"
  using assms
proof (induction xs arbitrary: lot a c g)
  case (Cons x xs)
  obtain a1 c1 g1 lot1 where x: "lot_exec x lot = ((a1, c1, g1), lot1)" by (metis prod.collapse)
  obtain a2 c2 g2 where xs: "lot_run xs lot1 = ((a2, c2, g2), lot')" "a = a1 @ a2" "c = c1 @ c2" "g = g1 @ g2"
    using Cons.prems(2) x by (auto split: prod.splits)
  have "lot_inv lot1" using lot_exec_inv [OF Cons.prems(1), of x] x by simp
  from Cons.IH [OF this xs(1)] lot_exec_balance [OF Cons.prems(1) x] show ?case
    by (simp add: xs ac_simps) (metis (no_types, lifting) add.assoc add.left_commute)
qed simp

lemma lot_inv_Nil: "lot_inv []"
  by (simp add: lot_inv_def)

text \<open>C23: No parked request is lost or answered twice. Over any sequence of operations on an empty
  lot, the callbacks that were accepted are exactly those that have been called, those given up by a
  cancellation or by clearing the lot, and those still waiting, each counted as often as it was accepted.\<close>

theorem parked_callbacks_accounted:
  assumes "lot_run ops [] = ((accepted, calls, given_up), lot)"
  shows "mset accepted = mset (map wake_callback calls) + mset given_up + mset (map callback (concat (map snd lot)))"
  using lot_run_balance [OF lot_inv_Nil assms] by (simp add: present_def)

theorem parked_callbacks_accounted_witness:
  "mset [1, 2, 3 :: nat] = mset (map wake_callback [Wake 1 200 ''done'' False, Wake 2 200 ''done'' False]) + mset [3] + mset []"
proof -
  have "lot_run [L_Park ''k'' 7 (Some 1) 0, L_Park ''k'' 8 (Some 2) 500, L_Park ''k'' 8 (Some 9) 0, L_Park ''j'' 7 (Some 3) 0,
      L_Cancel ''j'' 7, L_Broadcast ''k'' 200 ''done'', L_Purge 900] []
    = (([1, 2, 3], [Wake 1 200 ''done'' False, Wake 2 200 ''done'' False], [3]), [])"
    by code_simp
  from parked_callbacks_accounted [OF this] show ?thesis by simp
qed

lemma map_of_purged:
  assumes "distinct (map fst lot)"
  shows "map_of (snd (PurgeTimeout now lot)) k
    = (case map_of lot k of
         None \<Rightarrow> None
       | Some l \<Rightarrow> (case filter (\<lambda>w. \<not> due now w) l of [] \<Rightarrow> None | l' \<Rightarrow> Some l'))"
  unfolding PurgeTimeout_lot using assms
proof (induction lot)
  case (Cons x lot)
  have "map_of (filter P (map (\<lambda>x. (fst x, f x)) lot)) (fst x) = None" for P f
    using Cons.prems by (auto simp: map_of_eq_None_iff image_iff)
  moreover have "map_of lot (fst x) = None" using Cons.prems by (simp add: map_of_eq_None_iff)
  ultimately show ?case using Cons by (auto split: list.split)
qed simp



end
