(* ===== verification/GK_Json.thy ===== *)
theory GK_Json
  imports GK_Prelude
begin

text \<open>
  JSON in and out: the pull reader \<open>src/protocol/json_reader.cpp\<close> and the writers of
  \<open>src/protocol/response.cpp\<close>. A reader is its remaining input; an operation that throws
  \<open>std::invalid_argument\<close> returns the message on the left. The command handlers read objects with
  a loop over fields; \<open>read_fields\<close> is that loop, with the type each handler expects of a field.

  Shown: what a string prints as is read back exactly, whatever bytes it holds, and so are
  decimal numbers.
\<close>

type_synonym 'a reader = "string \<Rightarrow> string + ('a \<times> string)"

section \<open>The reader\<close>

definition Skip :: "string \<Rightarrow> string" where
  "Skip s = dropWhile isspace s"

definition Peek :: "string \<Rightarrow> char" where
  "Peek s = (case Skip s of [] \<Rightarrow> CHR 0x00 | c # r \<Rightarrow> c)"

definition Take :: "char \<Rightarrow> string \<Rightarrow> bool \<times> string" where
  "Take c s = (case Skip s of [] \<Rightarrow> (False, []) | x # r \<Rightarrow> if x = c then (True, r) else (False, x # r))"

definition Expect :: "char \<Rightarrow> unit reader" where
  "Expect c s = (case Take c s of (True, r) \<Rightarrow> Inr ((), r) | (False, r) \<Rightarrow> Inl (''expected '' @ [CHR 0x27, c, CHR 0x27]))"

definition End :: "unit reader" where
  "End s = (if Skip s = [] then Inr ((), []) else Inl ''unexpected trailing characters'')"

text \<open>Four hexadecimal digits.\<close>

definition hex_digit :: "char \<Rightarrow> nat option" where
  "hex_digit c =
     (let n = byte_val c in
      if 48 \<le> n \<and> n \<le> 57 then Some (n - 48)
      else if 97 \<le> n \<and> n \<le> 102 then Some (n - 97 + 10)
      else if 65 \<le> n \<and> n \<le> 70 then Some (n - 65 + 10)
      else None)"

fun hex_loop :: "nat \<Rightarrow> nat \<Rightarrow> nat reader" where
  "hex_loop 0 v s = Inr (v, s)"
| "hex_loop (Suc i) v [] = Inl ''incomplete unicode escape''"
| "hex_loop (Suc i) v (c # s) =
     (case hex_digit c of None \<Rightarrow> Inl ''invalid hex in unicode escape''
      | Some d \<Rightarrow> hex_loop i (v * 16 + d) s)"

lemma hex_loop_code [code]:
  "hex_loop i v s =
     (if i = 0 then Inr (v, s)
      else case s of [] \<Rightarrow> Inl ''incomplete unicode escape''
        | c # r \<Rightarrow> (case hex_digit c of None \<Rightarrow> Inl ''invalid hex in unicode escape''
                    | Some d \<Rightarrow> hex_loop (i - 1) (v * 16 + d) r))"
  by (cases i; cases s) (auto split: option.splits)

definition Hex :: "nat reader" where
  "Hex s = hex_loop 4 0 s"

definition AppendUtf8 :: "nat \<Rightarrow> string" where
  "AppendUtf8 cp =
     (if cp < 0x80 then [char_of cp]
      else if cp < 0x800
      then [char_of (0xC0 OR drop_bit 6 cp), char_of (0x80 OR (cp AND 0x3F))]
      else if cp < 0x10000
      then [char_of (0xE0 OR drop_bit 12 cp), char_of (0x80 OR (drop_bit 6 cp AND 0x3F)),
            char_of (0x80 OR (cp AND 0x3F))]
      else [char_of (0xF0 OR drop_bit 18 cp), char_of (0x80 OR (drop_bit 12 cp AND 0x3F)),
            char_of (0x80 OR (drop_bit 6 cp AND 0x3F)), char_of (0x80 OR (cp AND 0x3F))])"

definition simple_escape :: "char \<Rightarrow> char option" where
  "simple_escape esc =
     (if esc = CHR 0x22 \<or> esc = CHR 0x5C \<or> esc = CHR 0x2F then Some esc
      else if esc = CHR ''b'' then Some (CHR 0x08)
      else if esc = CHR ''f'' then Some (CHR 0x0C)
      else if esc = CHR ''n'' then Some (CHR 0x0A)
      else if esc = CHR ''r'' then Some (CHR 0x0D)
      else if esc = CHR ''t'' then Some (CHR 0x09)
      else None)"

text \<open>A unicode escape, after the \<open>u\<close>: one code unit, or a surrogate pair.\<close>

definition read_unicode :: "string reader" where
  "read_unicode s =
     (case Hex s of Inl e \<Rightarrow> Inl e | Inr (cp, s1) \<Rightarrow>
      if 0xD800 \<le> cp \<and> cp \<le> 0xDBFF
      then (if take 2 s1 \<noteq> [CHR 0x5C, CHR ''u'']
            then Inl ''missing low surrogate in unicode escape''
            else (case Hex (drop 2 s1) of
                    Inl e \<Rightarrow> Inl e
                  | Inr (low, s2) \<Rightarrow>
                      if low < 0xDC00 \<or> low > 0xDFFF
                      then Inl ''invalid low surrogate in unicode escape''
                      else Inr (AppendUtf8 (0x10000 + push_bit 10 (cp - 0xD800) + (low - 0xDC00)), s2)))
      else Inr (AppendUtf8 cp, s1))"

text \<open>The bytes an escape stands for; the input starts after the backslash.\<close>

definition read_escape :: "string reader" where
  "read_escape s0 =
     (case s0 of
        [] \<Rightarrow> Inl ''incomplete escape sequence''
      | esc # s \<Rightarrow>
          (case simple_escape esc of
             Some c \<Rightarrow> Inr ([c], s)
           | None \<Rightarrow> if esc = CHR ''u'' then read_unicode s
                     else Inl (''invalid escape sequence: '' @ [CHR 0x5C, esc])))"

lemma hex_loop_length: "hex_loop i v s = Inr (w, r) \<Longrightarrow> length r \<le> length s"
  by (induction i v s rule: hex_loop.induct) (auto split: option.splits)

lemma Hex_length: "Hex s = Inr (w, r) \<Longrightarrow> length r \<le> length s"
  unfolding Hex_def by (rule hex_loop_length)

lemma read_unicode_length: "read_unicode s = Inr (bs, r) \<Longrightarrow> length r \<le> length s"
  by (auto simp: read_unicode_def split: sum.splits if_splits dest!: Hex_length)

lemma read_escape_length: "read_escape s = Inr (bs, r) \<Longrightarrow> length r < length s"
  by (auto simp: read_escape_def split: list.splits option.splits if_splits dest!: read_unicode_length)

function read_chars :: "string \<Rightarrow> string reader" where
  "read_chars out [] = Inl ''unterminated string''"
| "read_chars out (c # s) =
     (if c = CHR 0x22 then Inr (out, s)
      else if c = CHR 0x5C
      then (case read_escape s of Inl e \<Rightarrow> Inl e | Inr (bs, r) \<Rightarrow> read_chars (out @ bs) r)
      else read_chars (out @ [c]) s)"
  by pat_completeness auto
termination
  by (relation "measure (\<lambda>(out, s). length s)") (auto dest: read_escape_length)

definition JsonReader_String :: "string reader" where
  "JsonReader_String s = (case Expect (CHR 0x22) s of Inl e \<Rightarrow> Inl e | Inr (u, r) \<Rightarrow> read_chars [] r)"

text \<open>Numbers wrap modulo \<open>2 ^ 64\<close>, as the unsigned accumulator does.\<close>

definition UnsignedNumber :: "u64 reader" where
  "UnsignedNumber s0 =
     (let s = Skip s0; ds = takeWhile isdigit s
      in if ds = [] then Inl ''expected unsigned number''
         else Inr (foldl (\<lambda>v c. v * 10 + of_nat (byte_val c - 48)) 0 ds, dropWhile isdigit s))"

definition SignedNumber :: "i64 reader" where
  "SignedNumber s0 =
     (case Skip s0 of
        [] \<Rightarrow> Inl ''expected signed number''
      | c # s \<Rightarrow>
          if c = CHR ''-''
          then (case UnsignedNumber s of Inl e \<Rightarrow> Inl e | Inr (v, r) \<Rightarrow> Inr (- v, r))
          else UnsignedNumber (if c = CHR ''+'' then s else c # s))"

definition JsonReader_Boolean :: "bool reader" where
  "JsonReader_Boolean s0 =
     (let s = Skip s0
      in if take 4 s = ''true'' then Inr (True, drop 4 s)
         else if take 5 s = ''false'' then Inr (False, drop 5 s)
         else Inl ''expected boolean value'')"

subsection \<open>Every read consumes input\<close>

lemma Skip_length: "length (Skip s) \<le> length s"
  by (simp add: Skip_def length_dropWhile_le)

lemma Take_cases: "Take c s = (b, r) \<Longrightarrow> Skip s = (if b then c # r else r)"
  by (auto simp: Take_def split: list.splits if_splits)

lemma Take_length: "Take c s = (b, r) \<Longrightarrow> length r \<le> length s"
  using Skip_length [of s] by (cases b) (simp_all add: Take_cases)

lemma Take_True_length: "Take c s = (True, r) \<Longrightarrow> length r < length s"
  using Skip_length [of s] by (auto simp: Take_def split: list.splits if_splits)

lemma Expect_length: "Expect c s = Inr (u, r) \<Longrightarrow> length r < length s"
  by (auto simp: Expect_def dest: Take_True_length split: prod.splits bool.splits)

lemma read_chars_length: "read_chars out s = Inr (v, r) \<Longrightarrow> length r < length s"
  by (induction out s rule: read_chars.induct)
    (fastforce split: if_splits sum.splits prod.splits dest!: read_escape_length)+

lemma String_length: "JsonReader_String s = Inr (v, r) \<Longrightarrow> length r < length s"
  by (auto simp: JsonReader_String_def split: sum.splits dest!: Expect_length read_chars_length)

lemma UnsignedNumber_length: "UnsignedNumber s = Inr (v, r) \<Longrightarrow> length r \<le> length s"
  using Skip_length [of s] length_dropWhile_le [of isdigit "Skip s"]
  by (auto simp: UnsignedNumber_def Let_def split: if_splits)

lemma SignedNumber_length: "SignedNumber s = Inr (v, r) \<Longrightarrow> length r \<le> length s"
  using Skip_length [of s]
  by (auto simp: SignedNumber_def split: list.splits if_splits sum.splits dest!: UnsignedNumber_length)

text \<open>The loop of \<open>StringArray\<close> after the opening bracket.\<close>

function read_strings :: "string list reader" where
  "read_strings s =
     (case JsonReader_String s of
        Inl e \<Rightarrow> Inl e
      | Inr (v, r) \<Rightarrow>
          (case Take (CHR 0x5D) r of
             (True, r1) \<Rightarrow> Inr ([v], r1)
           | (False, r1) \<Rightarrow>
               (case Expect (CHR 0x2C) r1 of
                  Inl e \<Rightarrow> Inl e
                | Inr (u, r2) \<Rightarrow>
                    (case read_strings r2 of Inl e \<Rightarrow> Inl e | Inr (vs, r3) \<Rightarrow> Inr (v # vs, r3)))))"
  by pat_completeness auto
termination
  by (relation "measure length") (auto dest!: String_length Expect_length dest: Take_length [OF sym])

declare read_strings.simps [simp del]

definition StringArray :: "string list reader" where
  "StringArray s =
     (case Expect (CHR 0x5B) s of
        Inl e \<Rightarrow> Inl e
      | Inr (u, r) \<Rightarrow> (case Take (CHR 0x5D) r of (True, r1) \<Rightarrow> Inr ([], r1) | (False, r1) \<Rightarrow> read_strings r1))"

section \<open>Fields of an object\<close>

text \<open>
  The handlers read an object field by field: its name, a colon, then a value of the type that
  name has in this command, or an error for a name the command does not know; \<open>TWord\<close> is a string
  that must be one of a list of words. The fields are
  returned in order, so that a repeated field overwrites an earlier one as assignment does.
\<close>

datatype ftype = TStr | TNum | TInt | TStrs | TBool | TWord "string list" string

datatype jval = JStr string | JNum u64 | JInt i64 | JStrs "string list" | JBool bool

fun read_value :: "ftype \<Rightarrow> jval reader" where
  "read_value TStr s = map_sum id (map_prod JStr id) (JsonReader_String s)"
| "read_value TNum s = map_sum id (map_prod JNum id) (UnsignedNumber s)"
| "read_value TInt s = map_sum id (map_prod JInt id) (SignedNumber s)"
| "read_value TStrs s = map_sum id (map_prod JStrs id) (StringArray s)"
| "read_value TBool s = map_sum id (map_prod JBool id) (JsonReader_Boolean s)"
| "read_value (TWord ws msg) s =
     (case JsonReader_String s of
        Inl e \<Rightarrow> Inl e
      | Inr (w, r) \<Rightarrow> if w \<in> set ws then Inr (JStr w, r) else Inl (msg @ w))"

definition read_field :: "(string \<Rightarrow> string + ftype) \<Rightarrow> (string \<times> jval) reader" where
  "read_field ty s =
     (case JsonReader_String s of
        Inl e \<Rightarrow> Inl e
      | Inr (field, r) \<Rightarrow>
          (case Expect (CHR 0x3A) r of
             Inl e \<Rightarrow> Inl e
           | Inr (u, r1) \<Rightarrow>
               (case ty field of
                  Inl e \<Rightarrow> Inl e
                | Inr t \<Rightarrow>
                    (case read_value t r1 of Inl e \<Rightarrow> Inl e | Inr (v, r2) \<Rightarrow> Inr ((field, v), r2)))))"

lemma read_strings_length: "read_strings s = Inr (v, r) \<Longrightarrow> length r < length s"
proof (induction s arbitrary: v rule: read_strings.induct)
  case (1 s)
  obtain x r0 where x: "JsonReader_String s = Inr (x, r0)"
    using "1.prems" by (subst (asm) read_strings.simps) (auto split: sum.splits)
  obtain b r1 where t: "Take (CHR 0x5D) r0 = (b, r1)" by fastforce
  have le: "length r1 < length s" using String_length [OF x] Take_length [OF t] by simp
  show ?case
  proof (cases b)
    case True
    then show ?thesis using "1.prems" le by (subst (asm) read_strings.simps) (simp add: x t)
  next
    case False
    then obtain r2 vs where e: "Expect (CHR 0x2C) r1 = Inr ((), r2)" and rs: "read_strings r2 = Inr (vs, r)"
      using "1.prems" by (subst (asm) read_strings.simps) (auto simp: x t split: sum.splits)
    show ?thesis
      using "1.IH" [OF x refl t [symmetric] _ e refl rs] False Expect_length [OF e] le by simp
  qed
qed

lemma StringArray_length: "StringArray s = Inr (v, r) \<Longrightarrow> length r < length s"
  by (auto simp: StringArray_def split: sum.splits prod.splits bool.splits
      dest!: Expect_length Take_length read_strings_length)

lemma Boolean_length: "JsonReader_Boolean s = Inr (v, r) \<Longrightarrow> length r \<le> length s"
  using Skip_length [of s] by (auto simp: JsonReader_Boolean_def Let_def split: if_splits)

lemma read_value_length: "read_value t s = Inr (v, r) \<Longrightarrow> length r \<le> length s"
  by (cases t) (auto simp: map_sum_def map_prod_def split: sum.splits prod.splits if_splits
      dest!: String_length UnsignedNumber_length SignedNumber_length StringArray_length Boolean_length)

lemma read_field_length: "read_field ty s = Inr (fv, r) \<Longrightarrow> length r < length s"
  by (auto simp: read_field_def split: sum.splits prod.splits
      dest!: String_length Expect_length read_value_length)

function read_fields :: "(string \<Rightarrow> string + ftype) \<Rightarrow> (string \<times> jval) list reader" where
  "read_fields ty s =
     (case read_field ty s of
        Inl e \<Rightarrow> Inl e
      | Inr (fv, r) \<Rightarrow>
          (case Take (CHR 0x7D) r of
             (True, r1) \<Rightarrow> Inr ([fv], r1)
           | (False, r1) \<Rightarrow>
               (case Expect (CHR 0x2C) r1 of
                  Inl e \<Rightarrow> Inl e
                | Inr (u, r2) \<Rightarrow>
                    (case read_fields ty r2 of Inl e \<Rightarrow> Inl e | Inr (fvs, r3) \<Rightarrow> Inr (fv # fvs, r3)))))"
  by pat_completeness auto
termination
  by (relation "measure (length \<circ> snd)") (auto dest!: read_field_length Expect_length dest: Take_length [OF sym])

declare read_fields.simps [simp del]

text \<open>The whole object and nothing after it; an empty object is accepted.\<close>

definition read_object :: "(string \<Rightarrow> string + ftype) \<Rightarrow> string \<Rightarrow> string + (string \<times> jval) list" where
  "read_object ty s =
     (case Expect (CHR 0x7B) s of
        Inl e \<Rightarrow> Inl e
      | Inr (u, r) \<Rightarrow>
          (case (case Take (CHR 0x7D) r of (True, r1) \<Rightarrow> Inr ([], r1) | (False, r1) \<Rightarrow> read_fields ty r1) of
             Inl e \<Rightarrow> Inl e
           | Inr (fvs, r2) \<Rightarrow> (case End r2 of Inl e \<Rightarrow> Inl e | Inr w \<Rightarrow> Inr fvs)))"

section \<open>The writer\<close>

definition hex_char :: "nat \<Rightarrow> char" where
  "hex_char n = ''0123456789abcdef'' ! n"

definition quote_char :: "char \<Rightarrow> string" where
  "quote_char c =
     (if c = CHR 0x22 then [CHR 0x5C, CHR 0x22]
      else if c = CHR 0x5C then [CHR 0x5C, CHR 0x5C]
      else if c = CHR 0x0A then [CHR 0x5C, CHR ''n'']
      else if c = CHR 0x0D then [CHR 0x5C, CHR ''r'']
      else if c = CHR 0x09 then [CHR 0x5C, CHR ''t'']
      else if c = CHR 0x08 then [CHR 0x5C, CHR ''b'']
      else if c = CHR 0x0C then [CHR 0x5C, CHR ''f'']
      else if byte_val c < 32
      then [CHR 0x5C, CHR ''u'', CHR ''0'', CHR ''0'', hex_char (byte_val c div 16), hex_char (byte_val c mod 16)]
      else [c])"

definition QuoteJson :: "string \<Rightarrow> string" where
  "QuoteJson value = [CHR 0x22] @ concat (map quote_char value) @ [CHR 0x22]"

definition json_key :: "string \<Rightarrow> string" where
  "json_key k = [CHR 0x22] @ k @ [CHR 0x22, CHR 0x3A]"

record Error =
  err_code :: string
  err_message :: string

definition EncodeSuccessResponse :: "string \<Rightarrow> string \<Rightarrow> string" where
  "EncodeSuccessResponse rid result_json =
     ''{'' @ json_key ''id'' @ QuoteJson rid @ '','' @ json_key ''ok'' @ ''true,''
     @ json_key ''result'' @ result_json @ ''}''"

definition EncodeErrorResponse :: "string \<Rightarrow> Error \<Rightarrow> string" where
  "EncodeErrorResponse rid err =
     ''{'' @ json_key ''id'' @ QuoteJson rid @ '','' @ json_key ''ok'' @ ''false,''
     @ json_key ''error'' @ ''{'' @ json_key ''code'' @ QuoteJson (err_code err) @ '',''
     @ json_key ''message'' @ QuoteJson (err_message err) @ ''}}''"

section \<open>What is written is read back\<close>

lemma Skip_nonspace [simp]: "\<not> isspace c \<Longrightarrow> Skip (c # s) = c # s"
  by (simp add: Skip_def)

lemma isspace_punctuation [simp]:
  "\<not> isspace (CHR 0x22)" "\<not> isspace (CHR 0x7B)" "\<not> isspace (CHR 0x7D)" "\<not> isspace (CHR 0x3A)"
  "\<not> isspace (CHR 0x2C)" "\<not> isspace (CHR 0x5B)" "\<not> isspace (CHR 0x5D)"
  by (simp_all add: isspace_def byte_val_def)

lemma Take_hit [simp]: "\<not> isspace c \<Longrightarrow> Take c (c # s) = (True, s)"
  by (simp add: Take_def)

lemma Take_miss [simp]: "\<not> isspace x \<Longrightarrow> x \<noteq> c \<Longrightarrow> Take c (x # s) = (False, x # s)"
  by (simp add: Take_def)

lemma Expect_hit [simp]: "\<not> isspace c \<Longrightarrow> Expect c (c # s) = Inr ((), s)"
  by (simp add: Expect_def)

lemma End_Nil [simp]: "End [] = Inr ((), [])"
  by (simp add: End_def Skip_def)

lemma hex_digit_hex_char [simp]: "d < 16 \<Longrightarrow> hex_digit (hex_char d) = Some d"
proof -
  assume "d < 16"
  then have "d \<in> set [0..<16]" by simp
  moreover have "list_all (\<lambda>d. hex_digit (hex_char d) = Some d) [0..<16]"
    by code_simp
  ultimately show ?thesis by (simp only: list_all_iff)
qed

lemma Hex_control:
  assumes "h * 16 + l = byte_val c" "h < 16" "l < 16" "byte_val c < 32"
  shows "Hex (CHR ''0'' # CHR ''0'' # hex_char h # hex_char l # s) = Inr (byte_val c, s)"
proof -
  have d: "hex_digit (CHR ''0'') = Some 0" by (simp add: hex_digit_def byte_val_def)
  have four: "4 = Suc (Suc (Suc (Suc 0)))" by simp
  show ?thesis
    using assms(2,3)
    unfolding Hex_def four
    by (simp only: hex_loop.simps d hex_digit_hex_char option.case mult_0 add_0 assms(1))
qed

lemma AppendUtf8_ascii: "n < 0x80 \<Longrightarrow> AppendUtf8 n = [char_of n]"
  by (simp add: AppendUtf8_def)

lemma read_escape_control:
  assumes "h * 16 + l = byte_val c" "h < 16" "l < 16" "byte_val c < 32"
  shows "read_escape (CHR ''u'' # CHR ''0'' # CHR ''0'' # hex_char h # hex_char l # s) = Inr ([c], s)"
  using Hex_control [OF assms, of s] AppendUtf8_ascii [of "byte_val c"] assms(4)
  by (simp add: read_escape_def read_unicode_def simple_escape_def)

lemma read_escape_simple: "simple_escape e = Some c \<Longrightarrow> read_escape (e # s) = Inr ([c], s)"
  by (simp add: read_escape_def)

lemma quote_char_cases:
  obtains (simple) e where "quote_char c = [CHR 0x5C, e]" "simple_escape e = Some c"
  | (control) h l where "quote_char c = [CHR 0x5C, CHR ''u'', CHR ''0'', CHR ''0'', hex_char h, hex_char l]"
      "h * 16 + l = byte_val c" "h < 16" "l < 16" "byte_val c < 32"
  | (plain) "quote_char c = [c]" "c \<noteq> CHR 0x22" "c \<noteq> CHR 0x5C" "\<not> byte_val c < 32"
proof -
  have esc: "simple_escape (CHR 0x22) = Some (CHR 0x22)" "simple_escape (CHR 0x5C) = Some (CHR 0x5C)"
    "simple_escape (CHR ''n'') = Some (CHR 0x0A)" "simple_escape (CHR ''r'') = Some (CHR 0x0D)"
    "simple_escape (CHR ''t'') = Some (CHR 0x09)" "simple_escape (CHR ''b'') = Some (CHR 0x08)"
    "simple_escape (CHR ''f'') = Some (CHR 0x0C)"
    by (simp_all add: simple_escape_def)
  define h l where "h = byte_val c div 16" and "l = byte_val c mod 16"
  have hl: "h * 16 + l = byte_val c" "l < 16" "byte_val c < 32 \<Longrightarrow> h < 16"
    by (simp_all add: h_def l_def)
  show thesis
  proof (cases "c \<in> {CHR 0x22, CHR 0x5C, CHR 0x0A, CHR 0x0D, CHR 0x09, CHR 0x08, CHR 0x0C}")
    case True
    then have "\<exists>e. quote_char c = [CHR 0x5C, e] \<and> simple_escape e = Some c"
      using esc by (auto simp: quote_char_def)
    then show thesis using simple by blast
  next
    case False
    then have q: "quote_char c = (if byte_val c < 32
        then [CHR 0x5C, CHR ''u'', CHR ''0'', CHR ''0'', hex_char h, hex_char l] else [c])"
      by (simp add: quote_char_def h_def l_def)
    show thesis
      using control [OF _ hl(1) _ hl(2)] hl(3) plain False q by (cases "byte_val c < 32") simp_all
  qed
qed

lemma read_chars_quote_char: "read_chars out (quote_char c @ s) = read_chars (out @ [c]) s"
proof (cases rule: quote_char_cases [of c])
  case (simple e)
  then show ?thesis by (simp add: read_escape_simple)
next
  case (control h l)
  then show ?thesis by (simp add: read_escape_control)
next
  case plain
  then show ?thesis by simp
qed

lemma read_chars_quoted:
  "read_chars out (concat (map quote_char v) @ CHR 0x22 # rest) = Inr (out @ v, rest)"
  by (induction v arbitrary: out) (simp_all add: read_chars_quote_char)

lemma String_QuoteJson [simp]: "JsonReader_String (QuoteJson v @ rest) = Inr (v, rest)"
  using read_chars_quoted [of "[]" v rest] by (simp add: JsonReader_String_def QuoteJson_def)

lemma String_json_key [simp]:
  assumes "\<forall>c \<in> set k. c \<noteq> CHR 0x22 \<and> c \<noteq> CHR 0x5C"
  shows "JsonReader_String (json_key k @ rest) = Inr (k, CHR 0x3A # rest)"
proof -
  have "read_chars out (k @ CHR 0x22 # r) = Inr (out @ k, r)" for out r
    using assms by (induction k arbitrary: out) auto
  then show ?thesis by (simp add: JsonReader_String_def json_key_def)
qed

lemma foldl_digits:
  "foldl (\<lambda>v c. v * 10 + of_nat (byte_val c - 48)) (of_nat a) ds
   = (of_nat (foldl (\<lambda>v c. v * 10 + (byte_val c - 48)) a ds) :: u64)"
proof (induction ds arbitrary: a)
  case (Cons d ds)
  show ?case using Cons [of "a * 10 + (byte_val d - 48)"] by simp
qed simp

lemma UnsignedNumber_to_dec:
  assumes "rest = [] \<or> \<not> isdigit (hd rest)"
  shows "UnsignedNumber (to_dec n @ rest) = Inr (of_nat n, rest)"
proof -
  have sk: "Skip (to_dec n @ rest) = to_dec n @ rest"
    using hd_to_dec_isdigit [of n] isdigit_not_isspace
    by (cases "to_dec n") (auto simp: Skip_def)
  have tw: "takeWhile isdigit (to_dec n @ rest) = to_dec n" "dropWhile isdigit (to_dec n @ rest) = rest"
    using assms by (cases rest; simp add: takeWhile_append dropWhile_append)+
  have "foldl (\<lambda>v c. v * 10 + of_nat (byte_val c - 48)) 0 (to_dec n) = (of_nat n :: u64)"
    using foldl_digits [of 0 "to_dec n"] by (simp add: dec_value_def [symmetric])
  then show ?thesis
    by (simp add: UnsignedNumber_def Let_def sk tw)
qed

lemma UnsignedNumber_to_string:
  assumes "rest = [] \<or> \<not> isdigit (hd rest)"
  shows "UnsignedNumber (to_string_u64 n @ rest) = Inr (n, rest)"
  using UnsignedNumber_to_dec [OF assms] by (simp add: to_string_u64_def)

section \<open>Reading a longer text\<close>

text \<open>
  What a reader found in a text it also finds when more text follows, with that text in the rest.
  A number could go on, so its reader needs a character that ended it.
\<close>

lemma hex_loop_append: "hex_loop i v s = Inr (w, r) \<Longrightarrow> hex_loop i v (s @ q) = Inr (w, r @ q)"
  by (induction i v s rule: hex_loop.induct) (auto split: option.splits)

lemma Hex_append: "Hex s = Inr (w, r) \<Longrightarrow> Hex (s @ q) = Inr (w, r @ q)"
  unfolding Hex_def by (rule hex_loop_append)

lemma read_unicode_append:
  assumes "read_unicode s = Inr (bs, r)"
  shows "read_unicode (s @ q) = Inr (bs, r @ q)"
proof -
  obtain cp s1 where h: "Hex s = Inr (cp, s1)" using assms by (auto simp: read_unicode_def split: sum.splits)
  note hq = Hex_append [OF h, of q]
  show ?thesis
  proof (cases "0xD800 \<le> cp \<and> cp \<le> 0xDBFF")
    case True
    then have "take 2 s1 = [CHR 0x5C, CHR ''u'']"
      using assms h by (auto simp: read_unicode_def split: if_splits)
    then obtain s2 where u: "s1 = CHR 0x5C # CHR ''u'' # s2"
      by (cases s1; cases "tl s1") (auto simp: numeral_2_eq_2)
    obtain low s3 where l: "Hex s2 = Inr (low, s3)"
      using assms True by (auto simp: read_unicode_def h u split: sum.splits)
    show ?thesis
      using assms True Hex_append [OF l, of q] by (simp add: read_unicode_def h hq u l split: if_splits)
  qed (use assms in \<open>auto simp: read_unicode_def h hq\<close>)
qed

lemma read_escape_append: "read_escape s = Inr (bs, r) \<Longrightarrow> read_escape (s @ q) = Inr (bs, r @ q)"
  by (auto simp: read_escape_def read_unicode_append split: list.splits option.splits if_splits)

lemma read_chars_append: "read_chars out s = Inr (v, r) \<Longrightarrow> read_chars out (s @ q) = Inr (v, r @ q)"
proof (induction out s rule: read_chars.induct)
  case (2 out c s)
  show ?case
  proof (cases "c \<noteq> CHR 0x22 \<and> c = CHR 0x5C")
    case True
    then obtain bs t where e: "read_escape s = Inr (bs, t)" using "2.prems" by (auto split: sum.splits)
    then show ?thesis using "2.IH"(1) [OF _ _ e refl] "2.prems" True read_escape_append [OF e, of q] by simp
  qed (use "2.prems" "2.IH"(2) in \<open>auto split: if_splits\<close>)
qed simp

lemma Skip_append: "Skip s \<noteq> [] \<Longrightarrow> Skip (s @ q) = Skip s @ q"
  by (induction s) (auto simp: Skip_def split: if_splits)

lemma Take_append: "Take c s = (b, r) \<Longrightarrow> r \<noteq> [] \<or> b \<Longrightarrow> Take c (s @ q) = (b, r @ q)"
  using Skip_append [of s q] by (auto simp: Take_def split: list.splits if_splits)

lemma Expect_append: "Expect c s = Inr (u, r) \<Longrightarrow> Expect c (s @ q) = Inr (u, r @ q)"
  using Take_append [of c s True r q] by (auto simp: Expect_def split: prod.splits bool.splits)

lemma String_append: "JsonReader_String s = Inr (v, r) \<Longrightarrow> JsonReader_String (s @ q) = Inr (v, r @ q)"
  by (auto simp: JsonReader_String_def Expect_append read_chars_append split: sum.splits)

lemma UnsignedNumber_append:
  assumes "UnsignedNumber s = Inr (v, r)" "r \<noteq> []"
  shows "UnsignedNumber (s @ q) = Inr (v, r @ q)"
proof -
  have ne: "Skip s \<noteq> []" and r: "dropWhile isdigit (Skip s) = r"
    using assms by (auto simp: UnsignedNumber_def Let_def split: if_splits)
  have "takeWhile isdigit (Skip s @ q) = takeWhile isdigit (Skip s) \<and> dropWhile isdigit (Skip s @ q) = r @ q"
    using assms(2) r by (induction "Skip s" arbitrary: s) (auto simp: takeWhile_append dropWhile_append dropWhile_eq_Nil_conv)
  then show ?thesis
    using assms(1) Skip_append [OF ne, of q] by (simp add: UnsignedNumber_def Let_def split: if_splits)
qed

lemma SignedNumber_append:
  assumes "SignedNumber s = Inr (v, r)" "r \<noteq> []"
  shows "SignedNumber (s @ q) = Inr (v, r @ q)"
proof -
  obtain c t where t: "Skip s = c # t" using assms by (cases "Skip s") (auto simp: SignedNumber_def)
  then have "Skip (s @ q) = c # t @ q" using Skip_append [of s q] by simp
  then show ?thesis
    using assms t UnsignedNumber_append [of t _ r q] UnsignedNumber_append [of "c # t" _ r q]
    by (auto simp: SignedNumber_def split: if_splits sum.splits)
qed

lemma read_strings_append: "read_strings s = Inr (v, r) \<Longrightarrow> read_strings (s @ q) = Inr (v, r @ q)"
proof (induction s arbitrary: v rule: read_strings.induct)
  case (1 s)
  obtain x r0 where x: "JsonReader_String s = Inr (x, r0)"
    using "1.prems" by (subst (asm) read_strings.simps) (auto split: sum.splits)
  obtain b r1 where t: "Take (CHR 0x5D) r0 = (b, r1)" by fastforce
  show ?case
  proof (cases b)
    case True
    then show ?thesis
      using "1.prems" Take_append [OF t, of q] String_append [OF x, of q]
      by (subst (asm) read_strings.simps, subst read_strings.simps) (simp add: x t)
  next
    case False
    then obtain r2 vs where e: "Expect (CHR 0x2C) r1 = Inr ((), r2)" and rs: "read_strings r2 = Inr (vs, r)" and v: "v = x # vs"
      using "1.prems" by (subst (asm) read_strings.simps) (auto simp: x t split: sum.splits)
    have "r1 \<noteq> []" using Expect_length [OF e] by auto
    then show ?thesis
      using "1.IH" [OF x refl t [symmetric] _ e refl rs] Take_append [OF t, of q] String_append [OF x, of q]
        Expect_append [OF e, of q] False v
      by (subst read_strings.simps) simp
  qed
qed

lemma StringArray_append: "StringArray s = Inr (v, r) \<Longrightarrow> StringArray (s @ q) = Inr (v, r @ q)"
proof -
  assume "StringArray s = Inr (v, r)"
  then obtain r0 where e: "Expect (CHR 0x5B) s = Inr ((), r0)"
    and sa: "(case Take (CHR 0x5D) r0 of (True, r1) \<Rightarrow> Inr ([], r1) | (False, r1) \<Rightarrow> read_strings r1) = Inr (v, r)"
    by (auto simp: StringArray_def split: sum.splits)
  obtain b r1 where t: "Take (CHR 0x5D) r0 = (b, r1)" by fastforce
  have "b \<or> r1 \<noteq> []" using sa t read_strings_length [of r1 v r] by (cases b) auto
  then show ?thesis
    using sa t Take_append [OF t, of q] Expect_append [OF e, of q]
    by (cases b) (auto simp: StringArray_def read_strings_append)
qed

lemma Boolean_append:
  assumes "JsonReader_Boolean s = Inr (v, r)"
  shows "JsonReader_Boolean (s @ q) = Inr (v, r @ q)"
proof -
  have ne: "Skip s \<noteq> []" using assms by (auto simp: JsonReader_Boolean_def Let_def split: if_splits)
  have len: "take 4 (Skip s) = ''true'' \<Longrightarrow> 4 \<le> length (Skip s)" "take 5 (Skip s) = ''false'' \<Longrightarrow> 5 \<le> length (Skip s)"
    by (auto dest: arg_cong [of _ _ length])
  show ?thesis
    using assms len by (auto simp: JsonReader_Boolean_def Let_def Skip_append [OF ne] split: if_splits)
qed

lemma read_value_append:
  assumes "read_value ty s = Inr (v, r)" "r \<noteq> []"
  shows "read_value ty (s @ q) = Inr (v, r @ q)"
  using assms
  by (cases ty) (auto simp: map_sum_def map_prod_def String_append UnsignedNumber_append SignedNumber_append
      StringArray_append Boolean_append split: sum.splits prod.splits if_splits)

lemma read_field_append:
  assumes "read_field ty s = Inr (fv, r)" "r \<noteq> []"
  shows "read_field ty (s @ q) = Inr (fv, r @ q)"
  using assms
  by (auto simp: read_field_def String_append Expect_append read_value_append split: sum.splits prod.splits)

lemma read_fields_length: "read_fields ty s = Inr (v, r) \<Longrightarrow> length r < length s"
proof (induction ty s arbitrary: v rule: read_fields.induct)
  case (1 ty s)
  obtain x r0 where x: "read_field ty s = Inr (x, r0)"
    using "1.prems" by (subst (asm) read_fields.simps) (auto split: sum.splits)
  obtain b r1 where t: "Take (CHR 0x7D) r0 = (b, r1)" by fastforce
  have le: "length r1 < length s" using read_field_length [OF x] Take_length [OF t] by simp
  show ?case
  proof (cases b)
    case True
    then show ?thesis using "1.prems" le by (subst (asm) read_fields.simps) (simp add: x t)
  next
    case False
    then obtain r2 vs where e: "Expect (CHR 0x2C) r1 = Inr ((), r2)" and rs: "read_fields ty r2 = Inr (vs, r)"
      using "1.prems" by (subst (asm) read_fields.simps) (auto simp: x t split: sum.splits)
    show ?thesis
      using "1.IH" [OF x refl t [symmetric] _ e refl rs] False Expect_length [OF e] le by simp
  qed
qed

lemma read_fields_append: "read_fields ty s = Inr (v, r) \<Longrightarrow> read_fields ty (s @ q) = Inr (v, r @ q)"
proof (induction ty s arbitrary: v rule: read_fields.induct)
  case (1 ty s)
  obtain x r0 where x: "read_field ty s = Inr (x, r0)"
    using "1.prems" by (subst (asm) read_fields.simps) (auto split: sum.splits)
  obtain b r1 where t: "Take (CHR 0x7D) r0 = (b, r1)" by fastforce
  have skip: "Skip r0 = [] \<Longrightarrow> \<not> b \<and> r1 = []" using Take_cases [OF t] by (cases b) auto
  show ?case
  proof (cases b)
    case True
    then have "r0 \<noteq> []" using skip by (auto simp: Skip_def)
    then show ?thesis
      using "1.prems" Take_append [OF t, of q] read_field_append [OF x, of q] True
      by (subst (asm) read_fields.simps, subst read_fields.simps) (simp add: x t)
  next
    case False
    then obtain r2 vs where e: "Expect (CHR 0x2C) r1 = Inr ((), r2)" and rs: "read_fields ty r2 = Inr (vs, r)" and v: "v = x # vs"
      using "1.prems" by (subst (asm) read_fields.simps) (auto simp: x t split: sum.splits)
    have r1: "r1 \<noteq> []" using Expect_length [OF e] by auto
    then have "r0 \<noteq> []" using skip by (auto simp: Skip_def)
    then show ?thesis
      using "1.IH" [OF x refl t [symmetric] _ e refl rs] Take_append [OF t, of q] read_field_append [OF x, of q]
        Expect_append [OF e, of q] False v r1
      by (subst read_fields.simps) simp
  qed
qed

text \<open>If an object is a whole text, no longer text that is one can begin with it, but for white space.\<close>

lemma read_object_prefix:
  assumes "read_object ty p = Inr x" "read_object ty (p @ q) = Inr y"
  shows "Skip q = []"
proof -
  obtain r where e: "Expect (CHR 0x7B) p = Inr ((), r)"
    using assms(1) by (auto simp: read_object_def split: sum.splits)
  obtain b r1 where t: "Take (CHR 0x7D) r = (b, r1)" by fastforce
  obtain fvs r2 where f: "(if b then Inr ([], r1) else read_fields ty r1) = Inr (fvs, r2)" and r2: "Skip r2 = []"
    using assms(1) e t by (cases b) (auto simp: read_object_def End_def split: sum.splits if_splits)
  have "b \<or> r1 \<noteq> []" using f read_fields_length [of ty r1 fvs r2] by (cases b) auto
  then have "Take (CHR 0x7D) (r @ q) = (b, r1 @ q)" using Take_append [OF t] by blast
  moreover have "(if b then Inr ([], r1 @ q) else read_fields ty (r1 @ q)) = Inr (fvs, r2 @ q)"
    using f by (cases b) (auto simp: read_fields_append)
  ultimately have "End (r2 @ q) = Inr ((), [])"
    using assms(2) Expect_append [OF e, of q] by (cases b) (auto simp: read_object_def End_def split: sum.splits if_splits)
  then show ?thesis
    using r2 by (auto simp: End_def Skip_def dropWhile_append split: if_splits)
qed

section \<open>Printed objects\<close>

text \<open>An object as a client prints it, and that the field loop reads exactly its fields.\<close>

fun print_strings :: "string list \<Rightarrow> string" where
  "print_strings [] = []"
| "print_strings [v] = QuoteJson v"
| "print_strings (v # w # vs) = QuoteJson v @ [CHR 0x2C] @ print_strings (w # vs)"

fun print_value :: "jval \<Rightarrow> string" where
  "print_value (JStr v) = QuoteJson v"
| "print_value (JNum n) = to_string_u64 n"
| "print_value (JInt n) = to_string_i64 n"
| "print_value (JStrs vs) = [CHR 0x5B] @ print_strings vs @ [CHR 0x5D]"
| "print_value (JBool b) = (if b then ''true'' else ''false'')"

fun has_type :: "jval \<Rightarrow> ftype \<Rightarrow> bool" where
  "has_type (JStr v) t = (case t of TStr \<Rightarrow> True | TWord ws msg \<Rightarrow> v \<in> set ws | _ \<Rightarrow> False)"
| "has_type (JNum n) t = (t = TNum)"
| "has_type (JInt n) t = (t = TInt)"
| "has_type (JStrs vs) t = (t = TStrs)"
| "has_type (JBool b) t = (t = TBool)"

fun print_fields :: "(string \<times> jval) list \<Rightarrow> string" where
  "print_fields [] = []"
| "print_fields [(f, v)] = QuoteJson f @ [CHR 0x3A] @ print_value v"
| "print_fields ((f, v) # fv # fvs) = QuoteJson f @ [CHR 0x3A] @ print_value v @ [CHR 0x2C] @ print_fields (fv # fvs)"

definition print_object :: "(string \<times> jval) list \<Rightarrow> string" where
  "print_object fvs = [CHR 0x7B] @ print_fields fvs @ [CHR 0x7D]"

definition well_typed :: "(string \<Rightarrow> string + ftype) \<Rightarrow> (string \<times> jval) list \<Rightarrow> bool" where
  "well_typed ty fvs \<longleftrightarrow> list_all (\<lambda>(f, v). case ty f of Inl e \<Rightarrow> False | Inr t \<Rightarrow> has_type v t) fvs"

lemma read_strings_print:
  "vs \<noteq> [] \<Longrightarrow> read_strings (print_strings vs @ CHR 0x5D # rest) = Inr (vs, rest)"
  by (induction vs rule: print_strings.induct) (simp_all add: read_strings.simps)

lemma StringArray_print: "StringArray (CHR 0x5B # print_strings vs @ CHR 0x5D # rest) = Inr (vs, rest)"
proof (cases vs)
  case (Cons v ws)
  then obtain t where "print_strings vs @ CHR 0x5D # rest = CHR 0x22 # t"
    by (cases ws) (auto simp: QuoteJson_def)
  then show ?thesis using read_strings_print [of vs rest] Cons by (simp add: StringArray_def)
qed (simp add: StringArray_def)

lemma SignedNumber_print:
  assumes "rest \<noteq> []" "\<not> isdigit (hd rest)"
  shows "SignedNumber (to_string_i64 n @ rest) = Inr (n, rest)"
proof (cases "sint n < 0")
  case True
  then show ?thesis
    using UnsignedNumber_to_dec [of rest "nat (- sint n)"] assms
    by (simp add: to_string_i64_def SignedNumber_def of_nat_nat_neg_sint)
next
  case False
  let ?d = "to_dec (nat (sint n))"
  obtain c r where c: "?d = c # r" using hd_to_dec_isdigit [of "nat (sint n)"] by (cases ?d) auto
  then have "isdigit c" using hd_to_dec_isdigit [of "nat (sint n)"] by simp
  then have "\<not> isspace c" "c \<noteq> CHR ''-''" "c \<noteq> CHR ''+''"
    using isdigit_not_isspace by (auto simp: isdigit_def byte_val_def)
  then show ?thesis
    using UnsignedNumber_to_dec [of rest "nat (sint n)"] assms False c
    by (simp add: to_string_i64_def SignedNumber_def of_nat_nat_sint)
qed

lemma Boolean_print: "JsonReader_Boolean ((if b then ''true'' else ''false'') @ rest) = Inr (b, rest)"
  by (simp add: JsonReader_Boolean_def Let_def Skip_def isspace_def byte_val_def)

lemma read_value_print:
  assumes "has_type v t" "rest \<noteq> []" "\<not> isdigit (hd rest)"
  shows "read_value t (print_value v @ rest) = Inr (v, rest)"
proof (cases v)
  case (JBool b)
  then show ?thesis using assms Boolean_print [of b rest] by simp
qed (use assms in \<open>auto simp: UnsignedNumber_to_string SignedNumber_print StringArray_print split: ftype.splits\<close>)

lemma read_field_print:
  assumes "ty f = Inr t" "has_type v t" "rest \<noteq> []" "\<not> isdigit (hd rest)"
  shows "read_field ty (QuoteJson f @ CHR 0x3A # print_value v @ rest) = Inr ((f, v), rest)"
  using assms read_value_print [of v t rest] by (simp add: read_field_def)

lemma isdigit_separator [simp]: "\<not> isdigit (CHR 0x2C)" "\<not> isdigit (CHR 0x7D)"
  by (simp_all add: isdigit_def byte_val_def)

lemma read_fields_print:
  assumes "well_typed ty fvs" "fvs \<noteq> []"
  shows "read_fields ty (print_fields fvs @ CHR 0x7D # rest) = Inr (fvs, rest)"
  using assms
proof (induction fvs rule: print_fields.induct)
  case (2 f v)
  then obtain t where "ty f = Inr t" "has_type v t" by (auto simp: well_typed_def split: sum.splits)
  then show ?case using read_field_print [of ty f t v "CHR 0x7D # rest"] by (simp add: read_fields.simps)
next
  case (3 f v fv fvs)
  then obtain t where "ty f = Inr t" "has_type v t" by (auto simp: well_typed_def split: sum.splits)
  moreover have "read_fields ty (print_fields (fv # fvs) @ CHR 0x7D # rest) = Inr (fv # fvs, rest)"
    using 3 by (auto simp: well_typed_def)
  ultimately show ?case
    using read_field_print [of ty f t v "CHR 0x2C # print_fields (fv # fvs) @ CHR 0x7D # rest"]
    by (subst read_fields.simps) simp
qed simp

lemma print_fields_start: "fvs \<noteq> [] \<Longrightarrow> \<exists>t. print_fields fvs = CHR 0x22 # t"
  by (cases fvs rule: print_fields.cases) (auto simp: QuoteJson_def)

lemma read_object_print:
  assumes "well_typed ty fvs"
  shows "read_object ty (print_object fvs) = Inr fvs"
proof (cases "fvs = []")
  case False
  obtain t where t: "print_fields fvs = CHR 0x22 # t" using print_fields_start [OF False] by blast
  show ?thesis using read_fields_print [OF assms False, of "[]"] t by (simp add: read_object_def print_object_def)
qed (simp add: read_object_def print_object_def)

end
