(* ===== verification/GK_String_Body.thy ===== *)
theory GK_String_Body
  imports GK_Json
begin

text \<open>
  The stricter object reader of the SET and GET commands, \<open>src/domain/kv/string_body.cpp\<close>: a flat
  object of strings, booleans and unsigned numbers with distinct names. Every failure throws the
  same exception, so a reader returns an option. The result is a \<open>std::map\<close>, here an association
  list in ascending order of the names: the order in which SET inspects the fields.

  Shown: a string this reader accepts is read with the same value by the general reader.
\<close>

section \<open>Tokens\<close>

definition sb_isspace :: "char \<Rightarrow> bool" where
  "sb_isspace c \<longleftrightarrow> c = CHR 0x20 \<or> c = CHR 0x09 \<or> c = CHR 0x0A \<or> c = CHR 0x0D"

definition sb_Skip :: "string \<Rightarrow> string" where
  "sb_Skip s = dropWhile sb_isspace s"

definition sb_Take :: "char \<Rightarrow> string \<Rightarrow> bool \<times> string" where
  "sb_Take c s = (case sb_Skip s of [] \<Rightarrow> (False, []) | x # r \<Rightarrow> if x = c then (True, r) else (False, x # r))"

definition sb_Expect :: "char \<Rightarrow> string \<Rightarrow> string option" where
  "sb_Expect c s = (case sb_Take c s of (True, r) \<Rightarrow> Some r | (False, r) \<Rightarrow> None)"

definition sb_Literal :: "string \<Rightarrow> string \<Rightarrow> string option" where
  "sb_Literal text s = (if take (length text) s = text then Some (drop (length text) s) else None)"

definition sb_Number :: "string \<Rightarrow> (u64 \<times> string) option" where
  "sb_Number s0 =
     (let s = sb_Skip s0; ds = takeWhile isdigit s
      in if ds = [] then None
         else Some (foldl (\<lambda>v c. v * 10 + of_nat (byte_val c - 48)) 0 ds, dropWhile isdigit s))"

fun sb_hex_loop :: "nat \<Rightarrow> nat \<Rightarrow> string \<Rightarrow> (nat \<times> string) option" where
  "sb_hex_loop 0 v s = Some (v, s)"
| "sb_hex_loop (Suc i) v [] = None"
| "sb_hex_loop (Suc i) v (c # s) =
     (case hex_digit c of None \<Rightarrow> None | Some d \<Rightarrow> sb_hex_loop i (v * 16 + d) s)"

lemma sb_hex_loop_code [code]:
  "sb_hex_loop i v s =
     (if i = 0 then Some (v, s)
      else case s of [] \<Rightarrow> None
        | c # r \<Rightarrow> (case hex_digit c of None \<Rightarrow> None | Some d \<Rightarrow> sb_hex_loop (i - 1) (v * 16 + d) r))"
  by (cases i; cases s) (auto split: option.splits)

definition sb_Hex :: "string \<Rightarrow> (nat \<times> string) option" where
  "sb_Hex s = sb_hex_loop 4 0 s"

definition sb_Utf8 :: "nat \<Rightarrow> string" where
  "sb_Utf8 cp =
     (if cp < 0x80 then [char_of cp]
      else if cp < 0x800
      then [char_of (0xC0 OR drop_bit 6 cp), char_of (0x80 OR (cp AND 63))]
      else if cp < 0x10000
      then [char_of (0xE0 OR drop_bit 12 cp), char_of (0x80 OR (drop_bit 6 cp AND 63)),
            char_of (0x80 OR (cp AND 63))]
      else [char_of (0xF0 OR drop_bit 18 cp), char_of (0x80 OR (drop_bit 12 cp AND 63)),
            char_of (0x80 OR (drop_bit 6 cp AND 63)), char_of (0x80 OR (cp AND 63))])"

definition sb_unicode :: "string \<Rightarrow> (string \<times> string) option" where
  "sb_unicode s =
     (case sb_Hex s of None \<Rightarrow> None | Some (cp, s1) \<Rightarrow>
      if 0xD800 \<le> cp \<and> cp \<le> 0xDBFF
      then (case sb_Literal [CHR 0x5C, CHR ''u''] s1 of
              None \<Rightarrow> None
            | Some s2 \<Rightarrow>
                (case sb_Hex s2 of
                   None \<Rightarrow> None
                 | Some (low, s3) \<Rightarrow>
                     if low < 0xDC00 \<or> low > 0xDFFF then None
                     else Some (sb_Utf8 (0x10000 + push_bit 10 (cp - 0xD800) + low - 0xDC00), s3)))
      else if 0xDC00 \<le> cp \<and> cp \<le> 0xDFFF then None
      else Some (sb_Utf8 cp, s1))"

definition sb_escape :: "string \<Rightarrow> (string \<times> string) option" where
  "sb_escape s0 =
     (case s0 of
        [] \<Rightarrow> None
      | esc # s \<Rightarrow>
          (case simple_escape esc of
             Some c \<Rightarrow> Some ([c], s)
           | None \<Rightarrow> if esc = CHR ''u'' then sb_unicode s else None))"

lemma sb_hex_loop_length: "sb_hex_loop i v s = Some (w, r) \<Longrightarrow> length r \<le> length s"
  by (induction i v s rule: sb_hex_loop.induct) (auto split: option.splits)

lemma sb_unicode_length: "sb_unicode s = Some (bs, r) \<Longrightarrow> length r \<le> length s"
  by (auto simp: sb_unicode_def sb_Hex_def sb_Literal_def split: option.splits if_splits dest!: sb_hex_loop_length)

lemma sb_escape_length: "sb_escape s = Some (bs, r) \<Longrightarrow> length r < length s"
  by (auto simp: sb_escape_def split: list.splits option.splits if_splits dest!: sb_unicode_length)

function sb_chars :: "string \<Rightarrow> string \<Rightarrow> (string \<times> string) option" where
  "sb_chars out [] = None"
| "sb_chars out (c # s) =
     (if c = CHR 0x22 then Some (out, s)
      else if byte_val c < 0x20 then None
      else if c \<noteq> CHR 0x5C then sb_chars (out @ [c]) s
      else (case sb_escape s of None \<Rightarrow> None | Some (bs, r) \<Rightarrow> sb_chars (out @ bs) r))"
  by pat_completeness auto
termination
  by (relation "measure (\<lambda>(out, s). length s)") (auto dest: sb_escape_length)

definition sb_String :: "string \<Rightarrow> (string \<times> string) option" where
  "sb_String s = (case sb_Expect (CHR 0x22) s of None \<Rightarrow> None | Some r \<Rightarrow> sb_chars [] r)"

section \<open>Bodies\<close>

datatype BodyValue = BV_String string | BV_Bool bool | BV_Number u64

type_synonym StringBody = "(string \<times> BodyValue) list"

fun string_less :: "string \<Rightarrow> string \<Rightarrow> bool" where
  "string_less [] [] = False"
| "string_less [] (c # s) = True"
| "string_less (c # s) [] = False"
| "string_less (c # s) (d # t) = (byte_val c < byte_val d \<or> c = d \<and> string_less s t)"

text \<open>\<open>emplace\<close> keeps the order and fails on a name that is already there.\<close>

fun emplace :: "string \<Rightarrow> 'v \<Rightarrow> (string \<times> 'v) list \<Rightarrow> (string \<times> 'v) list option" where
  "emplace k v [] = Some [(k, v)]"
| "emplace k v ((k', v') # m) =
     (if k = k' then None
      else if string_less k k' then Some ((k, v) # (k', v') # m)
      else map_option (Cons (k', v')) (emplace k v m))"

definition sb_value :: "string \<Rightarrow> (BodyValue \<times> string) option" where
  "sb_value s0 =
     (let s = sb_Skip s0
      in if s \<noteq> [] \<and> hd s = CHR 0x22 then map_option (map_prod BV_String id) (sb_String s)
         else case sb_Literal ''true'' s of
             Some r \<Rightarrow> Some (BV_Bool True, r)
           | None \<Rightarrow>
               (case sb_Literal ''false'' s of
                  Some r \<Rightarrow> Some (BV_Bool False, r)
                | None \<Rightarrow>
                    if s \<noteq> [] \<and> isdigit (hd s) then map_option (map_prod BV_Number id) (sb_Number s)
                    else None))"

lemma sb_Skip_length: "length (sb_Skip s) \<le> length s"
  by (simp add: sb_Skip_def length_dropWhile_le)

lemma sb_Take_cases: "sb_Take c s = (b, r) \<Longrightarrow> sb_Skip s = (if b then c # r else r)"
  by (auto simp: sb_Take_def split: list.splits if_splits)

lemma sb_Take_length: "sb_Take c s = (b, r) \<Longrightarrow> length r \<le> length s"
  using sb_Skip_length [of s] by (cases b) (simp_all add: sb_Take_cases)

lemma sb_Expect_Some: "sb_Expect c s = Some r \<longleftrightarrow> sb_Skip s = c # r"
  by (auto simp: sb_Expect_def sb_Take_def split: list.splits if_splits)

lemma sb_Expect_length: "sb_Expect c s = Some r \<Longrightarrow> length r < length s"
  using sb_Skip_length [of s] by (simp add: sb_Expect_Some)

lemma sb_chars_length: "sb_chars out s = Some (v, r) \<Longrightarrow> length r < length s"
  by (induction out s rule: sb_chars.induct)
    (fastforce split: if_splits option.splits prod.splits dest!: sb_escape_length)+

lemma sb_String_length: "sb_String s = Some (v, r) \<Longrightarrow> length r < length s"
  by (auto simp: sb_String_def split: option.splits dest!: sb_Expect_length sb_chars_length)

lemma sb_value_length: "sb_value s = Some (v, r) \<Longrightarrow> length r \<le> length s"
  using sb_Skip_length [of s] sb_Skip_length [of "sb_Skip s"] length_dropWhile_le [of isdigit "sb_Skip (sb_Skip s)"]
  by (auto simp: sb_value_def sb_Literal_def sb_Number_def Let_def split: if_splits option.splits
      dest!: sb_String_length)

function sb_fields :: "StringBody \<Rightarrow> string \<Rightarrow> (StringBody \<times> string) option" where
  "sb_fields result s =
     (case sb_String s of
        None \<Rightarrow> None
      | Some (key, r) \<Rightarrow>
          (case sb_Expect (CHR 0x3A) r of
             None \<Rightarrow> None
           | Some r1 \<Rightarrow>
               (case sb_value r1 of
                  None \<Rightarrow> None
                | Some (v, r2) \<Rightarrow>
                    (case emplace key v result of
                       None \<Rightarrow> None
                     | Some result' \<Rightarrow>
                         (case sb_Take (CHR 0x7D) r2 of
                            (True, r3) \<Rightarrow> Some (result', r3)
                          | (False, r3) \<Rightarrow>
                              (case sb_Expect (CHR 0x2C) r3 of
                                 None \<Rightarrow> None
                               | Some r4 \<Rightarrow> sb_fields result' r4))))))"
  by pat_completeness auto
termination
  by (relation "measure (length \<circ> snd)")
    (auto dest!: sb_String_length sb_Expect_length sb_value_length dest: sb_Take_length [OF sym])

declare sb_fields.simps [simp del]

definition sb_message :: string where
  "sb_message = ''body must contain unique string or boolean fields''"

definition ParseStringBody :: "string \<Rightarrow> string + StringBody" where
  "ParseStringBody json =
     (case (case sb_Expect (CHR 0x7B) json of
              None \<Rightarrow> None
            | Some r \<Rightarrow>
                (case (case sb_Take (CHR 0x7D) r of
                         (True, r1) \<Rightarrow> Some ([], r1)
                       | (False, r1) \<Rightarrow> sb_fields [] r1) of
                   None \<Rightarrow> None
                 | Some (body, r2) \<Rightarrow> if sb_Skip r2 = [] then Some body else None)) of
        None \<Rightarrow> Inl sb_message
      | Some body \<Rightarrow> Inr body)"

section \<open>Agreement with the general reader\<close>

lemma sb_hex_loop_agrees: "sb_hex_loop i v s = Some x \<longleftrightarrow> hex_loop i v s = Inr x"
  by (induction i v s rule: hex_loop.induct) (simp_all split: option.splits)

lemma sb_Utf8_agrees: "sb_Utf8 = AppendUtf8"
  by (simp add: sb_Utf8_def AppendUtf8_def fun_eq_iff)

lemma sb_unicode_agrees: "sb_unicode s = Some x \<Longrightarrow> read_unicode s = Inr x"
  by (auto simp: sb_unicode_def read_unicode_def sb_Hex_def Hex_def sb_hex_loop_agrees sb_Utf8_agrees sb_Literal_def
      numeral_2_eq_2 split: option.splits if_splits)

lemma sb_escape_agrees: "sb_escape s = Some x \<Longrightarrow> read_escape s = Inr x"
  by (auto simp: sb_escape_def read_escape_def sb_unicode_agrees split: list.splits option.splits if_splits)

lemma sb_chars_agrees: "sb_chars out s = Some x \<Longrightarrow> read_chars out s = Inr x"
  by (induction out s rule: sb_chars.induct)
    (auto split: if_splits option.splits prod.splits dest!: sb_escape_agrees)

lemma sb_isspace_isspace: "sb_isspace c \<Longrightarrow> isspace c"
  by (auto simp: sb_isspace_def isspace_def byte_val_def)

lemma Skip_sb_Skip: "sb_Skip s = c # r \<Longrightarrow> \<not> isspace c \<Longrightarrow> Skip s = c # r"
  by (induction s) (auto simp: sb_Skip_def Skip_def dest: sb_isspace_isspace split: if_splits)

lemma sb_String_agrees: "sb_String s = Some x \<Longrightarrow> JsonReader_String s = Inr x"
  by (auto simp: sb_String_def JsonReader_String_def Expect_def Take_def sb_Expect_Some
      split: option.splits dest!: Skip_sb_Skip sb_chars_agrees)

section \<open>Reading printed bodies\<close>

text \<open>
  The canonical text of a body: the fields separated by commas, names and strings quoted by the
  server's own writer.
\<close>

fun print_value :: "BodyValue \<Rightarrow> string" where
  "print_value (BV_String v) = QuoteJson v"
| "print_value (BV_Bool b) = (if b then ''true'' else ''false'')"
| "print_value (BV_Number n) = to_string_u64 n"

fun print_fields :: "StringBody \<Rightarrow> string" where
  "print_fields [] = [CHR 0x7D]"
| "print_fields [(k, v)] = QuoteJson k @ CHR 0x3A # print_value v @ [CHR 0x7D]"
| "print_fields ((k, v) # f # fs) = QuoteJson k @ CHR 0x3A # print_value v @ CHR 0x2C # print_fields (f # fs)"

definition print_body :: "StringBody \<Rightarrow> string" where
  "print_body fs = CHR 0x7B # print_fields fs"

lemma sb_Skip_nonspace [simp]: "\<not> sb_isspace c \<Longrightarrow> sb_Skip (c # s) = c # s"
  by (simp add: sb_Skip_def)

lemma sb_isspace_punctuation [simp]:
  "\<not> sb_isspace (CHR 0x22)" "\<not> sb_isspace (CHR 0x7B)" "\<not> sb_isspace (CHR 0x7D)" "\<not> sb_isspace (CHR 0x3A)"
  "\<not> sb_isspace (CHR 0x2C)" "\<not> sb_isspace (CHR ''t'')" "\<not> sb_isspace (CHR ''f'')"
  by (simp_all add: sb_isspace_def)

lemma isdigit_not_sb_isspace: "isdigit c \<Longrightarrow> \<not> sb_isspace c"
  using isdigit_not_isspace sb_isspace_isspace by blast

lemma sb_escape_simple: "simple_escape e = Some c \<Longrightarrow> sb_escape (e # s) = Some ([c], s)"
  by (simp add: sb_escape_def)

lemma sb_escape_control:
  assumes "h * 16 + l = byte_val c" "h < 16" "l < 16" "byte_val c < 32"
  shows "sb_escape (CHR ''u'' # CHR ''0'' # CHR ''0'' # hex_char h # hex_char l # s) = Some ([c], s)"
proof -
  have "Hex (CHR ''0'' # CHR ''0'' # hex_char h # hex_char l # s) = Inr (byte_val c, s)"
    using Hex_control [OF assms] .
  then have "sb_Hex (CHR ''0'' # CHR ''0'' # hex_char h # hex_char l # s) = Some (byte_val c, s)"
    by (simp add: sb_Hex_def Hex_def sb_hex_loop_agrees)
  then show ?thesis
    using assms(4) AppendUtf8_ascii [of "byte_val c"]
    by (simp add: sb_escape_def sb_unicode_def simple_escape_def sb_Utf8_agrees)
qed

lemma sb_chars_quote_char: "sb_chars out (quote_char c @ s) = sb_chars (out @ [c]) s"
proof (cases rule: quote_char_cases [of c])
  case (simple e)
  then show ?thesis by (simp add: sb_escape_simple byte_val_def)
next
  case (control h l)
  then show ?thesis by (simp add: sb_escape_control byte_val_def)
next
  case plain
  then show ?thesis by simp
qed

lemma sb_chars_quoted: "sb_chars out (concat (map quote_char v) @ CHR 0x22 # rest) = Some (out @ v, rest)"
  by (induction v arbitrary: out) (simp_all add: sb_chars_quote_char)

lemma sb_Expect_hit [simp]: "\<not> sb_isspace c \<Longrightarrow> sb_Expect c (c # s) = Some s"
  by (simp add: sb_Expect_Some)

lemma sb_Take_hit [simp]: "\<not> sb_isspace c \<Longrightarrow> sb_Take c (c # s) = (True, s)"
  by (simp add: sb_Take_def)

lemma sb_Take_miss [simp]: "\<not> sb_isspace x \<Longrightarrow> x \<noteq> c \<Longrightarrow> sb_Take c (x # s) = (False, x # s)"
  by (simp add: sb_Take_def)

lemma sb_String_QuoteJson [simp]: "sb_String (QuoteJson v @ rest) = Some (v, rest)"
  using sb_chars_quoted [of "[]" v rest] by (simp add: sb_String_def QuoteJson_def)

lemma QuoteJson_Cons: "\<exists>t. QuoteJson v = CHR 0x22 # t"
  by (simp add: QuoteJson_def)

lemma sb_Number_to_string:
  assumes "\<not> isdigit c"
  shows "sb_Number (to_string_u64 n @ c # r) = Some (n, c # r)"
proof -
  have "UnsignedNumber (to_string_u64 n @ c # r) = Inr (n, c # r)"
    by (rule UnsignedNumber_to_string) (simp add: assms)
  moreover have "sb_Skip (to_string_u64 n @ c # r) = Skip (to_string_u64 n @ c # r)"
    using hd_to_dec_isdigit [of "unat n"]
    by (cases "to_dec (unat n)") (simp_all add: to_string_u64_def isdigit_not_sb_isspace isdigit_not_isspace)
  ultimately show ?thesis
    by (simp add: sb_Number_def UnsignedNumber_def Let_def split: if_splits)
qed

lemma sb_value_print:
  assumes "c = CHR 0x7D \<or> c = CHR 0x2C"
  shows "sb_value (print_value v @ c # r) = Some (v, c # r)"
proof (cases v)
  case (BV_String t)
  obtain u where u: "QuoteJson t = CHR 0x22 # u" using QuoteJson_Cons by blast
  have "sb_String (QuoteJson t @ c # r) = Some (t, c # r)" by (rule sb_String_QuoteJson)
  then show ?thesis using BV_String by (simp add: sb_value_def u)
next
  case (BV_Bool b)
  then show ?thesis by (simp add: sb_value_def sb_Literal_def)
next
  case (BV_Number n)
  have c: "\<not> isdigit c" using assms by (auto simp: isdigit_def byte_val_def)
  obtain d t where t: "to_string_u64 n = d # t" "isdigit d"
    using hd_to_dec_isdigit [of "unat n"] by (cases "to_dec (unat n)") (simp_all add: to_string_u64_def)
  have "d \<noteq> CHR 0x22" "d \<noteq> CHR ''t''" "d \<noteq> CHR ''f''"
    using t(2) by (auto simp: isdigit_def byte_val_def)
  then show ?thesis
    using BV_Number sb_Number_to_string [OF c, of n r] t isdigit_not_sb_isspace [OF t(2)]
    by (simp add: sb_value_def sb_Literal_def)
qed

lemma emplace_fresh:
  assumes "map_of m k = None"
  shows "\<exists>m'. emplace k v m = Some m' \<and> map_of m' = (map_of m)(k \<mapsto> v) \<and> length m' = Suc (length m)"
  using assms
proof (induction m)
  case (Cons x m)
  obtain k' v' where x: "x = (k', v')" by force
  show ?case
    using Cons by (cases "string_less k k'") (auto simp: x fun_eq_iff split: if_splits)
qed simp

lemma map_add_Cons: "map_of fs k = None \<Longrightarrow> m(k \<mapsto> v) ++ map_of fs = m ++ map_of ((k, v) # fs)"
  by (auto simp: fun_eq_iff map_add_def split: option.splits)

lemma sb_fields_print:
  assumes "fs \<noteq> []" "distinct (map fst fs)" "fst ` set fs \<inter> dom (map_of acc) = {}"
  shows "\<exists>b. sb_fields acc (print_fields fs @ rest) = Some (b, rest) \<and> map_of b = map_of acc ++ map_of fs \<and>
    length b = length acc + length fs"
  using assms
proof (induction fs arbitrary: acc rule: print_fields.induct)
  case (2 k v)
  obtain m where m: "emplace k v acc = Some m" "map_of m = (map_of acc)(k \<mapsto> v)" "length m = Suc (length acc)"
    using emplace_fresh [of acc k v] 2 by (auto simp: domIff)
  show ?case
    by (subst sb_fields.simps) (simp add: sb_value_print m)
next
  case (3 k v f fs)
  obtain m where m: "emplace k v acc = Some m" "map_of m = (map_of acc)(k \<mapsto> v)" "length m = Suc (length acc)"
    using emplace_fresh [of acc k v] 3 by (auto simp: domIff)
  have k: "k \<notin> fst ` set (f # fs)" using "3.prems"(2) by simp
  have d: "distinct (map fst (f # fs))" using "3.prems"(2) by simp
  have disj: "fst ` set (f # fs) \<inter> dom (map_of m) = {}"
    using "3.prems"(3) k by (auto simp: m(2))
  obtain b where b: "sb_fields m (print_fields (f # fs) @ rest) = Some (b, rest)"
    "map_of b = map_of m ++ map_of (f # fs)" "length b = length m + length (f # fs)"
    using "3.IH" [OF list.distinct(2) d disj] by blast
  have "map_of b = map_of acc ++ map_of ((k, v) # f # fs)"
    unfolding b(2) m(2) using k by (intro map_add_Cons) (simp only: map_of_eq_None_iff not_False_eq_True)
  then show ?case
    using b(1,3) by (subst sb_fields.simps) (simp add: sb_value_print m)
qed simp

lemma sb_fields_print_body:
  assumes "distinct (map fst fs)"
  shows "\<exists>b. ParseStringBody (print_body fs) = Inr b \<and> map_of b = map_of fs \<and> length b = length fs"
proof (cases fs)
  case Nil
  then show ?thesis by (simp add: ParseStringBody_def print_body_def sb_Skip_def)
next
  case (Cons f fs')
  obtain b where b: "sb_fields [] (print_fields fs @ []) = Some (b, [])" "map_of b = map_of fs" "length b = length fs"
    using sb_fields_print [of fs "[]" "[]"] assms Cons by auto
  obtain k v where "f = (k, v)" by force
  then obtain t where "print_fields fs = CHR 0x22 # t"
    using QuoteJson_Cons [of k] Cons by (cases fs') auto
  then show ?thesis
    using b by (simp add: ParseStringBody_def print_body_def sb_Skip_def)
qed

section \<open>Reading a longer text\<close>

lemma sb_hex_loop_append: "sb_hex_loop i v s = Some (w, r) \<Longrightarrow> sb_hex_loop i v (s @ q) = Some (w, r @ q)"
  using hex_loop_append by (simp add: sb_hex_loop_agrees)

lemma sb_Literal_append: "sb_Literal t s = Some r \<Longrightarrow> sb_Literal t (s @ q) = Some (r @ q)"
  by (auto simp: sb_Literal_def split: if_splits) (metis append_Nil diff_is_0_eq drop0 nat_le_linear take_all take_append)+

lemma sb_unicode_append: "sb_unicode s = Some (bs, r) \<Longrightarrow> sb_unicode (s @ q) = Some (bs, r @ q)"
  by (auto simp: sb_unicode_def sb_Hex_def sb_hex_loop_append sb_Literal_append split: option.splits if_splits)

lemma sb_escape_append: "sb_escape s = Some (bs, r) \<Longrightarrow> sb_escape (s @ q) = Some (bs, r @ q)"
  by (auto simp: sb_escape_def sb_unicode_append split: list.splits option.splits if_splits)

lemma sb_chars_append: "sb_chars out s = Some (v, r) \<Longrightarrow> sb_chars out (s @ q) = Some (v, r @ q)"
proof (induction out s rule: sb_chars.induct)
  case (2 out c s)
  show ?case
  proof (cases "c \<noteq> CHR 0x22 \<and> \<not> byte_val c < 0x20 \<and> c = CHR 0x5C")
    case True
    then obtain bs t where e: "sb_escape s = Some (bs, t)" using "2.prems" by (auto split: option.splits)
    then show ?thesis using "2.IH"(2) [OF _ _ _ e refl] "2.prems" True sb_escape_append [OF e, of q] by (simp add: byte_val_def)
  qed (use "2.prems" "2.IH"(1) in \<open>auto split: if_splits\<close>)
qed simp

lemma sb_Skip_append: "sb_Skip s \<noteq> [] \<Longrightarrow> sb_Skip (s @ q) = sb_Skip s @ q"
  by (induction s) (auto simp: sb_Skip_def split: if_splits)

lemma sb_Take_append: "sb_Take c s = (b, r) \<Longrightarrow> r \<noteq> [] \<or> b \<Longrightarrow> sb_Take c (s @ q) = (b, r @ q)"
  using sb_Skip_append [of s q] by (auto simp: sb_Take_def split: list.splits if_splits)

lemma sb_Expect_append: "sb_Expect c s = Some r \<Longrightarrow> sb_Expect c (s @ q) = Some (r @ q)"
  using sb_Skip_append [of s q] by (simp add: sb_Expect_Some)

lemma sb_String_append: "sb_String s = Some (v, r) \<Longrightarrow> sb_String (s @ q) = Some (v, r @ q)"
  by (auto simp: sb_String_def sb_Expect_append sb_chars_append split: option.splits)

lemma sb_Number_append:
  assumes "sb_Number s = Some (v, r)" "r \<noteq> []"
  shows "sb_Number (s @ q) = Some (v, r @ q)"
proof -
  have ne: "sb_Skip s \<noteq> []" and r: "dropWhile isdigit (sb_Skip s) = r"
    using assms by (auto simp: sb_Number_def Let_def split: if_splits)
  have "takeWhile isdigit (sb_Skip s @ q) = takeWhile isdigit (sb_Skip s) \<and> dropWhile isdigit (sb_Skip s @ q) = r @ q"
    using assms(2) r by (auto simp: takeWhile_append dropWhile_append dropWhile_eq_Nil_conv)
  then show ?thesis
    using assms(1) sb_Skip_append [OF ne, of q] by (simp add: sb_Number_def Let_def split: if_splits)
qed

lemma sb_Literal_other: "sb_Literal (x # t) (c # s) = (if c = x then sb_Literal t s else None)"
  by (simp add: sb_Literal_def)

lemma sb_value_append:
  assumes "sb_value s = Some (v, r)" "r \<noteq> []"
  shows "sb_value (s @ q) = Some (v, r @ q)"
proof -
  obtain c t where t: "sb_Skip s = c # t"
    using assms by (cases "sb_Skip s") (auto simp: sb_value_def sb_Literal_def)
  then have skip: "sb_Skip (s @ q) = (c # t) @ q" using sb_Skip_append [of s q] by simp
  note app = sb_Literal_append [of _ "c # t" _ q] sb_String_append [of "c # t" _ _ q] sb_Number_append [of "c # t" _ _ q]
  consider (str) "c = CHR 0x22" | (tr) "c = CHR ''t''" | (fl) "c = CHR ''f''"
    | (other) "c \<noteq> CHR 0x22" "c \<noteq> CHR ''t''" "c \<noteq> CHR ''f''" by blast
  then show ?thesis
  proof cases
    case str
    then show ?thesis using assms app by (auto simp: sb_value_def Let_def t skip)
  next
    case tr
    then show ?thesis using assms
      by (auto simp: sb_value_def Let_def t skip sb_Literal_other sb_Literal_append isdigit_def byte_val_def split: option.splits)
  next
    case fl
    then show ?thesis using assms
      by (auto simp: sb_value_def Let_def t skip sb_Literal_other sb_Literal_append isdigit_def byte_val_def split: option.splits)
  next
    case other
    then show ?thesis using assms app by (auto simp: sb_value_def Let_def t skip sb_Literal_other split: if_splits)
  qed
qed

lemma sb_fields_cases:
  assumes "sb_fields acc s = Some (b, r)"
  obtains key r0 r1 v r2 acc' c r3 where "sb_String s = Some (key, r0)" "sb_Expect (CHR 0x3A) r0 = Some r1"
    "sb_value r1 = Some (v, r2)" "emplace key v acc = Some acc'" "sb_Take (CHR 0x7D) r2 = (c, r3)"
    "(if c then Some (acc', r3) else case sb_Expect (CHR 0x2C) r3 of None \<Rightarrow> None | Some r4 \<Rightarrow> sb_fields acc' r4) = Some (b, r)"
proof -
  from assms show thesis
    by (subst (asm) sb_fields.simps)
      (auto split: option.splits prod.splits bool.splits intro: that)
qed

lemma sb_fields_unfold:
  assumes "sb_String s = Some (key, r0)" "sb_Expect (CHR 0x3A) r0 = Some r1"
    "sb_value r1 = Some (v, r2)" "emplace key v acc = Some acc'" "sb_Take (CHR 0x7D) r2 = (c, r3)"
  shows "sb_fields acc s =
    (if c then Some (acc', r3) else case sb_Expect (CHR 0x2C) r3 of None \<Rightarrow> None | Some r4 \<Rightarrow> sb_fields acc' r4)"
  using assms by (subst sb_fields.simps) (simp split: bool.splits)

lemma sb_fields_append: "sb_fields acc s = Some (b, r) \<Longrightarrow> sb_fields acc (s @ q) = Some (b, r @ q) \<and> s \<noteq> []"
proof (induction "length s" arbitrary: s acc rule: less_induct)
  case less
  from less.prems obtain key r0 r1 v r2 acc' c r3 where f: "sb_String s = Some (key, r0)" "sb_Expect (CHR 0x3A) r0 = Some r1"
    "sb_value r1 = Some (v, r2)" "emplace key v acc = Some acc'" "sb_Take (CHR 0x7D) r2 = (c, r3)"
    and rest: "(if c then Some (acc', r3) else case sb_Expect (CHR 0x2C) r3 of None \<Rightarrow> None | Some r4 \<Rightarrow> sb_fields acc' r4) = Some (b, r)"
    by (rule sb_fields_cases)
  have s: "s \<noteq> []" using sb_String_length [OF f(1)] by auto
  have skip: "sb_Skip r2 = (if c then CHR 0x7D # r3 else r3)" by (rule sb_Take_cases [OF f(5)])
  show ?case
  proof (cases c)
    case True
    then have "r2 \<noteq> []" using skip by (auto simp: sb_Skip_def)
    then show ?thesis
      using True rest s sb_fields_unfold [OF sb_String_append [OF f(1), of q] sb_Expect_append [OF f(2), of q]
          sb_value_append [OF f(3) \<open>r2 \<noteq> []\<close>, of q] f(4) sb_Take_append [OF f(5), of q]]
      by simp
  next
    case False
    then obtain r4 where r4: "sb_Expect (CHR 0x2C) r3 = Some r4" and rec: "sb_fields acc' r4 = Some (b, r)"
      using rest by (auto split: option.splits)
    have r3: "r3 \<noteq> []" using sb_Expect_length [OF r4] by auto
    then have "r2 \<noteq> []" using skip False by (auto simp: sb_Skip_def)
    moreover have "length r4 < length s"
      using sb_String_length [OF f(1)] sb_Expect_length [OF f(2)] sb_value_length [OF f(3)] sb_Take_length [OF f(5)]
        sb_Expect_length [OF r4] by simp
    ultimately show ?thesis
      using False s less.hyps [OF _ rec] sb_Expect_append [OF r4, of q]
        sb_fields_unfold [OF sb_String_append [OF f(1), of q] sb_Expect_append [OF f(2), of q]
          sb_value_append [OF f(3), of q] f(4) sb_Take_append [OF f(5), of q]] r3
      by simp
  qed
qed

lemma ParseStringBody_prefix:
  assumes "ParseStringBody p = Inr x" "ParseStringBody (p @ q) = Inr y"
  shows "sb_Skip q = []"
proof -
  obtain r where e: "sb_Expect (CHR 0x7B) p = Some r"
    using assms(1) by (auto simp: ParseStringBody_def split: option.splits)
  obtain b r1 where t: "sb_Take (CHR 0x7D) r = (b, r1)" by fastforce
  obtain body r2 where f: "(if b then Some ([], r1) else sb_fields [] r1) = Some (body, r2)" and r2: "sb_Skip r2 = []"
    using assms(1) e t by (cases b) (auto simp: ParseStringBody_def split: option.splits if_splits)
  have "b \<or> r1 \<noteq> []" using f sb_fields_append [of "[]" r1 body r2] by (cases b) auto
  then have "sb_Take (CHR 0x7D) (r @ q) = (b, r1 @ q)" using sb_Take_append [OF t] by blast
  moreover have "(if b then Some ([], r1 @ q) else sb_fields [] (r1 @ q)) = Some (body, r2 @ q)"
    using f sb_fields_append [of "[]" r1 body r2 q] by (cases b) auto
  ultimately have "sb_Skip (r2 @ q) = []"
    using assms(2) sb_Expect_append [OF e, of q] by (cases b) (auto simp: ParseStringBody_def split: if_splits)
  then show ?thesis
    using r2 by (auto simp: sb_Skip_def dropWhile_append split: if_splits)
qed

text \<open>a flat body of distinct string, boolean and unsigned fields, printed with the server's
  own string quoting, is parsed back to exactly those fields, whatever bytes the strings hold.\<close>

theorem string_body_roundtrip:
  assumes "distinct (map fst fs)"
  shows "\<exists>b. ParseStringBody (print_body fs) = Inr b \<and> map_of b = map_of fs"
  using sb_fields_print_body [OF assms] by blast

theorem string_body_roundtrip_witness:
  "\<exists>b. ParseStringBody (print_body [(''key'', BV_String ''a''), (''ttl_ms'', BV_Number 5)]) = Inr b
     \<and> map_of b = map_of [(''key'', BV_String ''a''), (''ttl_ms'', BV_Number 5)]"
  by (rule string_body_roundtrip) simp

end
