(* ===== verification/GK_Commands.thy ===== *)
theory GK_Commands
  imports GK_String_Body GK_Counters GK_Quota GK_Idempotency
begin

text \<open>
  The command handlers: \<open>src/domain/kv/string_ops.cpp\<close>, \<open>key_ops.cpp\<close>, \<open>ttl_ops.cpp\<close>,
  \<open>src/domain/ratelimit/counter_ops.cpp\<close>, \<open>src/domain/quota/reservation_ops.cpp\<close> and
  \<open>src/domain/idempotency/idempotency_ops.cpp\<close>, one definition per handler.

  A handler reads its arguments from the JSON body, calls the store and prints the answer. Every
  exception is thrown while the arguments are read, before the store is touched, so a handler is
  either a message on the left or the result with the new store. What a handler takes from its
  surroundings is a \<open>CallEnv\<close>: the standard library's string hash, the result of an out-of-range
  conversion and the successive readings of the clock.
\<close>

record CallEnv =
  std_hash :: hash_fn
  ub_cast :: "rat \<Rightarrow> u64"
  clock :: "nat \<Rightarrow> u64"

record Request =
  req_id :: string
  req_op :: string
  body_json :: string

datatype Result = Result (ok: bool) (result_json: string) (res_error: Error)

type_synonym handler = "CallEnv \<Rightarrow> string \<Rightarrow> MemoryStore \<Rightarrow> string + (Result \<times> MemoryStore)"

definition no_error :: Error where
  "no_error = \<lparr>err_code = [], err_message = []\<rparr>"

definition success :: "string \<Rightarrow> Result" where
  "success json = Result True json no_error"

definition failure :: "string \<Rightarrow> string \<Rightarrow> Result" where
  "failure c m = Result False [] \<lparr>err_code = c, err_message = m\<rparr>"

text \<open>The wrapper every handler is registered with.\<close>

definition Validated :: "handler \<Rightarrow> CallEnv \<Rightarrow> string \<Rightarrow> MemoryStore \<Rightarrow> Result \<times> MemoryStore" where
  "Validated h env body st =
     (case h env body st of
        Inl e \<Rightarrow> (failure ''INVALID_ARGUMENTS'' e, st)
      | Inr x \<Rightarrow> x)"

section \<open>Reading arguments\<close>

fun str_of :: "jval \<Rightarrow> string" where
  "str_of (JStr s) = s"
| "str_of _ = []"

fun num_of :: "jval \<Rightarrow> u64" where
  "num_of (JNum n) = n"
| "num_of _ = 0"

fun int_of :: "jval \<Rightarrow> i64" where
  "int_of (JInt n) = n"
| "int_of _ = 0"

fun strs_of :: "jval \<Rightarrow> string list" where
  "strs_of (JStrs ss) = ss"
| "strs_of _ = []"

fun bool_of :: "jval \<Rightarrow> bool" where
  "bool_of (JBool b) = b"
| "bool_of _ = False"

text \<open>An object with at least one field: the \<open>do\<close> loop of most handlers.\<close>

definition read_members :: "(string \<Rightarrow> string + ftype) \<Rightarrow> string \<Rightarrow> string + (string \<times> jval) list" where
  "read_members ty s =
     (case Expect (CHR 0x7B) s of
        Inl e \<Rightarrow> Inl e
      | Inr (u, r) \<Rightarrow>
          (case read_fields ty r of
             Inl e \<Rightarrow> Inl e
           | Inr (fvs, r2) \<Rightarrow> (case End r2 of Inl e \<Rightarrow> Inl e | Inr w \<Rightarrow> Inr fvs)))"

lemma read_members_print:
  assumes "well_typed ty fvs" "fvs \<noteq> []"
  shows "read_members ty (print_object fvs) = Inr fvs"
  using read_fields_print [OF assms, of "[]"] by (simp add: read_members_def print_object_def)

text \<open>An object with exactly one field, a string of a given name.\<close>

definition read_member_rest :: "string \<Rightarrow> string \<Rightarrow> string \<Rightarrow> string + string" where
  "read_member_rest name msg r =
     (case JsonReader_String r of Inl e \<Rightarrow> Inl e | Inr (field, r1) \<Rightarrow>
      case Expect (CHR 0x3A) r1 of Inl e \<Rightarrow> Inl e | Inr (u, r2) \<Rightarrow>
      if field \<noteq> name then Inl msg
      else case JsonReader_String r2 of Inl e \<Rightarrow> Inl e | Inr (v, r3) \<Rightarrow>
      case Expect (CHR 0x7D) r3 of Inl e \<Rightarrow> Inl e | Inr (u, r4) \<Rightarrow>
      case End r4 of Inl e \<Rightarrow> Inl e | Inr w \<Rightarrow> Inr v)"

definition read_member :: "string \<Rightarrow> string \<Rightarrow> string \<Rightarrow> string + string" where
  "read_member name msg s =
     (case Expect (CHR 0x7B) s of Inl e \<Rightarrow> Inl e | Inr (u, r) \<Rightarrow> read_member_rest name msg r)"

text \<open>The same, followed by the check that the key is not empty.\<close>

definition read_key :: "string \<Rightarrow> string \<Rightarrow> string + string" where
  "read_key msg s =
     (case read_member ''key'' msg s of
        Inl e \<Rightarrow> Inl e
      | Inr key \<Rightarrow> if key = [] then Inl ''key must not be empty'' else Inr key)"

definition json_bool :: "bool \<Rightarrow> string" where
  "json_bool b = (if b then ''true'' else ''false'')"

definition json_raw :: "string \<Rightarrow> string" where
  "json_raw s = [CHR 0x22] @ s @ [CHR 0x22]"

definition to_string_i32 :: "32 word \<Rightarrow> string" where
  "to_string_i32 w = (if sint w < 0 then CHR ''-'' # to_dec (nat (- sint w)) else to_dec (nat (sint w)))"

section \<open>SET and GET\<close>

definition RequiredString :: "StringBody \<Rightarrow> string \<Rightarrow> string + string" where
  "RequiredString body field =
     (case map_of body field of Some (BV_String s) \<Rightarrow> Inr s | _ \<Rightarrow> Inl (field @ '' must be a string''))"

definition Flag :: "StringBody \<Rightarrow> string \<Rightarrow> string + bool" where
  "Flag body field =
     (case map_of body field of
        None \<Rightarrow> Inr False
      | Some (BV_Bool b) \<Rightarrow> Inr b
      | Some v \<Rightarrow> Inl (field @ '' must be a boolean''))"

text \<open>The loop over the fields: the deadline, or the first complaint.\<close>

fun set_ttl :: "u64 \<Rightarrow> StringBody \<Rightarrow> string + u64" where
  "set_ttl ttl [] = Inr ttl"
| "set_ttl ttl ((name, v) # body) =
     (if name = ''key'' \<or> name = ''value'' \<or> name = ''if_exists'' \<or> name = ''if_not_exists''
      then set_ttl ttl body
      else if name = ''ttl_ms''
      then (case v of
              BV_Number n \<Rightarrow> if n = 0 then Inl ''ttl_ms must be greater than zero'' else set_ttl n body
            | _ \<Rightarrow> Inl ''ttl_ms must be an unsigned integer'')
      else Inl (''unsupported SET field: '' @ name))"

definition cmd_Set :: handler where
  "cmd_Set env body_txt st =
     (case ParseStringBody body_txt of Inl e \<Rightarrow> Inl e | Inr body \<Rightarrow>
      case set_ttl 0 body of Inl e \<Rightarrow> Inl e | Inr ttl_ms \<Rightarrow>
      case RequiredString body ''key'' of Inl e \<Rightarrow> Inl e | Inr key \<Rightarrow>
      case RequiredString body ''value'' of Inl e \<Rightarrow> Inl e | Inr v \<Rightarrow>
      if key = [] then Inl ''key must not be empty''
      else case Flag body ''if_not_exists'' of Inl e \<Rightarrow> Inl e | Inr nx \<Rightarrow>
      case Flag body ''if_exists'' of Inl e \<Rightarrow> Inl e | Inr xx \<Rightarrow>
      if nx \<and> xx then Inl ''SET conditions conflict''
      else let condition = (if nx then IfAbsent else if xx then IfPresent else Always);
               (stored, st') = MemoryStore_Set (std_hash env) (clock env 0) key v condition ttl_ms st
           in Inr (success (''{'' @ json_key ''stored'' @ json_bool stored @ ''}''), st'))"

definition cmd_Get :: handler where
  "cmd_Get env body_txt st =
     (case ParseStringBody body_txt of Inl e \<Rightarrow> Inl e | Inr body \<Rightarrow>
      case RequiredString body ''key'' of Inl e \<Rightarrow> Inl e | Inr key \<Rightarrow>
      if length body \<noteq> 1 \<or> key = [] then Inl ''GET requires only a non-empty key''
      else case MemoryStore_Get (std_hash env) (clock env 0) key st of
          (None, st') \<Rightarrow> Inr (failure ''KEY_NOT_FOUND'' ''key does not exist'', st')
        | (Some v, st') \<Rightarrow> Inr (success (''{'' @ json_key ''value'' @ QuoteJson v @ ''}''), st'))"

section \<open>Commands on keys\<close>

definition keys_field :: "string \<Rightarrow> string + ftype" where
  "keys_field f = (if f = ''key'' then Inr TStr else if f = ''keys'' then Inr TStrs
                   else Inl (''unsupported field: '' @ f))"

text \<open>The keys named by the fields \<open>key\<close> and \<open>keys\<close>, in order, repetitions kept.\<close>

definition collect_keys :: "(string \<times> jval) list \<Rightarrow> string list" where
  "collect_keys fvs = concat (map (\<lambda>(f, v). if f = ''key'' then [str_of v] else strs_of v) fvs)"

fun del_loop :: "hash_fn \<Rightarrow> string list \<Rightarrow> nat \<Rightarrow> MemoryStore \<Rightarrow> nat \<times> MemoryStore" where
  "del_loop H [] n st = (n, st)"
| "del_loop H (k # ks) n st =
     (case MemoryStore_Del H k st of (d, st') \<Rightarrow> del_loop H ks (if d then Suc n else n) st')"

definition cmd_Del :: handler where
  "cmd_Del env body st =
     (case read_object keys_field body of
        Inl e \<Rightarrow> Inl e
      | Inr fvs \<Rightarrow>
          (case del_loop (std_hash env) (collect_keys fvs) 0 st of
             (deleted, st') \<Rightarrow> Inr (success (''{'' @ json_key ''deleted'' @ to_dec deleted @ ''}''), st')))"

text \<open>The clock is read once per key.\<close>

fun exists_loop :: "CallEnv \<Rightarrow> nat \<Rightarrow> string list \<Rightarrow> nat \<Rightarrow> MemoryStore \<Rightarrow> nat \<times> MemoryStore" where
  "exists_loop env i [] n st = (n, st)"
| "exists_loop env i (k # ks) n st =
     (case MemoryStore_Exists (std_hash env) (clock env i) k st of
        (e, st') \<Rightarrow> exists_loop env (Suc i) ks (if e then Suc n else n) st')"

definition cmd_Exists :: handler where
  "cmd_Exists env body st =
     (case read_object keys_field body of
        Inl e \<Rightarrow> Inl e
      | Inr fvs \<Rightarrow>
          (case exists_loop env 0 (collect_keys fvs) 0 st of
             (count, st') \<Rightarrow> Inr (success (''{'' @ json_key ''count'' @ to_dec count @ ''}''), st')))"

definition cmd_Type :: handler where
  "cmd_Type env body st =
     (case read_member ''key'' ''TYPE requires key field'' body of
        Inl e \<Rightarrow> Inl e
      | Inr key \<Rightarrow>
          (case MemoryStore_Type (std_hash env) (clock env 0) key st of
             (t, st') \<Rightarrow>
               Inr (success (''{'' @ json_key ''type''
                     @ json_raw (if t = DataType_String then ''string'' else ''none'') @ ''}''), st')))"

definition cmd_DbSize :: handler where
  "cmd_DbSize env body st =
     (case Expect (CHR 0x7B) body of Inl e \<Rightarrow> Inl e | Inr (u, r) \<Rightarrow>
      case Expect (CHR 0x7D) r of Inl e \<Rightarrow> Inl e | Inr (u, r1) \<Rightarrow>
      case End r1 of Inl e \<Rightarrow> Inl e | Inr w \<Rightarrow>
        Inr (success (''{'' @ json_key ''size'' @ to_dec (MemoryStore_DbSize (clock env 0) st) @ ''}''), st))"

fun join :: "string \<Rightarrow> string list \<Rightarrow> string" where
  "join sep [] = []"
| "join sep [x] = x"
| "join sep (x # y # ys) = x @ sep @ join sep (y # ys)"

definition json_strings :: "string list \<Rightarrow> string" where
  "json_strings ks = join '','' (map QuoteJson ks)"

definition cmd_Keys :: handler where
  "cmd_Keys env body st =
     (case (case Expect (CHR 0x7B) body of
              Inl e \<Rightarrow> Inl e
            | Inr (u, r) \<Rightarrow>
                (case Take (CHR 0x7D) r of
                   (True, r1) \<Rightarrow> (case End r1 of Inl e \<Rightarrow> Inl e | Inr w \<Rightarrow> Inr ''*'')
                 | (False, r1) \<Rightarrow> read_member_rest ''pattern'' ''KEYS supports pattern field'' r1)) of
        Inl e \<Rightarrow> Inl e
      | Inr pattern \<Rightarrow>
          Inr (success (''{'' @ json_key ''keys'' @ ''['' @ json_strings (MemoryStore_Keys (clock env 0) pattern st) @ '']}''), st))"

definition cmd_Scan :: handler where
  "cmd_Scan env body st =
     (case read_object (\<lambda>f. if f = ''cursor'' \<or> f = ''count'' then Inr TNum else Inl (''unsupported SCAN field: '' @ f)) body of
        Inl e \<Rightarrow> Inl e
      | Inr fvs \<Rightarrow>
          (let (cursor, count) = fold (\<lambda>(f, v) (cursor, count).
                 if f = ''cursor'' then (num_of v, count) else (cursor, num_of v)) fvs (0, 10);
               (next_cursor, ks) = MemoryStore_Scan (std_hash env) (clock env 0) cursor (unat count) st
           in Inr (success (''{'' @ json_key ''cursor'' @ to_string_u64 next_cursor @ '',''
                     @ json_key ''keys'' @ ''['' @ json_strings ks @ '']}''), st)))"

section \<open>Deadlines\<close>

definition cmd_Expire :: handler where
  "cmd_Expire env body st =
     (case read_members (\<lambda>f. if f = ''key'' then Inr TStr
                             else if f = ''ttl_seconds'' \<or> f = ''seconds'' then Inr TNum
                             else Inl (''unsupported EXPIRE field: '' @ f)) body of
        Inl e \<Rightarrow> Inl e
      | Inr fvs \<Rightarrow>
          (let (key, seconds, has_seconds) = fold (\<lambda>(f, v) (key, seconds, has_seconds).
                 if f = ''key'' then (str_of v, seconds, has_seconds) else (key, num_of v, True)) fvs ([], 0, False)
           in if key = [] \<or> \<not> has_seconds then Inl ''EXPIRE requires key and ttl_seconds''
              else case MemoryStore_Expire (std_hash env) (clock env 0) key (seconds * 1000) st of
                  (b, st') \<Rightarrow> Inr (success (''{'' @ json_key ''set'' @ json_bool b @ ''}''), st')))"

definition cmd_PExpire :: handler where
  "cmd_PExpire env body st =
     (case read_members (\<lambda>f. if f = ''key'' then Inr TStr
                             else if f = ''ttl_ms'' \<or> f = ''milliseconds'' then Inr TNum
                             else Inl (''unsupported PEXPIRE field: '' @ f)) body of
        Inl e \<Rightarrow> Inl e
      | Inr fvs \<Rightarrow>
          (let (key, ms, has_ms) = fold (\<lambda>(f, v) (key, ms, has_ms).
                 if f = ''key'' then (str_of v, ms, has_ms) else (key, num_of v, True)) fvs ([], 0, False)
           in if key = [] \<or> \<not> has_ms then Inl ''PEXPIRE requires key and ttl_ms''
              else case MemoryStore_Expire (std_hash env) (clock env 0) key ms st of
                  (b, st') \<Rightarrow> Inr (success (''{'' @ json_key ''set'' @ json_bool b @ ''}''), st')))"

definition cmd_Ttl :: handler where
  "cmd_Ttl env body st =
     (case read_key ''TTL requires key field'' body of
        Inl e \<Rightarrow> Inl e
      | Inr key \<Rightarrow>
          (case MemoryStore_Ttl (std_hash env) (clock env 0) key st of
             (ttl, st') \<Rightarrow> Inr (success (''{'' @ json_key ''ttl_seconds'' @ to_string_i64 ttl @ ''}''), st')))"

definition cmd_Pttl :: handler where
  "cmd_Pttl env body st =
     (case read_key ''PTTL requires key field'' body of
        Inl e \<Rightarrow> Inl e
      | Inr key \<Rightarrow>
          (case MemoryStore_Pttl (std_hash env) (clock env 0) key st of
             (pttl, st') \<Rightarrow> Inr (success (''{'' @ json_key ''ttl_ms'' @ to_string_i64 pttl @ ''}''), st')))"

definition cmd_Persist :: handler where
  "cmd_Persist env body st =
     (case read_key ''PERSIST requires key field'' body of
        Inl e \<Rightarrow> Inl e
      | Inr key \<Rightarrow>
          (case MemoryStore_Persist (std_hash env) (clock env 0) key st of
             (persisted, st') \<Rightarrow> Inr (success (''{'' @ json_key ''persisted'' @ json_bool persisted @ ''}''), st')))"

section \<open>Counters and rate limits\<close>

text \<open>The common end of INCR, DECR and INCRBY.\<close>

definition incr_reply :: "IncrResult \<times> MemoryStore \<Rightarrow> string + (Result \<times> MemoryStore)" where
  "incr_reply x = (case x of (res, st') \<Rightarrow>
     if \<not> incr_ok res then Inr (failure (incr_error_code res) (incr_error_message res), st')
     else Inr (success (''{'' @ json_key ''value'' @ to_string_i64 (incr_value res) @ ''}''), st'))"

definition cmd_Incr :: handler where
  "cmd_Incr env body st =
     (case read_key ''INCR requires key field'' body of
        Inl e \<Rightarrow> Inl e
      | Inr key \<Rightarrow> incr_reply (MemoryStore_IncrBy (std_hash env) (clock env 0) key 1 0 st))"

definition cmd_Decr :: handler where
  "cmd_Decr env body st =
     (case read_key ''DECR requires key field'' body of
        Inl e \<Rightarrow> Inl e
      | Inr key \<Rightarrow> incr_reply (MemoryStore_IncrBy (std_hash env) (clock env 0) key (- 1) 0 st))"

definition cmd_IncrBy :: handler where
  "cmd_IncrBy env body st =
     (case read_members (\<lambda>f. if f = ''key'' then Inr TStr
                             else if f = ''delta'' \<or> f = ''by'' then Inr TInt
                             else if f = ''ttl_ms'' \<or> f = ''ttl_seconds'' then Inr TNum
                             else Inl (''unsupported INCRBY field: '' @ f)) body of
        Inl e \<Rightarrow> Inl e
      | Inr fvs \<Rightarrow>
          (let (key, delta, has_delta, ttl_ms) = fold (\<lambda>(f, v) (key, delta, has_delta, ttl_ms).
                 if f = ''key'' then (str_of v, delta, has_delta, ttl_ms)
                 else if f = ''delta'' \<or> f = ''by'' then (key, int_of v, True, ttl_ms)
                 else if f = ''ttl_ms'' then (key, delta, has_delta, num_of v)
                 else (key, delta, has_delta, num_of v * 1000)) fvs ([], 0, False, 0)
           in if key = [] \<or> \<not> has_delta then Inl ''INCRBY requires key and delta''
              else incr_reply (MemoryStore_IncrBy (std_hash env) (clock env 0) key delta ttl_ms st)))"

definition cmd_RateLimit :: handler where
  "cmd_RateLimit env body st =
     (case read_members (\<lambda>f. if f = ''key'' then Inr TStr
                             else if f = ''limit'' \<or> f = ''window_ms'' \<or> f = ''window_seconds'' \<or> f = ''cost'' then Inr TNum
                             else Inl (''unsupported GK.RATE_LIMIT field: '' @ f)) body of
        Inl e \<Rightarrow> Inl e
      | Inr fvs \<Rightarrow>
          (let (key, limit, has_limit, window_ms, has_window, cost) =
                 fold (\<lambda>(f, v) (key, limit, has_limit, window_ms, has_window, cost).
                   if f = ''key'' then (str_of v, limit, has_limit, window_ms, has_window, cost)
                   else if f = ''limit'' then (key, num_of v, True, window_ms, has_window, cost)
                   else if f = ''window_ms'' then (key, limit, has_limit, num_of v, True, cost)
                   else if f = ''window_seconds'' then (key, limit, has_limit, num_of v * 1000, True, cost)
                   else (key, limit, has_limit, window_ms, has_window, num_of v)) fvs ([], 0, False, 0, False, 1)
           in if key = [] \<or> \<not> has_limit \<or> \<not> has_window then Inl ''GK.RATE_LIMIT requires key, limit and window_ms''
              else case MemoryStore_RateLimit (ub_cast env) (std_hash env) (clock env 0) key limit window_ms cost st of
                  (res, st') \<Rightarrow>
                    if \<not> rl_ok res then Inr (failure (rl_error_code res) (rl_error_message res), st')
                    else Inr (success (''{'' @ json_key ''allowed'' @ json_bool (allowed res) @ '',''
                           @ json_key ''remaining'' @ to_string_u64 (rl_remaining res) @ '',''
                           @ json_key ''retry_after_ms'' @ to_string_u64 (retry_after_ms res) @ ''}''), st')))"

section \<open>Quota\<close>

definition cmd_Reserve :: handler where
  "cmd_Reserve env body st =
     (case read_members (\<lambda>f. if f = ''key'' then Inr TStr
                             else if f = ''amount'' \<or> f = ''ttl_ms'' \<or> f = ''ttl_seconds'' then Inr TNum
                             else Inl (''unsupported GK.RESERVE field: '' @ f)) body of
        Inl e \<Rightarrow> Inl e
      | Inr fvs \<Rightarrow>
          (let (key, amount, has_amount, ttl_ms, has_ttl) =
                 fold (\<lambda>(f, v) (key, amount, has_amount, ttl_ms, has_ttl).
                   if f = ''key'' then (str_of v, amount, has_amount, ttl_ms, has_ttl)
                   else if f = ''amount'' then (key, num_of v, True, ttl_ms, has_ttl)
                   else if f = ''ttl_ms'' then (key, amount, has_amount, num_of v, True)
                   else (key, amount, has_amount, num_of v * 1000, True)) fvs ([], 0, False, 0, False)
           in if key = [] \<or> \<not> has_amount \<or> \<not> has_ttl then Inl ''GK.RESERVE requires key, amount and ttl_ms''
              else case MemoryStore_ReserveQuota (std_hash env) (clock env 0) key amount ttl_ms st of
                  (res, st') \<Rightarrow>
                    if \<not> rv_ok res \<or> \<not> reserved res then Inr (failure (rv_error_code res) (rv_error_message res), st')
                    else Inr (success (''{'' @ json_key ''reserved'' @ ''true,''
                           @ json_key ''reservation_id'' @ QuoteJson (reservation_id res) @ '',''
                           @ json_key ''remaining'' @ to_string_u64 (rv_remaining res) @ ''}''), st')))"

definition cmd_Commit :: handler where
  "cmd_Commit env body st =
     (case read_members (\<lambda>f. if f = ''key'' \<or> f = ''reservation_id'' then Inr TStr
                             else if f = ''actual_amount'' \<or> f = ''amount'' then Inr TNum
                             else Inl (''unsupported GK.COMMIT field: '' @ f)) body of
        Inl e \<Rightarrow> Inl e
      | Inr fvs \<Rightarrow>
          (let (key, rid, actual, has_actual) = fold (\<lambda>(f, v) (key, rid, actual, has_actual).
                 if f = ''key'' then (str_of v, rid, actual, has_actual)
                 else if f = ''reservation_id'' then (key, str_of v, actual, has_actual)
                 else (key, rid, num_of v, True)) fvs ([], [], 0, False)
           in if key = [] \<or> rid = [] \<or> \<not> has_actual
              then Inl ''GK.COMMIT requires key, reservation_id and actual_amount''
              else case MemoryStore_CommitQuota (std_hash env) (clock env 0) key rid actual st of
                  (res, st') \<Rightarrow>
                    if \<not> cm_ok res \<or> \<not> committed res then Inr (failure (cm_error_code res) (cm_error_message res), st')
                    else Inr (success (''{'' @ json_key ''committed'' @ ''true,''
                           @ json_key ''actual_amount'' @ to_string_u64 (actual_amount res) @ '',''
                           @ json_key ''refunded'' @ to_string_u64 (cm_refunded res) @ '',''
                           @ json_key ''remaining'' @ to_string_u64 (cm_remaining res) @ ''}''), st')))"

definition cmd_Rollback :: handler where
  "cmd_Rollback env body st =
     (case read_members (\<lambda>f. if f = ''key'' \<or> f = ''reservation_id'' then Inr TStr
                             else Inl (''unsupported GK.ROLLBACK field: '' @ f)) body of
        Inl e \<Rightarrow> Inl e
      | Inr fvs \<Rightarrow>
          (let (key, rid) = fold (\<lambda>(f, v) (key, rid).
                 if f = ''key'' then (str_of v, rid) else (key, str_of v)) fvs ([], [])
           in if key = [] \<or> rid = [] then Inl ''GK.ROLLBACK requires key and reservation_id''
              else case MemoryStore_RollbackQuota (std_hash env) (clock env 0) key rid st of
                  (res, st') \<Rightarrow>
                    if \<not> rb_ok res \<or> \<not> rolled_back res then Inr (failure (rb_error_code res) (rb_error_message res), st')
                    else Inr (success (''{'' @ json_key ''rolled_back'' @ ''true,''
                           @ json_key ''refunded'' @ to_string_u64 (rb_refunded res) @ '',''
                           @ json_key ''remaining'' @ to_string_u64 (rb_remaining res) @ ''}''), st')))"

definition cmd_QuotaInit :: handler where
  "cmd_QuotaInit env body st =
     (case read_members (\<lambda>f. if f = ''key'' then Inr TStr
                             else if f = ''amount'' \<or> f = ''balance'' then Inr TNum
                             else Inl (''unsupported GK.QUOTA_INIT field: '' @ f)) body of
        Inl e \<Rightarrow> Inl e
      | Inr fvs \<Rightarrow>
          (let (key, amount, has_amount) = fold (\<lambda>(f, v) (key, amount, has_amount).
                 if f = ''key'' then (str_of v, amount, has_amount) else (key, num_of v, True)) fvs ([], 0, False)
           in if key = [] \<or> \<not> has_amount then Inl ''GK.QUOTA_INIT requires key and amount''
              else case MemoryStore_Set (std_hash env) (clock env 0) key (to_string_u64 amount) Always 0 st of
                  (b, st') \<Rightarrow>
                    Inr (success (''{'' @ json_key ''initialized'' @ ''true,'' @ json_key ''key'' @ QuoteJson key @ '',''
                           @ json_key ''balance'' @ to_string_u64 amount @ ''}''), st')))"

definition cmd_QuotaGet :: handler where
  "cmd_QuotaGet env body st =
     (case read_key ''GK.QUOTA_GET requires key field'' body of
        Inl e \<Rightarrow> Inl e
      | Inr key \<Rightarrow>
          (case MemoryStore_Get (std_hash env) (clock env 0) key st of
             (None, st') \<Rightarrow> Inr (failure ''KEY_NOT_FOUND'' ''quota key does not exist'', st')
           | (Some v, st') \<Rightarrow>
               (case stoull v of
                  None \<Rightarrow> Inr (failure ''ERR_NOT_AN_INTEGER'' ''quota balance is not an integer'', st')
                | Some (balance, idx) \<Rightarrow>
                    Inr (success (''{'' @ json_key ''key'' @ QuoteJson key @ '',''
                           @ json_key ''balance'' @ to_string_u64 balance @ ''}''), st'))))"

section \<open>Idempotency\<close>

fun ActionToString :: "IdempotencyAction \<Rightarrow> string" where
  "ActionToString Execute = ''EXECUTE''"
| "ActionToString Park = ''PARK''"
| "ActionToString Replay = ''REPLAY''"
| "ActionToString Conflict = ''CONFLICT''"

fun StatusToString :: "IdempotencyStatus \<Rightarrow> string" where
  "StatusToString InProgress = ''IN_PROGRESS''"
| "StatusToString Completed = ''COMPLETED''"
| "StatusToString Failed = ''FAILED''"
| "StatusToString Status_None = ''NONE''"

definition cmd_IdemBegin :: handler where
  "cmd_IdemBegin env body st =
     (case read_members (\<lambda>f. if f = ''key'' \<or> f = ''request_hash'' \<or> f = ''owner_token'' then Inr TStr
                             else if f = ''ttl_ms'' \<or> f = ''ttl_seconds'' then Inr TNum
                             else Inl (''unsupported GK.IDEM_BEGIN field: '' @ f)) body of
        Inl e \<Rightarrow> Inl e
      | Inr fvs \<Rightarrow>
          (let (key, rhash, ttl_ms, token) = fold (\<lambda>(f, v) (key, rhash, ttl_ms, token).
                 if f = ''key'' then (str_of v, rhash, ttl_ms, token)
                 else if f = ''request_hash'' then (key, str_of v, ttl_ms, token)
                 else if f = ''ttl_ms'' then (key, rhash, num_of v, token)
                 else if f = ''ttl_seconds'' then (key, rhash, num_of v * 1000, token)
                 else (key, rhash, ttl_ms, str_of v)) fvs ([], [], 60000, [])
           in if key = [] then Inl ''key must not be empty''
              else if rhash = [] then Inl ''request_hash must not be empty''
              else case MemoryStore_IdemBegin (std_hash env) (clock env 0) key rhash ttl_ms token st of
                  (res, st') \<Rightarrow>
                    if \<not> ib_ok res then Inr (failure (ib_error_code res) (ib_error_message res), st')
                    else Inr (success (''{'' @ json_key ''action'' @ json_raw (ActionToString (ib_action res)) @ '',''
                           @ json_key ''owner_token'' @ QuoteJson (ib_owner_token res)
                           @ (if ib_action res = Replay
                              then '','' @ json_key ''response_code'' @ to_string_i32 (cached_code res) @ '',''
                                   @ json_key ''response_body'' @ QuoteJson (cached_response res)
                              else []) @ ''}''), st')))"

definition cmd_IdemComplete :: handler where
  "cmd_IdemComplete env body st =
     (case read_members (\<lambda>f. if f = ''key'' \<or> f = ''owner_token'' \<or> f = ''response_body'' then Inr TStr
                             else if f = ''response_code'' then Inr TInt
                             else Inl (''unsupported GK.IDEM_COMPLETE field: '' @ f)) body of
        Inl e \<Rightarrow> Inl e
      | Inr fvs \<Rightarrow>
          (let (key, token, rcode, rbody) = fold (\<lambda>(f, v) (key, token, rcode, rbody).
                 if f = ''key'' then (str_of v, token, rcode, rbody)
                 else if f = ''owner_token'' then (key, str_of v, rcode, rbody)
                 else if f = ''response_code'' then (key, token, ucast (int_of v), rbody)
                 else (key, token, rcode, str_of v)) fvs ([], [], 200, [])
           in if key = [] then Inl ''key must not be empty''
              else if token = [] then Inl ''owner_token must not be empty''
              else case MemoryStore_IdemComplete (std_hash env) (clock env 0) key token rcode rbody st of
                  (res, st') \<Rightarrow>
                    if \<not> ic_ok res then Inr (failure (ic_error_code res) (ic_error_message res), st')
                    else Inr (success (''{'' @ json_key ''completed'' @ ''true}''), st')))"

definition cmd_IdemFail :: handler where
  "cmd_IdemFail env body st =
     (case read_members (\<lambda>f. if f = ''key'' \<or> f = ''owner_token'' \<or> f = ''error_message'' then Inr TStr
                             else Inl (''unsupported GK.IDEM_FAIL field: '' @ f)) body of
        Inl e \<Rightarrow> Inl e
      | Inr fvs \<Rightarrow>
          (let (key, token, msg) = fold (\<lambda>(f, v) (key, token, msg).
                 if f = ''key'' then (str_of v, token, msg)
                 else if f = ''owner_token'' then (key, str_of v, msg)
                 else (key, token, str_of v)) fvs ([], [], [])
           in if key = [] then Inl ''key must not be empty''
              else if token = [] then Inl ''owner_token must not be empty''
              else case MemoryStore_IdemFail (std_hash env) (clock env 0) key token msg st of
                  (res, st') \<Rightarrow>
                    if \<not> if_ok res then Inr (failure (if_error_code res) (if_error_message res), st')
                    else Inr (success (''{'' @ json_key ''failed'' @ ''true}''), st')))"

definition cmd_IdemGet :: handler where
  "cmd_IdemGet env body st =
     (case read_members (\<lambda>f. if f = ''key'' then Inr TStr else Inl (''unsupported GK.IDEM_GET field: '' @ f)) body of
        Inl e \<Rightarrow> Inl e
      | Inr fvs \<Rightarrow>
          (let key = fold (\<lambda>(f, v) key. str_of v) fvs []
           in if key = [] then Inl ''key must not be empty''
              else case MemoryStore_IdemGet (std_hash env) (clock env 0) key st of
                  (None, st') \<Rightarrow> Inr (failure ''KEY_NOT_FOUND'' ''idempotency record does not exist or has expired'', st')
                | (Some r, st') \<Rightarrow>
                    Inr (success (''{'' @ json_key ''key'' @ QuoteJson (idem_key r) @ '',''
                           @ json_key ''status'' @ json_raw (StatusToString (status r)) @ '',''
                           @ json_key ''request_hash'' @ QuoteJson (request_hash r) @ '',''
                           @ json_key ''owner_token'' @ QuoteJson (owner_token r) @ '',''
                           @ json_key ''response_code'' @ to_string_i32 (response_code r) @ '',''
                           @ json_key ''response_body'' @ QuoteJson (response_body r) @ ''}''), st')))"

end
