(* ===== verification/GK_Request_Parser.thy ===== *)
theory GK_Request_Parser
  imports GK_Commands GK_String_Body
begin

text \<open>
  The parser of request envelopes, \<open>src/protocol/json_parser.cpp\<close>. A function takes the rest of the text and
  returns what is left, as the code moves its position; the position a failed string leaves matters for one
  case and is returned too. \<open>char\<close> is signed, as on the platforms the server is built for.

  Shown: a printed request is parsed back to the same request; and a member that should be ignored is
  refused when its value is an object.
\<close>

section \<open>The parser\<close>

definition rp_Skip :: "string \<Rightarrow> string" where
  "rp_Skip s = dropWhile isspace s"

text \<open>A byte that compares less than \<open>0x20\<close> as a signed character.\<close>

definition below_space :: "char \<Rightarrow> bool" where
  "below_space c \<longleftrightarrow> byte_val c < 32 \<or> byte_val c \<ge> 128"

definition rp_unescape :: "char \<Rightarrow> char option" where
  "rp_unescape e =
     (if e = CHR 0x22 \<or> e = CHR 0x5C \<or> e = CHR ''/'' then Some e
      else if e = CHR ''b'' then Some (CHR 0x08) else if e = CHR ''f'' then Some (CHR 0x0C)
      else if e = CHR ''n'' then Some (CHR 0x0A) else if e = CHR ''r'' then Some (CHR 0x0D)
      else if e = CHR ''t'' then Some (CHR 0x09) else None)"

text \<open>Whether a string was read, the string, and the rest.\<close>

fun rp_chars :: "string \<Rightarrow> bool \<times> string \<times> string" where
  "rp_chars [] = (False, [], [])"
| "rp_chars (c # s) =
     (if c = CHR 0x22 then (True, [], s)
      else if below_space c then (False, [], s)
      else if c \<noteq> CHR 0x5C then (case rp_chars s of (good, out, r) \<Rightarrow> (good, c # out, r))
      else case s of
        [] \<Rightarrow> (False, [], [])
      | e # s' \<Rightarrow>
          (case rp_unescape e of
             None \<Rightarrow> (False, [], s')
           | Some d \<Rightarrow> (case rp_chars s' of (good, out, r) \<Rightarrow> (good, d # out, r))))"

definition rp_String :: "string \<Rightarrow> bool \<times> string \<times> string" where
  "rp_String s =
     (case rp_Skip s of
        [] \<Rightarrow> (False, [], [])
      | c # r \<Rightarrow> if c \<noteq> CHR 0x22 then (False, [], r) else rp_chars r)"

text \<open>The text of an object up to the brace that closes it, and the rest.\<close>

fun object_text :: "nat \<Rightarrow> bool \<Rightarrow> string \<Rightarrow> (string \<times> string) option" where
  "object_text depth quoted [] = (if depth \<noteq> 0 \<or> quoted then None else Some ([], []))"
| "object_text depth quoted (c # s) =
     (if depth = 0 then (if quoted then None else Some ([], c # s))
      else if quoted \<and> c = CHR 0x5C
      then (case s of [] \<Rightarrow> None | e # s' \<Rightarrow> map_option (apfst (\<lambda>t. c # e # t)) (object_text depth quoted s'))
      else if c = CHR 0x22 then map_option (apfst ((#) c)) (object_text depth (\<not> quoted) s)
      else if \<not> quoted \<and> c = CHR 0x7B then map_option (apfst ((#) c)) (object_text (depth + 1) quoted s)
      else if \<not> quoted \<and> c = CHR 0x7D then map_option (apfst ((#) c)) (object_text (depth - 1) quoted s)
      else map_option (apfst ((#) c)) (object_text depth quoted s))"

definition rp_Object :: "string \<Rightarrow> (string \<times> string) option" where
  "rp_Object s =
     (case rp_Skip s of
        [] \<Rightarrow> None
      | c # r \<Rightarrow> if c \<noteq> CHR 0x7B then None else map_option (apfst ((#) c)) (object_text 1 False r))"

text \<open>The members read so far; an absent one is \<open>None\<close>.\<close>

record envelope =
  en_id :: "string option"
  en_op :: "string option"
  en_body :: "string option"

definition invalid_request :: "string \<Rightarrow> Error + 'a" where
  "invalid_request msg = Inl \<lparr>err_code = ''INVALID_REQUEST'', err_message = msg\<rparr>"

definition expected_separator :: string where
  "expected_separator = ''expected ',' or '}'' @ [CHR 0x27]"

text \<open>The value of a member; a key that is not known takes a string or, from where the failed string left the
  position, an object.\<close>

definition member_value :: "string \<Rightarrow> string \<Rightarrow> envelope \<Rightarrow> Error + envelope \<times> string" where
  "member_value key s e =
     (if key = ''id'' \<or> key = ''op''
      then (case rp_String s of
              (False, _, _) \<Rightarrow> invalid_request (key @ '' must be a string'')
            | (True, v, r) \<Rightarrow>
                if key = ''id''
                then (if en_id e \<noteq> None then invalid_request ''id must not be repeated'' else Inr (e\<lparr>en_id := Some v\<rparr>, r))
                else (if en_op e \<noteq> None then invalid_request ''op must not be repeated'' else Inr (e\<lparr>en_op := Some v\<rparr>, r)))
      else if key = ''body''
      then (if en_body e \<noteq> None then invalid_request ''body must be one JSON object''
            else case rp_Object s of
                   None \<Rightarrow> invalid_request ''body must be one JSON object''
                 | Some (b, r) \<Rightarrow> Inr (e\<lparr>en_body := Some b\<rparr>, r))
      else (case rp_String s of
              (True, _, r) \<Rightarrow> Inr (e, r)
            | (False, _, r) \<Rightarrow>
                (case rp_Object r of None \<Rightarrow> invalid_request ''invalid JSON value'' | Some (_, r') \<Rightarrow> Inr (e, r'))))"

lemma rp_Skip_length: "length (rp_Skip s) \<le> length s"
  by (simp add: rp_Skip_def length_dropWhile_le)

lemma rp_chars_length: "rp_chars s = (b, out, r) \<Longrightarrow> length r \<le> length s \<and> (b \<longrightarrow> length r < length s)"
  by (induction s arbitrary: b out rule: rp_chars.induct)
    (fastforce split: if_splits list.splits option.splits prod.splits)+

lemma rp_String_length: "rp_String s = (b, out, r) \<Longrightarrow> length r \<le> length s \<and> (b \<longrightarrow> length r < length s)"
  using rp_Skip_length [of s] by (fastforce simp: rp_String_def split: list.splits if_splits dest: rp_chars_length)

lemma object_text_length: "object_text d q s = Some (t, r) \<Longrightarrow> length r \<le> length s"
  by (induction d q s arbitrary: t rule: object_text.induct) (fastforce split: if_splits list.splits)+

lemma rp_Object_length: "rp_Object s = Some (t, r) \<Longrightarrow> length r \<le> length s"
  using rp_Skip_length [of s] by (fastforce simp: rp_Object_def split: list.splits if_splits dest: object_text_length)

lemma member_value_length:
  assumes "member_value key s e = Inr (e', r)"
  shows "length r \<le> length s"
proof -
  obtain b v r0 where s: "rp_String s = (b, v, r0)" by (metis prod_cases3)
  show ?thesis
    using assms rp_String_length [OF s] rp_Object_length
    by (fastforce simp: member_value_def s invalid_request_def split: if_splits bool.splits option.splits)
qed

lemma members_length:
  assumes "rp_Skip s = c # t" "(True, y) = rp_String (c # t)" "(key, r) = y" "rp_Skip r = c' # r1"
    "member_value key r1 e = Inr b" "(e', r2) = b" "rp_Skip r2 = d # r3"
  shows "length r3 < length s"
proof -
  have "length (c # t) \<le> length s" "length (c' # r1) \<le> length r" "length (d # r3) \<le> length r2"
    using rp_Skip_length assms(1,4,7) by metis+
  moreover have "length r < length (c # t)" using rp_String_length [of "c # t" True key r] assms(2,3) by simp
  moreover have "length r2 \<le> length r1" using member_value_length assms(5,6) by blast
  ultimately show ?thesis by simp
qed

function members :: "string \<Rightarrow> envelope \<Rightarrow> Error + envelope \<times> string" where
  "members s e =
     (case rp_Skip s of
        [] \<Rightarrow> invalid_request ''invalid JSON object member''
      | c # t \<Rightarrow>
          if c = CHR 0x7D then Inr (e, t)
          else case rp_String (c # t) of
            (False, _, _) \<Rightarrow> invalid_request ''invalid JSON object member''
          | (True, key, r) \<Rightarrow>
              (case rp_Skip r of
                 [] \<Rightarrow> invalid_request ''invalid JSON object member''
               | c' # r1 \<Rightarrow>
                   if c' \<noteq> CHR 0x3A then invalid_request ''invalid JSON object member''
                   else case member_value key r1 e of
                     Inl err \<Rightarrow> Inl err
                   | Inr (e', r2) \<Rightarrow>
                       (case rp_Skip r2 of
                          [] \<Rightarrow> invalid_request expected_separator
                        | d # r3 \<Rightarrow>
                            if d = CHR 0x2C then members r3 e'
                            else if d = CHR 0x7D then Inr (e', r3)
                            else invalid_request expected_separator)))"
  by pat_completeness auto
termination
  by (relation "measure (\<lambda>(s, e). length s)", simp)
    (simp only: in_measure case_prod_conv, rule members_length; assumption)

declare members.simps [simp del]

definition Parser_Parse :: "string \<Rightarrow> Error + Request" where
  "Parser_Parse payload =
     (case rp_Skip payload of
        [] \<Rightarrow> invalid_request ''request must be a JSON object''
      | c # r \<Rightarrow>
          if c \<noteq> CHR 0x7B then invalid_request ''request must be a JSON object''
          else case members r \<lparr>en_id = None, en_op = None, en_body = None\<rparr> of
            Inl err \<Rightarrow> Inl err
          | Inr (e, rest) \<Rightarrow>
              (case (rp_Skip rest, en_id e, en_op e, en_body e) of
                 ([], Some i, Some p, Some b) \<Rightarrow>
                   if i = [] \<or> p = []
                   then invalid_request ''request requires non-empty id, non-empty op, and object body''
                   else Inr \<lparr>req_id = i, req_op = p, body_json = b\<rparr>
               | _ \<Rightarrow> invalid_request ''request requires non-empty id, non-empty op, and object body''))"

section \<open>Printed requests\<close>

definition print_envelope :: "Request \<Rightarrow> string" where
  "print_envelope r =
     ''{'' @ json_key ''id'' @ QuoteJson (req_id r) @ '','' @ json_key ''op'' @ QuoteJson (req_op r) @ '',''
     @ json_key ''body'' @ body_json r @ ''}''"

text \<open>The characters that the printer and the parser agree on: ASCII, without the control characters that are
  written in hexadecimal.\<close>

definition rp_plain :: "char \<Rightarrow> bool" where
  "rp_plain c \<longleftrightarrow> (32 \<le> byte_val c \<and> byte_val c < 128) \<or> c \<in> {CHR 0x08, CHR 0x09, CHR 0x0A, CHR 0x0C, CHR 0x0D}"

lemma rp_chars_quoted:
  "list_all rp_plain v \<Longrightarrow> rp_chars (concat (map quote_char v) @ CHR 0x22 # r) = (True, v, r)"
proof (induction v)
  case (Cons c v)
  then show ?case by (auto simp: quote_char_def rp_plain_def below_space_def rp_unescape_def byte_val_def)
qed simp

lemma rp_String_quoted: "list_all rp_plain v \<Longrightarrow> rp_String (QuoteJson v @ r) = (True, v, r)"
  using rp_chars_quoted [of v r] by (simp add: rp_String_def rp_Skip_def QuoteJson_def isspace_def byte_val_def)

lemma hex_char_plain: "n < 16 \<Longrightarrow> hex_char n \<noteq> CHR 0x22 \<and> hex_char n \<noteq> CHR 0x5C"
  using nth_mem [of n "''0123456789abcdef''"] by (auto simp: hex_char_def)

lemma object_text_char:
  assumes "object_text (Suc d) True s = Some (t, r)"
  shows "object_text (Suc d) True (quote_char c @ s) = Some (quote_char c @ t, r)"
proof -
  have "byte_val c < 32 \<Longrightarrow> byte_val c div 16 < 16 \<and> byte_val c mod 16 < 16" by simp
  then show ?thesis
    using assms hex_char_plain [of "byte_val c div 16"] hex_char_plain [of "byte_val c mod 16"] by (auto simp: quote_char_def)
qed

lemma object_text_string:
  assumes "object_text (Suc d) False s = Some (t, r)"
  shows "object_text (Suc d) False (QuoteJson v @ s) = Some (QuoteJson v @ t, r)"
proof -
  have "object_text (Suc d) True (concat (map quote_char v) @ CHR 0x22 # s) = Some (concat (map quote_char v) @ CHR 0x22 # t, r)"
    using assms by (induction v) (simp_all add: object_text_char)
  then show ?thesis by (simp add: QuoteJson_def)
qed

lemma object_text_plain:
  assumes "object_text (Suc d) False s = Some (t, r)" "list_all (\<lambda>c. c \<notin> {CHR 0x22, CHR 0x7B, CHR 0x7D}) v"
  shows "object_text (Suc d) False (v @ s) = Some (v @ t, r)"
  using assms by (induction v) simp_all

lemma object_text_value:
  assumes "object_text (Suc d) False s = Some (t, r)"
  shows "object_text (Suc d) False (print_value v @ s) = Some (print_value v @ t, r)"
proof (cases v)
  case (BV_String x)
  then show ?thesis using object_text_string [OF assms] by simp
next
  case (BV_Bool b)
  then show ?thesis using object_text_plain [OF assms, of "print_value v"] by (cases b) simp_all
next
  case (BV_Number n)
  have "list_all isdigit (to_string_u64 n)" by (simp add: to_string_u64_def list_all_iff)
  then have "list_all (\<lambda>c. c \<notin> {CHR 0x22, CHR 0x7B, CHR 0x7D}) (print_value v)"
    by (auto simp: BV_Number list_all_iff isdigit_def byte_val_def)
  then show ?thesis using object_text_plain [OF assms] by blast
qed

lemma object_text_fields: "object_text 1 False (print_fields fs @ s) = Some (print_fields fs, s)"
proof (induction fs rule: print_fields.induct)
  case (2 k v)
  have "object_text 1 False (CHR 0x7D # s) = Some ([CHR 0x7D], s)" by (cases s) simp_all
  from object_text_value [OF this [unfolded One_nat_def], of v]
  have "object_text (Suc 0) False (CHR 0x3A # print_value v @ CHR 0x7D # s) = Some (CHR 0x3A # print_value v @ [CHR 0x7D], s)" by simp
  from object_text_string [OF this, of k] show ?case by simp
next
  case (3 k v f fs)
  then have "object_text (Suc 0) False (CHR 0x2C # print_fields (f # fs) @ s) = Some (CHR 0x2C # print_fields (f # fs), s)" by simp
  from object_text_value [OF this, of v]
  have "object_text (Suc 0) False (CHR 0x3A # print_value v @ CHR 0x2C # print_fields (f # fs) @ s)
      = Some (CHR 0x3A # print_value v @ CHR 0x2C # print_fields (f # fs), s)" by simp
  from object_text_string [OF this, of k] show ?case by simp
qed (cases s; simp)

lemma rp_Object_body: "rp_Object (print_body fs @ s) = Some (print_body fs, s)"
  using object_text_fields [of fs s] by (simp add: rp_Object_def print_body_def rp_Skip_def isspace_def byte_val_def)

section \<open>Round trip\<close>

lemma rp_Skip_simps [simp]:
  "rp_Skip [] = []" "rp_Skip (CHR 0x22 # s) = CHR 0x22 # s" "rp_Skip (CHR 0x3A # s) = CHR 0x3A # s"
  "rp_Skip (CHR 0x2C # s) = CHR 0x2C # s" "rp_Skip (CHR 0x7D # s) = CHR 0x7D # s" "rp_Skip (CHR 0x7B # s) = CHR 0x7B # s"
  by (simp_all add: rp_Skip_def isspace_def byte_val_def)

lemma member_step:
  assumes "list_all rp_plain key" "list_all (\<lambda>c. c \<noteq> CHR 0x22 \<and> c \<noteq> CHR 0x5C \<and> 32 \<le> byte_val c) key" "member_value key r e = Inr (e', d # r')" "d = CHR 0x2C \<or> d = CHR 0x7D"
  shows "members (json_key key @ r) e = (if d = CHR 0x2C then members r' e' else Inr (e', r'))"
proof -
  have "concat (map quote_char key) = key" using assms(2) by (induction key) (auto simp: quote_char_def byte_val_def)
  then have "rp_String (CHR 0x22 # key @ CHR 0x22 # CHR 0x3A # r) = (True, key, CHR 0x3A # r)"
    using rp_String_quoted [OF assms(1), of "CHR 0x3A # r"] by (simp add: QuoteJson_def)
  then show ?thesis using assms(3,4) by (subst members.simps) (auto simp: json_key_def)
qed

text \<open>C28: A printed request is parsed back to the same request. For every identifier and operation that are not empty
  and in ASCII, without the control characters that are written in hexadecimal, and every body of printed
  fields, whatever strings it holds, the parser accepts the printed envelope and returns the
  request.\<close>

theorem printed_request_parsed:
  assumes "i \<noteq> []" "p \<noteq> []" "list_all rp_plain i" "list_all rp_plain p"
  shows "Parser_Parse (print_envelope \<lparr>req_id = i, req_op = p, body_json = print_body fs\<rparr>)
    = Inr \<lparr>req_id = i, req_op = p, body_json = print_body fs\<rparr>"
proof -
  let ?e0 = "\<lparr>en_id = None, en_op = None, en_body = None\<rparr>" and ?e1 = "\<lparr>en_id = Some i, en_op = None, en_body = None\<rparr>"
    and ?e2 = "\<lparr>en_id = Some i, en_op = Some p, en_body = None\<rparr>"
    and ?e3 = "\<lparr>en_id = Some i, en_op = Some p, en_body = Some (print_body fs)\<rparr>"
  have k: "list_all rp_plain ''id''" "list_all rp_plain ''op''" "list_all rp_plain ''body''"
    "\<And>x. x \<in> {''id'', ''op'', ''body''} \<Longrightarrow> list_all (\<lambda>c. c \<noteq> CHR 0x22 \<and> c \<noteq> CHR 0x5C \<and> 32 \<le> byte_val c) x"
    by (auto simp: rp_plain_def byte_val_def)
  have 1: "member_value ''id'' (QuoteJson i @ CHR 0x2C # r) ?e0 = Inr (?e1, CHR 0x2C # r)" for r
    using rp_String_quoted [OF assms(3)] by (simp add: member_value_def)
  have 2: "member_value ''op'' (QuoteJson p @ CHR 0x2C # r) ?e1 = Inr (?e2, CHR 0x2C # r)" for r
    using rp_String_quoted [OF assms(4)] by (simp add: member_value_def)
  have 3: "member_value ''body'' (print_body fs @ CHR 0x7D # r) ?e2 = Inr (?e3, CHR 0x7D # r)" for r
    using rp_Object_body by (simp add: member_value_def)
  have "members (json_key ''id'' @ QuoteJson i @ CHR 0x2C # json_key ''op'' @ QuoteJson p @ CHR 0x2C
      # json_key ''body'' @ print_body fs @ [CHR 0x7D]) ?e0 = Inr (?e3, [])"
    using member_step [OF k(1) k(4) 1] member_step [OF k(2) k(4) 2] member_step [OF k(3) k(4) 3] by simp
  then show ?thesis using assms(1,2) by (simp add: Parser_Parse_def print_envelope_def)
qed

theorem printed_request_parsed_witness:
  "Parser_Parse (print_envelope \<lparr>req_id = ''7'', req_op = ''SET'', body_json = print_body [(''key'', BV_String ''a'')]\<rparr>)
   = Inr \<lparr>req_id = ''7'', req_op = ''SET'', body_json = print_body [(''key'', BV_String ''a'')]\<rparr>"
  by (rule printed_request_parsed) (simp_all add: rp_plain_def byte_val_def)

text \<open>A member that is not known may hold a string but not an object: the failed attempt to read a string has
  already consumed the brace.\<close>

lemma ignored_object_refused:
  "Parser_Parse (''{'' @ json_key ''x'' @ ''{}'' @ '','' @ tl (print_envelope \<lparr>req_id = ''7'', req_op = ''GET'', body_json = ''{}''\<rparr>))
   = invalid_request ''invalid JSON value''"
  by code_simp

text \<open>An identifier with a byte outside ASCII is refused.\<close>

lemma non_ascii_refused:
  "Parser_Parse (print_envelope \<lparr>req_id = [char_of (195 :: nat), char_of (169 :: nat)], req_op = ''GET'', body_json = ''{}''\<rparr>)
   = invalid_request ''id must be a string''"
  by code_simp

end
