(* ===== verification/GK_Http.thy ===== *)
theory GK_Http
  imports GK_Commands "HOL-Library.Sublist"
begin

text \<open>
  HTTP messages, \<open>include/gatekeeper/protocol/http/http_types.h\<close>, and the searches in strings the HTTP
  code uses. A header table of a request is an \<open>unordered_map\<close> filled with \<open>emplace\<close>: the first value
  of a name stays. A response keeps its headers in order.

  Shown: what \<open>find\<close> returns, that a header set last is the one sent, and that no header is sent twice.
\<close>

section \<open>Searching in strings\<close>

text \<open>\<open>std::string_view::find\<close> of a pattern, from the position \<open>i\<close> whose suffix is given.\<close>

fun find_from :: "string \<Rightarrow> nat \<Rightarrow> string \<Rightarrow> nat option" where
  "find_from pat i [] = (if pat = [] then Some i else None)"
| "find_from pat i (c # s) = (if prefix pat (c # s) then Some i else find_from pat (Suc i) s)"

definition str_find :: "string \<Rightarrow> string \<Rightarrow> nat \<Rightarrow> nat option" where
  "str_find pat s pos = (if pos \<le> length s then find_from pat pos (drop pos s) else None)"

lemma find_from_Some:
  "find_from pat i s = Some p \<Longrightarrow>
   i \<le> p \<and> prefix pat (drop (p - i) s) \<and> (\<forall>q. i \<le> q \<longrightarrow> q < p \<longrightarrow> \<not> prefix pat (drop (q - i) s))"
proof (induction pat i s rule: find_from.induct)
  case (2 pat i c s)
  show ?case
  proof (cases "prefix pat (c # s)")
    case False
    note IH = "2.IH" [OF False] and d = "2.prems" False
    have r: "Suc i \<le> p \<and> prefix pat (drop (p - Suc i) s) \<and>
        (\<forall>q. Suc i \<le> q \<longrightarrow> q < p \<longrightarrow> \<not> prefix pat (drop (q - Suc i) s))"
      using IH d by simp
    have "\<not> prefix pat (drop (q - i) (c # s))" if "i \<le> q" "q < p" for q
      using r False that by (cases "q = i") (auto simp: Suc_diff_le le_Suc_eq drop_Cons')
    then show ?thesis using r by (auto simp: drop_Cons')
  qed (use "2.prems" in auto)
qed (auto split: if_splits)

lemma find_from_None: "find_from pat i s = None \<Longrightarrow> \<not> prefix pat (drop j s)"
proof (induction pat i s arbitrary: j rule: find_from.induct)
  case (2 pat i c s)
  then show ?case by (cases j) (auto split: if_splits)
qed (auto split: if_splits)

lemma find_from_skip:
  assumes "\<And>j. j < length a \<Longrightarrow> \<not> prefix pat (drop j a @ b)" and "prefix pat b" "pat \<noteq> []"
  shows "find_from pat i (a @ b) = Some (i + length a)"
  using assms
proof (induction a arbitrary: i)
  case Nil
  then show ?case by (cases b) auto
next
  case (Cons c a)
  have "\<not> prefix pat (c # a @ b)" using Cons.prems(1) [of 0] by simp
  moreover have "find_from pat (Suc i) (a @ b) = Some (Suc i + length a)"
    using Cons.prems by (intro Cons.IH) (metis Suc_less_eq drop_Suc_Cons length_Cons)
  ultimately show ?case by simp
qed

lemma str_find_bounds:
  assumes "str_find pat s pos = Some p" "pat \<noteq> []"
  shows "pos \<le> p \<and> p + length pat \<le> length s"
proof -
  have f: "pos \<le> p \<and> prefix pat (drop p s)"
    using assms(1) by (auto simp: str_find_def split: if_splits dest!: find_from_Some)
  have "length pat \<le> length s - p" using f prefix_length_le [of pat "drop p s"] by simp
  moreover have "length pat > 0" using assms(2) by simp
  ultimately show ?thesis using f by linarith
qed

text \<open>One character: the first occurrence from the position on.\<close>

lemma find_from_char: "find_from [c] i s = (if c \<in> set s then Some (i + length (takeWhile (\<lambda>x. x \<noteq> c) s)) else None)"
  by (induction s arbitrary: i) auto

section \<open>Requests and responses\<close>

record HttpRequest =
  rq_method :: string
  rq_uri :: string
  rq_path :: string
  rq_query :: string
  rq_version :: string
  rq_headers :: "(string \<times> string) list"
  rq_body :: string

record HttpResponse =
  resp_status :: "32 word"
  resp_text :: string
  resp_headers :: "(string \<times> string) list"
  resp_body :: string

definition GetHeader :: "string \<Rightarrow> HttpRequest \<Rightarrow> string" where
  "GetHeader name req = (case map_of (rq_headers req) name of Some v \<Rightarrow> v | None \<Rightarrow> [])"

definition emplace_header :: "string \<Rightarrow> string \<Rightarrow> (string \<times> string) list \<Rightarrow> (string \<times> string) list" where
  "emplace_header name v hs = (if map_of hs name = None then hs @ [(name, v)] else hs)"

fun set_header :: "string \<Rightarrow> string \<Rightarrow> (string \<times> string) list \<Rightarrow> (string \<times> string) list" where
  "set_header name v [] = [(name, v)]"
| "set_header name v ((k, w) # hs) = (if k = name then (k, v) # hs else (k, w) # set_header name v hs)"

definition SetHeader :: "string \<Rightarrow> string \<Rightarrow> HttpResponse \<Rightarrow> HttpResponse" where
  "SetHeader name v res = res\<lparr>resp_headers := set_header name v (resp_headers res)\<rparr>"

definition HasHeader :: "string \<Rightarrow> HttpResponse \<Rightarrow> bool" where
  "HasHeader name res \<longleftrightarrow> list_ex (\<lambda>(k, v). k = name) (resp_headers res)"

definition crlf :: string where
  "crlf = [CHR 0x0D, CHR 0x0A]"

definition Serialize :: "HttpResponse \<Rightarrow> string" where
  "Serialize res =
     ''HTTP/1.1 '' @ to_string_i32 (resp_status res) @ '' '' @ resp_text res @ crlf
     @ concat (map (\<lambda>(k, v). k @ '': '' @ v @ crlf) (resp_headers res)) @ crlf @ resp_body res"

lemma map_of_set_header [simp]: "map_of (set_header name v hs) = (map_of hs)(name \<mapsto> v)"
  by (induction name v hs rule: set_header.induct) auto

lemma set_header_keys: "fst ` set (set_header name v hs) = insert name (fst ` set hs)"
  by (induction name v hs rule: set_header.induct) auto

lemma set_header_distinct: "distinct (map fst hs) \<Longrightarrow> distinct (map fst (set_header name v hs))"
proof (induction name v hs rule: set_header.induct)
  case (2 name v k w hs)
  then show ?case using set_header_keys [of name v hs] by auto
qed simp

end
