(* ===== verification/GK_Command_Inv.thy ===== *)
theory GK_Command_Inv
  imports GK_Commands GK_Kv_Spec
begin

text \<open>
  Every operation of the store keeps the store's invariant, whatever its arguments, and so does
  every command handler, whatever its body.
\<close>

named_theorems store_invs

section \<open>The store\<close>

lemma kv_refines_self: "store_inv H st \<Longrightarrow> kv_refines H now st (contents H st)"
  by (simp add: kv_refines_def)

lemma kv_exec_inv: "store_inv H st \<Longrightarrow> store_inv H (snd (kv_exec H now op st))"
  using kv_exec_refines [OF kv_refines_self] by (blast dest: kv_refines_inv)

lemma kv_ops_inv [store_invs]:
  assumes "store_inv H st"
  shows "store_inv H (snd (MemoryStore_Set H now key v c ttl st))"
    and "store_inv H (snd (MemoryStore_Get H now key st))"
    and "store_inv H (snd (MemoryStore_Del H key st))"
    and "store_inv H (snd (MemoryStore_Exists H now key st))"
    and "store_inv H (snd (MemoryStore_Type H now key st))"
    and "store_inv H (snd (MemoryStore_Expire H now key ttl st))"
    and "store_inv H (snd (MemoryStore_Ttl H now key st))"
    and "store_inv H (snd (MemoryStore_Pttl H now key st))"
    and "store_inv H (snd (MemoryStore_Persist H now key st))"
    and "store_inv H (snd (MemoryStore_IncrBy H now key delta ttl st))"
  using kv_exec_inv [OF assms, of now "OpSet key v c ttl"] kv_exec_inv [OF assms, of now "OpGet key"]
    kv_exec_inv [OF assms, of now "OpDel key"] kv_exec_inv [OF assms, of now "OpExists key"]
    kv_exec_inv [OF assms, of now "OpType key"] kv_exec_inv [OF assms, of now "OpExpire key ttl"]
    kv_exec_inv [OF assms, of now "OpTtl key"] kv_exec_inv [OF assms, of now "OpPttl key"]
    kv_exec_inv [OF assms, of now "OpPersist key"] kv_exec_inv [OF assms, of now "OpIncrBy key delta ttl"]
  by simp_all

lemma RateLimit_inv [store_invs]:
  "store_inv H st \<Longrightarrow> store_inv H (snd (MemoryStore_RateLimit ub H now key limit w cost st))"
  using RateLimit_effect(3) [of H st limit w ub now key cost]
  by (cases "limit = 0 \<or> w = 0") (auto simp: MemoryStore_RateLimit_def)

lemma ReserveQuota_inv [store_invs]:
  assumes "store_inv H st"
  shows "store_inv H (snd (MemoryStore_ReserveQuota H now key amount ttl st))"
proof -
  let ?sh = "shards st ! GetShard key"
  have inv: "shard_inv H (GetShard key) ?sh" by (rule store_inv_shard [OF assms])
  obtain r seq sh' where res: "ReserveQuota_locked H now key amount ttl (next_reservation_seq st) ?sh = ((r, seq), sh')"
    by (metis prod.collapse)
  have lazy: "shard_inv H (GetShard key) (snd (lazy_find H now key ?sh))"
    by (rule lazy_find_inv [OF inv])
  have "shard_inv H (GetShard key) sh'"
    using res
  proof (cases rule: ReserveQuota_locked_cases)
    case (granted e b)
    then show ?thesis
      using lazy inv unfolding granted_shard_def
      by (auto simp: resv_ok_def granted_record_def intro!: shard_inv_reservations set_balance_inv
          table_inv_put shard_inv_tables(3))
  qed (use lazy in simp)
  then show ?thesis
    using res assms
    by (simp add: MemoryStore_ReserveQuota_def on_shard_def case_prod_beta Let_def store_inv_update)
qed

lemma CommitQuota_inv [store_invs]:
  assumes "store_inv H st"
  shows "store_inv H (snd (MemoryStore_CommitQuota H now key rid actual st))"
proof -
  let ?sh = "shards st ! GetShard key"
  have inv: "shard_inv H (GetShard key) ?sh" by (rule store_inv_shard [OF assms])
  then have "shard_inv H (GetShard key) (snd (CommitQuota_locked H now key rid actual ?sh))"
    by (auto simp: CommitQuota_locked_def Let_def split: option.splits
        intro!: shard_inv_reservations set_balance_inv put_balance_inv table_inv_erase shard_inv_tables(3))
  then show ?thesis
    unfolding MemoryStore_CommitQuota_def on_shard_snd by (rule store_inv_update [OF assms])
qed

lemma RollbackQuota_inv [store_invs]:
  assumes "store_inv H st"
  shows "store_inv H (snd (MemoryStore_RollbackQuota H now key rid st))"
proof -
  let ?sh = "shards st ! GetShard key"
  have inv: "shard_inv H (GetShard key) ?sh" by (rule store_inv_shard [OF assms])
  then have "shard_inv H (GetShard key) (snd (RollbackQuota_locked H now key rid ?sh))"
    by (auto simp: RollbackQuota_locked_def Let_def split: option.splits
        intro!: shard_inv_reservations set_balance_inv put_balance_inv table_inv_erase shard_inv_tables(3))
  then show ?thesis
    unfolding MemoryStore_RollbackQuota_def on_shard_snd by (rule store_inv_update [OF assms])
qed

lemma Idem_inv [store_invs]:
  assumes "store_inv H st"
  shows "store_inv H (snd (MemoryStore_IdemBegin H now key rhash ttl tok st))"
    and "store_inv H (snd (MemoryStore_IdemComplete H now key tok rcode rbody st))"
    and "store_inv H (snd (MemoryStore_IdemFail H now key tok msg st))"
    and "store_inv H (snd (MemoryStore_IdemGet H now key st))"
  using IdemBegin_step [OF assms prod.collapse [symmetric]] IdemComplete_step [OF assms prod.collapse [symmetric]]
    IdemFail_step [OF assms prod.collapse [symmetric]] IdemGet_step [OF assms prod.collapse [symmetric]]
  by blast+

section \<open>The handlers\<close>

definition keeps_inv :: "handler \<Rightarrow> bool" where
  "keeps_inv h \<longleftrightarrow> (\<forall>env body st r st'. store_inv (std_hash env) st \<longrightarrow> h env body st = Inr (r, st') \<longrightarrow>
     store_inv (std_hash env) st')"

lemma Validated_inv: "keeps_inv h \<Longrightarrow> store_inv (std_hash env) st \<Longrightarrow> store_inv (std_hash env) (snd (Validated h env body st))"
  by (auto simp: Validated_def keeps_inv_def split: sum.splits)

lemma del_loop_inv: "store_inv H st \<Longrightarrow> store_inv H (snd (del_loop H ks n st))"
proof (induction ks arbitrary: n st)
  case (Cons k ks)
  then show ?case using kv_ops_inv(3) [of H st k] by (auto split: prod.splits)
qed simp

lemma exists_loop_inv: "store_inv (std_hash env) st \<Longrightarrow> store_inv (std_hash env) (snd (exists_loop env i ks n st))"
proof (induction ks arbitrary: i n st)
  case (Cons k ks)
  then show ?case using kv_ops_inv(4) [of "std_hash env" st "clock env i" k] by (auto split: prod.splits)
qed simp

lemmas cmd_defs = cmd_Set_def cmd_Get_def cmd_Del_def cmd_Exists_def cmd_Type_def cmd_DbSize_def cmd_Keys_def
  cmd_Scan_def cmd_Expire_def cmd_PExpire_def cmd_Ttl_def cmd_Pttl_def cmd_Persist_def cmd_Incr_def cmd_Decr_def
  cmd_IncrBy_def cmd_RateLimit_def cmd_Reserve_def cmd_Commit_def cmd_Rollback_def cmd_QuotaInit_def
  cmd_QuotaGet_def cmd_IdemBegin_def cmd_IdemComplete_def cmd_IdemFail_def cmd_IdemGet_def

lemma store_inv_of_eq: "x = (r, st') \<Longrightarrow> store_inv H (snd x) \<Longrightarrow> store_inv H st'"
  by simp

lemma incr_reply_inv: "store_inv H (snd x) \<Longrightarrow> incr_reply x = Inr (r, st') \<Longrightarrow> store_inv H st'"
  by (auto simp: incr_reply_def split: prod.splits if_splits)

lemma handlers_keep_inv:
  "keeps_inv cmd_Set" "keeps_inv cmd_Get" "keeps_inv cmd_Del" "keeps_inv cmd_Exists" "keeps_inv cmd_Type"
  "keeps_inv cmd_DbSize" "keeps_inv cmd_Keys" "keeps_inv cmd_Scan" "keeps_inv cmd_Expire" "keeps_inv cmd_PExpire"
  "keeps_inv cmd_Ttl" "keeps_inv cmd_Pttl" "keeps_inv cmd_Persist" "keeps_inv cmd_Incr" "keeps_inv cmd_Decr"
  "keeps_inv cmd_IncrBy" "keeps_inv cmd_RateLimit" "keeps_inv cmd_Reserve" "keeps_inv cmd_Commit"
  "keeps_inv cmd_Rollback" "keeps_inv cmd_QuotaInit" "keeps_inv cmd_QuotaGet" "keeps_inv cmd_IdemBegin"
  "keeps_inv cmd_IdemComplete" "keeps_inv cmd_IdemFail" "keeps_inv cmd_IdemGet"
  unfolding keeps_inv_def cmd_defs Let_def
  by (auto split: sum.splits prod.splits if_splits option.splits
      intro: store_inv_of_eq store_invs del_loop_inv exists_loop_inv elim: incr_reply_inv [rotated])

end
