(* ===== verification/GK_Aof.thy ===== *)
theory GK_Aof
  imports GK_Prelude "HOL-Library.Sublist"
begin

text \<open>
  The append-only file: the writer \<open>src/storage/aof/aof_writer.cpp\<close> and the line splitting of
  \<open>src/storage/aof/aof_loader.cpp\<close>. The writer's state is what the file holds and how much of it
  has been forced to disk. The operating system's answers to the \<open>write\<close> calls are an argument:
  a list of outcomes, consumed in order. A list that ends before the line is written stands for a
  process that is killed in the loop.

  Shown: whatever the operating system answers, a record is appended whole or the file ends in a
  prefix of it, nothing before it is touched, and a file of whole records splits into them again.
\<close>

datatype FsyncPolicy = Policy_Always | Policy_Everysec | Policy_No

record AofWriter =
  aw_policy :: FsyncPolicy
  aw_open :: bool
  aw_data :: string
  aw_synced :: nat

text \<open>The file is opened for appending; the outcome of \<open>open\<close> and what the file already holds come
  from the file system.\<close>

definition new_AofWriter :: "bool \<Rightarrow> string \<Rightarrow> FsyncPolicy \<Rightarrow> AofWriter" where
  "new_AofWriter opened existing policy =
     \<lparr>aw_policy = policy, aw_open = opened, aw_data = existing, aw_synced = length existing\<rparr>"

datatype write_outcome = Written nat | Interrupted | WriteError

text \<open>The loop around \<open>write\<close>: how it ends and the bytes of the line that reached the file. A call
  reports at most the bytes it was given; zero or an error other than an interruption ends the loop.\<close>

fun write_loop :: "write_outcome list \<Rightarrow> string \<Rightarrow> bool option \<times> string" where
  "write_loop os [] = (Some True, [])"
| "write_loop [] (c # s) = (None, [])"
| "write_loop (Interrupted # os) (c # s) = write_loop os (c # s)"
| "write_loop (WriteError # os) (c # s) = (Some False, [])"
| "write_loop (Written n # os) (c # s) =
     (if n = 0 then (Some False, [])
      else (case write_loop os (drop n (c # s)) of (r, w) \<Rightarrow> (r, take n (c # s) @ w)))"

definition aof_line :: "string \<Rightarrow> string \<Rightarrow> string" where
  "aof_line op payload = op @ [CHR 0x20] @ payload @ [CHR 0x0A]"

text \<open>\<open>None\<close> when the process does not come back from the loop.\<close>

definition AofWriter_Append :: "write_outcome list \<Rightarrow> string \<Rightarrow> string \<Rightarrow> AofWriter \<Rightarrow> bool option \<times> AofWriter" where
  "AofWriter_Append os op payload_json w =
     (if op = [] then (Some False, w)
      else if \<not> aw_open w then (Some False, w)
      else (case write_loop os (aof_line op payload_json) of
              (r, bytes) \<Rightarrow>
                (let w1 = w\<lparr>aw_data := aw_data w @ bytes\<rparr>
                 in (r, if r = Some True \<and> aw_policy w = Policy_Always
                        then w1\<lparr>aw_synced := length (aw_data w1)\<rparr> else w1))))"

definition AofWriter_Fsync :: "AofWriter \<Rightarrow> AofWriter" where
  "AofWriter_Fsync w = (if aw_open w then w\<lparr>aw_synced := length (aw_data w)\<rparr> else w)"

definition AofWriter_Close :: "AofWriter \<Rightarrow> AofWriter" where
  "AofWriter_Close w = (if aw_open w then w\<lparr>aw_synced := length (aw_data w), aw_open := False\<rparr> else w)"

section \<open>Records\<close>

lemma write_loop_prefix: "write_loop os s = (r, w) \<Longrightarrow> prefix w s \<and> (r = Some True \<longrightarrow> w = s)"
proof (induction os s arbitrary: r w rule: write_loop.induct)
  case (5 n os c s)
  show ?case
  proof (cases "n = 0")
    case False
    obtain r' w' where rec: "write_loop os (drop n (c # s)) = (r', w')" by fastforce
    have "prefix w' (drop n (c # s)) \<and> (r' = Some True \<longrightarrow> w' = drop n (c # s))"
      by (rule "5.IH" [OF False rec])
    moreover have "r = r'" "w = take n (c # s) @ w'"
      using "5.prems" rec False by simp_all
    moreover have "prefix (take n (c # s) @ w') (take n (c # s) @ drop n (c # s))"
      if "prefix w' (drop n (c # s))"
      using that by (simp only: same_prefix_prefix)
    ultimately show ?thesis by (metis append_take_drop_id)
  qed (use "5.prems" in auto)
qed auto

lemma Append_data:
  assumes "AofWriter_Append os op payload w = (r, w')"
  shows "\<exists>p. aw_data w' = aw_data w @ p \<and> prefix p (aof_line op payload) \<and> (r = Some True \<longrightarrow> p = aof_line op payload)"
  using assms write_loop_prefix [of os "aof_line op payload"]
  by (auto simp: AofWriter_Append_def Let_def split: if_splits prod.splits)

text \<open>appending is all or a prefix. Whatever the operating system does with the writes - partial
  writes, interruptions, errors, or the process dying - the file keeps everything it held, followed by
  a prefix of the record; if the append reports success the whole record is there, and under the
  policy that syncs always, all of the file is then on disk.\<close>

theorem append_whole_or_prefix:
  assumes "AofWriter_Append os op payload w = (r, w')"
  shows "(\<exists>p. aw_data w' = aw_data w @ p \<and> prefix p (aof_line op payload) \<and> (r = Some True \<longrightarrow> p = aof_line op payload))
    \<and> (r = Some True \<and> aw_policy w = Policy_Always \<longrightarrow> aw_synced w' = length (aw_data w'))"
proof
  show "r = Some True \<and> aw_policy w = Policy_Always \<longrightarrow> aw_synced w' = length (aw_data w')"
    using assms by (auto simp: AofWriter_Append_def Let_def split: if_splits prod.splits)
qed (rule Append_data [OF assms])

theorem append_whole_or_prefix_witness:
  "\<exists>w'. AofWriter_Append [Written 2, Interrupted, Written 1, WriteError] ''SET'' ''{}''
      \<lparr>aw_policy = Policy_Always, aw_open = True, aw_data = ''x'', aw_synced = 0\<rparr> = (Some False, w') \<and>
    (\<exists>p. aw_data w' = ''x'' @ p \<and> prefix p (aof_line ''SET'' ''{}''))"
proof -
  let ?w = "\<lparr>aw_policy = Policy_Always, aw_open = True, aw_data = ''x'', aw_synced = 0\<rparr>"
  let ?w' = "\<lparr>aw_policy = Policy_Always, aw_open = True, aw_data = ''xSET'', aw_synced = 0\<rparr>"
  have "AofWriter_Append [Written 2, Interrupted, Written 1, WriteError] ''SET'' ''{}'' ?w = (Some False, ?w')"
    by (simp add: AofWriter_Append_def aof_line_def)
  with append_whole_or_prefix [OF this] show ?thesis by auto
qed

section \<open>Splitting a file into records\<close>

text \<open>\<open>std::getline\<close>: the text up to the next newline; a last line without a newline is a line too.\<close>

function getlines :: "string \<Rightarrow> string list" where
  "getlines s =
     (if s = [] then []
      else takeWhile (\<lambda>c. c \<noteq> CHR 0x0A) s # getlines (drop 1 (dropWhile (\<lambda>c. c \<noteq> CHR 0x0A) s)))"
  by pat_completeness auto
termination
proof (relation "measure length", simp_all)
  fix s :: string
  assume "s \<noteq> []"
  then show "length (dropWhile (\<lambda>c. c \<noteq> CHR 0x0A) s) - Suc 0 < length s"
    using length_dropWhile_le [of "\<lambda>c. c \<noteq> CHR 0x0A" s] by (cases s) auto
qed

declare getlines.simps [simp del]

text \<open>A line of the file: nothing to do, not a record, or a command with its body.\<close>

datatype aof_entry = Aof_ignored | Aof_malformed | Aof_command string string

definition parse_line :: "string \<Rightarrow> aof_entry" where
  "parse_line line =
     (if line = [] \<or> hd line = CHR ''#'' then Aof_ignored
      else if CHR 0x20 \<notin> set line then Aof_malformed
      else Aof_command (takeWhile (\<lambda>c. c \<noteq> CHR 0x20) line) (drop 1 (dropWhile (\<lambda>c. c \<noteq> CHR 0x20) line)))"

lemma getlines_Nil [simp]: "getlines [] = []"
  by (simp add: getlines.simps)

lemma getlines_line: "CHR 0x0A \<notin> set l \<Longrightarrow> getlines (l @ CHR 0x0A # s) = l # getlines s"
  by (subst getlines.simps) (auto simp: takeWhile_append dropWhile_append)

lemma parse_line_record:
  assumes "op \<noteq> []" "hd op \<noteq> CHR ''#''" "CHR 0x20 \<notin> set op"
  shows "parse_line (op @ CHR 0x20 # body) = Aof_command op body"
  using assms by (auto simp: parse_line_def takeWhile_append dropWhile_append hd_append)

lemma getlines_concat:
  assumes "\<forall>(op, body) \<in> set rs. CHR 0x0A \<notin> set op \<and> CHR 0x0A \<notin> set body"
  shows "getlines (concat (map (\<lambda>(op, body). aof_line op body) rs)) = map (\<lambda>(op, body). op @ CHR 0x20 # body) rs"
  using assms
proof (induction rs)
  case (Cons r rs)
  obtain op body where r: "r = (op, body)" by force
  have "getlines ((op @ CHR 0x20 # body) @ CHR 0x0A # s) = (op @ CHR 0x20 # body) # getlines s" for s
    by (rule getlines_line) (use Cons.prems r in auto)
  then show ?case
    using Cons r by (simp add: aof_line_def)
qed simp

lemma getlines_records:
  assumes "\<forall>(op, body) \<in> set rs. op \<noteq> [] \<and> hd op \<noteq> CHR ''#'' \<and> CHR 0x20 \<notin> set op \<and>
      CHR 0x0A \<notin> set op \<and> CHR 0x0A \<notin> set body"
  shows "map parse_line (getlines (concat (map (\<lambda>(op, body). aof_line op body) rs)))
       = map (\<lambda>(op, body). Aof_command op body) rs"
  using getlines_concat [of rs] assms by (fastforce simp: parse_line_record)

text \<open>the loader reads back what the writer wrote. A file that consists of whole records, each
  an operation name without blanks and a body without line breaks, splits into exactly those
  records in order.\<close>

theorem aof_records_roundtrip:
  assumes "\<forall>(op, body) \<in> set rs. op \<noteq> [] \<and> hd op \<noteq> CHR ''#'' \<and> CHR 0x20 \<notin> set op \<and>
      CHR 0x0A \<notin> set op \<and> CHR 0x0A \<notin> set body"
  shows "map parse_line (getlines (concat (map (\<lambda>(op, body). aof_line op body) rs)))
       = map (\<lambda>(op, body). Aof_command op body) rs"
  by (rule getlines_records [OF assms])

theorem aof_records_roundtrip_witness:
  "map parse_line (getlines (concat (map (\<lambda>(op, body). aof_line op body) [(''SET'', ''{}''), (''DEL'', ''{ }'')])))
   = [Aof_command ''SET'' ''{}'', Aof_command ''DEL'' ''{ }'']"
  by (subst aof_records_roundtrip) auto

end
