(* ===== verification/GK_Dispatcher.thy ===== *)
theory GK_Dispatcher
  imports GK_Command_Inv GK_Aof GK_Purge
begin

text \<open>
  The dispatcher, \<open>src/command/dispatcher.cpp\<close> and \<open>name.cpp\<close>, and the loader of the append-only
  file, \<open>src/storage/aof/aof_loader.cpp\<close>. The dispatcher owns the store, the command table filled by
  its constructor and, once set, the writer of the append-only file. A dispatch returns \<open>None\<close> when
  the process dies while the record is being appended.

  Shown: the constructor registers every command without a clash; every request keeps the store's
  invariant; a rejected request changes neither the store nor the file; and a server that is
  restarted from the file of its predecessor answers for its keys as the predecessor did.
\<close>

section \<open>Names\<close>

definition NormalizeName :: "string \<Rightarrow> string" where
  "NormalizeName name =
     map (\<lambda>c. if 97 \<le> byte_val c \<and> byte_val c \<le> 122 then char_of (byte_val c - 97 + 65) else c) name"

definition IsWriteOp :: "string \<Rightarrow> bool" where
  "IsWriteOp op \<longleftrightarrow>
     op = ''SET'' \<or> op = ''DEL'' \<or> op = ''EXPIRE'' \<or> op = ''PEXPIRE'' \<or> op = ''PERSIST'' \<or>
     op = ''GK.RATE_LIMIT'' \<or> op = ''GK.RESERVE'' \<or> op = ''GK.COMMIT'' \<or> op = ''GK.ROLLBACK'' \<or>
     op = ''GK.QUOTA_INIT'' \<or> op = ''GK.IDEM_BEGIN'' \<or> op = ''GK.IDEM_COMPLETE'' \<or> op = ''GK.IDEM_FAIL''"

section \<open>The command table\<close>

type_synonym command = "CallEnv \<Rightarrow> string \<Rightarrow> MemoryStore \<Rightarrow> Result \<times> MemoryStore"

record Dispatcher =
  d_store :: MemoryStore
  d_aof :: "AofWriter option"
  d_commands :: "(string \<times> command) list"

text \<open>\<open>None\<close> for the exception thrown on an empty name or one that is already registered.\<close>

definition Register :: "string \<Rightarrow> command \<Rightarrow> (string \<times> command) list \<Rightarrow> (string \<times> command) list option" where
  "Register name handler commands =
     (let name = NormalizeName name
      in if name = [] \<or> map_of commands name \<noteq> None then None else Some (commands @ [(name, handler)]))"

fun register_all :: "(string \<times> command) list \<Rightarrow> (string \<times> command) list \<Rightarrow> (string \<times> command) list option" where
  "register_all [] commands = Some commands"
| "register_all ((name, h) # rs) commands =
     (case Register name h commands of None \<Rightarrow> None | Some commands' \<Rightarrow> register_all rs commands')"

definition cmd_Ping :: command where
  "cmd_Ping env body st = (success (''{'' @ json_key ''pong'' @ ''true}''), st)"

definition StringOps :: "(string \<times> command) list" where
  "StringOps = [(''SET'', Validated cmd_Set), (''GET'', Validated cmd_Get)]"

definition KeyOps :: "(string \<times> command) list" where
  "KeyOps =
     [(''DEL'', Validated cmd_Del), (''EXISTS'', Validated cmd_Exists), (''TYPE'', Validated cmd_Type),
      (''DBSIZE'', Validated cmd_DbSize), (''KEYS'', Validated cmd_Keys), (''SCAN'', Validated cmd_Scan)]"

definition TtlOps :: "(string \<times> command) list" where
  "TtlOps =
     [(''EXPIRE'', Validated cmd_Expire), (''PEXPIRE'', Validated cmd_PExpire), (''TTL'', Validated cmd_Ttl),
      (''PTTL'', Validated cmd_Pttl), (''PERSIST'', Validated cmd_Persist)]"

definition CounterOps :: "(string \<times> command) list" where
  "CounterOps =
     [(''INCR'', Validated cmd_Incr), (''DECR'', Validated cmd_Decr), (''INCRBY'', Validated cmd_IncrBy),
      (''GK.RATE_LIMIT'', Validated cmd_RateLimit)]"

definition ReservationOps :: "(string \<times> command) list" where
  "ReservationOps =
     [(''GK.RESERVE'', Validated cmd_Reserve), (''GK.COMMIT'', Validated cmd_Commit),
      (''GK.ROLLBACK'', Validated cmd_Rollback), (''GK.QUOTA_INIT'', Validated cmd_QuotaInit),
      (''GK.QUOTA_GET'', Validated cmd_QuotaGet)]"

definition IdempotencyOps :: "(string \<times> command) list" where
  "IdempotencyOps =
     [(''GK.IDEM_BEGIN'', Validated cmd_IdemBegin), (''GK.IDEM_COMPLETE'', Validated cmd_IdemComplete),
      (''GK.IDEM_FAIL'', Validated cmd_IdemFail), (''GK.IDEM_GET'', Validated cmd_IdemGet)]"

definition registrations :: "(string \<times> command) list" where
  "registrations = (''PING'', cmd_Ping) # StringOps @ KeyOps @ TtlOps @ CounterOps @ ReservationOps @ IdempotencyOps"

definition new_Dispatcher :: "MemoryStore \<Rightarrow> Dispatcher option" where
  "new_Dispatcher st =
     map_option (\<lambda>commands. \<lparr>d_store = st, d_aof = None, d_commands = commands\<rparr>) (register_all registrations [])"

definition SetAofWriter :: "AofWriter option \<Rightarrow> Dispatcher \<Rightarrow> Dispatcher" where
  "SetAofWriter writer d = d\<lparr>d_aof := writer\<rparr>"

section \<open>Dispatch\<close>

text \<open>\<open>find\<close> on strings, and \<open>rfind\<close> of one character: the index of the first, or last, match.\<close>

fun find_sub :: "string \<Rightarrow> string \<Rightarrow> nat option" where
  "find_sub pat [] = (if pat = [] then Some 0 else None)"
| "find_sub pat (c # s) =
     (if take (length pat) (c # s) = pat then Some 0 else map_option Suc (find_sub pat s))"

definition rfind_char :: "char \<Rightarrow> string \<Rightarrow> nat option" where
  "rfind_char c s = (if c \<in> set s then Some (length s - 1 - length (takeWhile (\<lambda>x. x \<noteq> c) (rev s))) else None)"

text \<open>The body logged for \<open>GK.IDEM_BEGIN\<close>: the token that was handed out is added to it.\<close>

definition idem_aof_body :: "string \<Rightarrow> string \<Rightarrow> string" where
  "idem_aof_body aof_body result =
     (if find_sub (json_raw ''owner_token'') aof_body \<noteq> None then aof_body
      else case find_sub (json_key ''owner_token'' @ [CHR 0x22]) result of
          None \<Rightarrow> aof_body
        | Some p \<Rightarrow>
            (let rest = drop (p + 15) result
             in case find_sub [CHR 0x22] rest of
                  None \<Rightarrow> aof_body
                | Some n \<Rightarrow>
                    (case rfind_char (CHR 0x7D) aof_body of
                       None \<Rightarrow> aof_body
                     | Some b \<Rightarrow>
                         take b aof_body @ '','' @ json_key ''owner_token'' @ json_raw (take n rest) @ drop b aof_body)))"

definition Dispatch :: "CallEnv \<Rightarrow> write_outcome list \<Rightarrow> Request \<Rightarrow> Dispatcher \<Rightarrow> Result option \<times> Dispatcher" where
  "Dispatch env os req d =
     (case map_of (d_commands d) (NormalizeName (req_op req)) of
        None \<Rightarrow> (Some (failure ''UNKNOWN_COMMAND'' (''unsupported command: '' @ req_op req)), d)
      | Some handler \<Rightarrow>
          (let (res, st') = handler env (body_json req) (d_store d);
               d1 = d\<lparr>d_store := st'\<rparr>
           in case d_aof d of
                None \<Rightarrow> (Some res, d1)
              | Some w \<Rightarrow>
                  if ok res \<and> IsWriteOp (req_op req)
                  then (let aof_body = (if req_op req = ''GK.IDEM_BEGIN''
                                        then idem_aof_body (body_json req) (result_json res) else body_json req);
                            (r, w') = AofWriter_Append os (req_op req) aof_body w
                        in (if r = None then None else Some res, d1\<lparr>d_aof := Some w'\<rparr>))
                  else (Some res, d1)))"

definition Dispatcher_PurgeExpired :: "hash_fn \<Rightarrow> u64 \<Rightarrow> nat \<Rightarrow> Dispatcher \<Rightarrow> nat \<times> Dispatcher" where
  "Dispatcher_PurgeExpired H now sample_limit d =
     (case MemoryStore_PurgeExpired H now sample_limit (d_store d) of (n, st') \<Rightarrow> (n, d\<lparr>d_store := st'\<rparr>))"

section \<open>Loading the append-only file\<close>

datatype LoadResult = LoadResult (lr_ok: bool) (lines_replayed: nat) (lines_skipped: nat) (lr_error: string)

text \<open>One line. The environment is that of the moment the line is replayed.\<close>

definition load_line :: "CallEnv \<Rightarrow> write_outcome list \<Rightarrow> string \<Rightarrow> nat \<times> nat \<times> Dispatcher \<Rightarrow> nat \<times> nat \<times> Dispatcher" where
  "load_line env os line x =
     (case x of (replayed, skipped, d) \<Rightarrow>
        case parse_line line of
          Aof_ignored \<Rightarrow> (replayed, skipped, d)
        | Aof_malformed \<Rightarrow> (replayed, Suc skipped, d)
        | Aof_command op body \<Rightarrow>
            (case Dispatch env os \<lparr>req_id = ''aof'', req_op = op, body_json = body\<rparr> d of
               (Some res, d') \<Rightarrow> if ok res then (Suc replayed, skipped, d') else (replayed, Suc skipped, d')
             | (None, d') \<Rightarrow> (replayed, skipped, d')))"

fun load_lines :: "(nat \<Rightarrow> CallEnv) \<Rightarrow> nat \<Rightarrow> string list \<Rightarrow> nat \<times> nat \<times> Dispatcher \<Rightarrow> nat \<times> nat \<times> Dispatcher" where
  "load_lines envs i [] x = x"
| "load_lines envs i (l # ls) x = load_lines envs (Suc i) ls (load_line (envs i) [] l x)"

text \<open>The file is absent, cannot be opened, or has the given text. The loader runs before the writer
  is set, so nothing is appended while it replays.\<close>

datatype aof_file = Aof_missing | Aof_unreadable | Aof_text string

definition AofLoader_Load :: "(nat \<Rightarrow> CallEnv) \<Rightarrow> aof_file \<Rightarrow> Dispatcher \<Rightarrow> LoadResult \<times> Dispatcher" where
  "AofLoader_Load envs file d =
     (case file of
        Aof_missing \<Rightarrow> (LoadResult True 0 0 [], d)
      | Aof_unreadable \<Rightarrow> (LoadResult False 0 0 ''failed to open AOF file for reading'', d)
      | Aof_text txt \<Rightarrow>
          (case load_lines envs 0 (getlines txt) (0, 0, d) of
             (replayed, skipped, d') \<Rightarrow> (LoadResult True replayed skipped [], d')))"

section \<open>Every request\<close>

lemmas registration_defs = registrations_def StringOps_def KeyOps_def TtlOps_def CounterOps_def ReservationOps_def
  IdempotencyOps_def

lemma registration_names:
  "map fst registrations =
     [''PING'', ''SET'', ''GET'', ''DEL'', ''EXISTS'', ''TYPE'', ''DBSIZE'', ''KEYS'', ''SCAN'', ''EXPIRE'',
      ''PEXPIRE'', ''TTL'', ''PTTL'', ''PERSIST'', ''INCR'', ''DECR'', ''INCRBY'', ''GK.RATE_LIMIT'', ''GK.RESERVE'',
      ''GK.COMMIT'', ''GK.ROLLBACK'', ''GK.QUOTA_INIT'', ''GK.QUOTA_GET'', ''GK.IDEM_BEGIN'', ''GK.IDEM_COMPLETE'',
      ''GK.IDEM_FAIL'', ''GK.IDEM_GET'']"
  by (simp add: registration_defs)

lemma NormalizeName_registrations: "map NormalizeName (map fst registrations) = map fst registrations"
  unfolding registration_names by code_simp

lemma distinct_registrations: "distinct (map fst registrations)"
  unfolding registration_names by code_simp

lemma nonempty_registrations: "[] \<notin> fst ` set registrations"
  by (simp add: registration_defs)

lemma register_all_distinct:
  assumes "map NormalizeName (map fst rs) = map fst rs" "distinct (map fst (cs @ rs))" "[] \<notin> fst ` set rs"
  shows "register_all rs cs = Some (cs @ rs)"
  using assms
proof (induction rs arbitrary: cs)
  case (Cons r rs)
  obtain n h where r: "r = (n, h)" by force
  have "Register n h cs = Some (cs @ [(n, h)])"
    using Cons.prems r by (auto simp: Register_def Let_def map_of_eq_None_iff)
  then show ?case using Cons r by auto
qed simp

lemma new_Dispatcher_eq:
  "new_Dispatcher st = Some \<lparr>d_store = st, d_aof = None, d_commands = registrations\<rparr>"
  using register_all_distinct [OF NormalizeName_registrations, of "[]"] distinct_registrations nonempty_registrations
  by (simp add: new_Dispatcher_def)

lemma command_inv:
  assumes "(name, h) \<in> set registrations" "store_inv (std_hash env) st"
  shows "store_inv (std_hash env) (snd (h env body st))"
  using assms handlers_keep_inv Validated_inv
  unfolding registration_defs by (auto simp: cmd_Ping_def)

lemma Dispatch_inv:
  assumes "d_commands d = registrations" "store_inv (std_hash env) (d_store d)" "Dispatch env os req d = (r, d')"
  shows "store_inv (std_hash env) (d_store d') \<and> d_commands d' = registrations"
  using assms
  by (auto simp: Dispatch_def Let_def split: option.splits prod.splits if_splits
      dest!: map_of_SomeD dest: command_inv [where body = "body_json req"])

fun dispatch_all :: "(CallEnv \<times> write_outcome list \<times> Request) list \<Rightarrow> Dispatcher \<Rightarrow> Dispatcher" where
  "dispatch_all [] d = d"
| "dispatch_all ((env, os, req) # xs) d = dispatch_all xs (snd (Dispatch env os req d))"

lemma dispatch_all_inv:
  assumes "d_commands d = registrations" "store_inv H (d_store d)" "\<forall>(env, os, req) \<in> set xs. std_hash env = H"
  shows "store_inv H (d_store (dispatch_all xs d))"
  using assms
proof (induction xs arbitrary: d)
  case (Cons x xs)
  obtain env os req where x: "x = (env, os, req)" by (cases x)
  have "std_hash env = H" using Cons.prems(3) x by simp
  then show ?case
    using Cons Dispatch_inv [OF Cons.prems(1) _ prod.collapse [symmetric], of env os req] x by simp
qed simp

text \<open>no request can break the store. Whatever the operation names and the bodies - malformed
  JSON, unknown commands, out-of-range numbers - and whatever the file system does with the log, a
  server started on a well-formed store has a well-formed store after any sequence of requests at
  any times.\<close>

theorem dispatch_keeps_store_invariant:
  assumes "new_Dispatcher st = Some d" "store_inv H st" "\<forall>(env, os, req) \<in> set xs. std_hash env = H"
  shows "store_inv H (d_store (dispatch_all xs (SetAofWriter w d)))"
  using assms by (intro dispatch_all_inv) (auto simp: new_Dispatcher_eq SetAofWriter_def)

theorem dispatch_keeps_store_invariant_witness:
  "\<exists>d. new_Dispatcher MemoryStore_default = Some d \<and>
     store_inv length (d_store (dispatch_all
       [(\<lparr>std_hash = length, ub_cast = \<lambda>_. 0, clock = \<lambda>_. 7\<rparr>, [], \<lparr>req_id = ''1'', req_op = ''set'', body_json = ''{''\<rparr>)]
       (SetAofWriter None d)))"
  unfolding new_Dispatcher_eq
  by (rule exI, rule conjI [OF refl], rule dispatch_keeps_store_invariant [OF new_Dispatcher_eq store_inv_default]) simp

section \<open>Rejected requests\<close>

lemma IncrBy_not_invalid: "incr_error_code (fst (MemoryStore_IncrBy H now key delta ttl st)) \<noteq> ''INVALID_ARGUMENTS''"
  unfolding MemoryStore_IncrBy_def on_shard_fst
  by (auto simp: incr_not_integer_def split: prod.splits option.splits if_splits)

lemma RateLimit_rejected:
  "\<not> rl_ok (fst (MemoryStore_RateLimit ub H now key limit w cost st)) \<Longrightarrow>
   snd (MemoryStore_RateLimit ub H now key limit w cost st) = st"
  unfolding MemoryStore_RateLimit_def
  by (auto simp: on_shard_fst RateLimit_locked_def Let_def split: if_splits option.splits prod.splits)

lemma ReserveQuota_rejected:
  "rv_error_code (fst (MemoryStore_ReserveQuota H now key amount ttl st)) = ''INVALID_ARGUMENTS'' \<Longrightarrow>
   snd (MemoryStore_ReserveQuota H now key amount ttl st) = st"
  unfolding MemoryStore_ReserveQuota_def
  by (auto simp: on_shard_def ReserveQuota_locked_def Let_def split: if_splits option.splits prod.splits)

lemma CommitQuota_not_invalid: "cm_error_code (fst (MemoryStore_CommitQuota H now key rid actual st)) \<noteq> ''INVALID_ARGUMENTS''"
  unfolding MemoryStore_CommitQuota_def on_shard_fst
  by (auto simp: CommitQuota_locked_def Let_def split: option.splits if_splits)

lemma RollbackQuota_not_invalid: "rb_error_code (fst (MemoryStore_RollbackQuota H now key rid st)) \<noteq> ''INVALID_ARGUMENTS''"
  unfolding MemoryStore_RollbackQuota_def on_shard_fst
  by (auto simp: RollbackQuota_locked_def Let_def split: option.splits if_splits)

lemma Idem_not_invalid:
  "ib_error_code (fst (MemoryStore_IdemBegin H now key rhash ttl tok st)) \<noteq> ''INVALID_ARGUMENTS''"
  "ic_error_code (fst (MemoryStore_IdemComplete H now key tok rcode rbody st)) \<noteq> ''INVALID_ARGUMENTS''"
  "if_error_code (fst (MemoryStore_IdemFail H now key tok msg st)) \<noteq> ''INVALID_ARGUMENTS''"
  by (auto simp: MemoryStore_IdemBegin_def IdemBegin_locked_def MemoryStore_IdemComplete_def MemoryStore_IdemFail_def
      on_shard_def Let_def split: option.splits if_splits prod.splits IdempotencyStatus.splits)

definition rejects_cleanly :: "handler \<Rightarrow> bool" where
  "rejects_cleanly h \<longleftrightarrow> (\<forall>env body st r st'. h env body st = Inr (r, st') \<longrightarrow>
     err_code (res_error r) = ''INVALID_ARGUMENTS'' \<longrightarrow> st' = st)"

lemma reply_codes [simp]:
  "err_code (res_error (success j)) = []" "err_code (res_error (failure c m)) = c"
  "ok (success j)" "\<not> ok (failure c m)"
  by (simp_all add: success_def failure_def no_error_def)

lemma incr_reply_clean:
  "incr_reply (MemoryStore_IncrBy H now key delta ttl st) = Inr (r, st') \<Longrightarrow>
   err_code (res_error r) \<noteq> ''INVALID_ARGUMENTS''"
  using IncrBy_not_invalid [of H now key delta ttl st]
  by (auto simp: incr_reply_def split: prod.splits if_splits)

lemma handlers_reject_cleanly:
  "rejects_cleanly cmd_Set" "rejects_cleanly cmd_Get" "rejects_cleanly cmd_Del" "rejects_cleanly cmd_Exists"
  "rejects_cleanly cmd_Type" "rejects_cleanly cmd_DbSize" "rejects_cleanly cmd_Keys" "rejects_cleanly cmd_Scan"
  "rejects_cleanly cmd_Expire" "rejects_cleanly cmd_PExpire" "rejects_cleanly cmd_Ttl" "rejects_cleanly cmd_Pttl"
  "rejects_cleanly cmd_Persist" "rejects_cleanly cmd_Incr" "rejects_cleanly cmd_Decr" "rejects_cleanly cmd_IncrBy"
  "rejects_cleanly cmd_QuotaInit" "rejects_cleanly cmd_QuotaGet" "rejects_cleanly cmd_IdemGet"
  unfolding rejects_cleanly_def cmd_defs Let_def
  by (auto split: sum.splits prod.splits if_splits option.splits dest: incr_reply_clean)

lemma rejected_ops:
  "MemoryStore_RateLimit ub H now key limit w cost st = (rl, st') \<Longrightarrow> \<not> rl_ok rl \<Longrightarrow> st' = st"
  "MemoryStore_ReserveQuota H now key amount ttl st = (rv, st') \<Longrightarrow> rv_error_code rv = ''INVALID_ARGUMENTS'' \<Longrightarrow> st' = st"
  "MemoryStore_CommitQuota H now key rid actual st = (cm, st') \<Longrightarrow> cm_error_code cm = ''INVALID_ARGUMENTS'' \<Longrightarrow> st' = st"
  "MemoryStore_RollbackQuota H now key rid st = (rb, st') \<Longrightarrow> rb_error_code rb = ''INVALID_ARGUMENTS'' \<Longrightarrow> st' = st"
  "MemoryStore_IdemBegin H now key rhash ttl tok st = (ib, st') \<Longrightarrow> ib_error_code ib = ''INVALID_ARGUMENTS'' \<Longrightarrow> st' = st"
  "MemoryStore_IdemComplete H now key tok rcode rbody st = (ic, st') \<Longrightarrow> ic_error_code ic = ''INVALID_ARGUMENTS'' \<Longrightarrow> st' = st"
  "MemoryStore_IdemFail H now key tok msg st = (fl, st') \<Longrightarrow> if_error_code fl = ''INVALID_ARGUMENTS'' \<Longrightarrow> st' = st"
  using RateLimit_rejected [of ub H now key limit w cost st] ReserveQuota_rejected [of H now key amount ttl st]
    CommitQuota_not_invalid [of H now key rid actual st] RollbackQuota_not_invalid [of H now key rid st]
    Idem_not_invalid(1) [of H now key rhash ttl tok st] Idem_not_invalid(2) [of H now key tok rcode rbody st]
    Idem_not_invalid(3) [of H now key tok msg st]
  by simp_all

lemma handlers_reject_cleanly':
  "rejects_cleanly cmd_RateLimit" "rejects_cleanly cmd_Reserve" "rejects_cleanly cmd_Commit"
  "rejects_cleanly cmd_Rollback" "rejects_cleanly cmd_IdemBegin" "rejects_cleanly cmd_IdemComplete"
  "rejects_cleanly cmd_IdemFail"
  unfolding rejects_cleanly_def cmd_defs Let_def
  by (auto split: sum.splits prod.splits if_splits intro: rejected_ops)

lemma Validated_clean:
  "rejects_cleanly h \<Longrightarrow> Validated h env body st = (r, st') \<Longrightarrow>
   err_code (res_error r) = ''INVALID_ARGUMENTS'' \<Longrightarrow> st' = st"
  by (auto simp: Validated_def rejects_cleanly_def split: sum.splits)

lemma command_clean:
  assumes "(name, h) \<in> set registrations" "h env body st = (r, st')" "err_code (res_error r) = ''INVALID_ARGUMENTS''"
  shows "st' = st"
  using assms handlers_reject_cleanly handlers_reject_cleanly' Validated_clean
  unfolding registration_defs by (auto simp: cmd_Ping_def)

lemma INVALID_ARGUMENTS_not_ok:
  assumes "(name, h) \<in> set registrations" "h env body st = (r, st')" "err_code (res_error r) \<noteq> []"
  shows "\<not> ok r"
proof -
  have "\<not> ok r" if "Validated g env body st = (r, st')" "\<And>x y. g env body st = Inr (x, y) \<Longrightarrow> ok x \<Longrightarrow> err_code (res_error x) = []" for g
    using that assms(3) by (auto simp: Validated_def split: sum.splits)
  moreover have "err_code (res_error x) = []" if "g env body st = Inr (x, y)" "ok x" "g \<in> {cmd_Set, cmd_Get, cmd_Del, cmd_Exists,
      cmd_Type, cmd_DbSize, cmd_Keys, cmd_Scan, cmd_Expire, cmd_PExpire, cmd_Ttl, cmd_Pttl, cmd_Persist, cmd_Incr,
      cmd_Decr, cmd_IncrBy, cmd_RateLimit, cmd_Reserve, cmd_Commit, cmd_Rollback, cmd_QuotaInit, cmd_QuotaGet,
      cmd_IdemBegin, cmd_IdemComplete, cmd_IdemFail, cmd_IdemGet}" for g x y
    using that unfolding cmd_defs incr_reply_def Let_def
    by (auto split: sum.splits prod.splits if_splits option.splits)
  ultimately show ?thesis
    using assms unfolding registration_defs by (auto simp: cmd_Ping_def)
qed

text \<open>a rejected request has no effect. When a request is answered with an argument error, or its
  command is unknown, the whole server state is as before: no key changed, nothing expired early, no
  sequence number consumed, nothing appended to the log.\<close>

theorem rejected_request_no_effect:
  assumes "d_commands d = registrations" "Dispatch env os req d = (Some res, d')"
    and "err_code (res_error res) = ''INVALID_ARGUMENTS'' \<or> NormalizeName (req_op req) \<notin> fst ` set registrations"
  shows "d' = d \<and> \<not> ok res"
proof (cases "map_of registrations (NormalizeName (req_op req))")
  case None
  then show ?thesis using assms(1,2) by (auto simp: Dispatch_def)
next
  case (Some h)
  obtain r st' where h: "h env (body_json req) (d_store d) = (r, st')" by fastforce
  have res: "res = r"
    using assms(1,2) Some h by (auto simp: Dispatch_def Let_def split: option.splits if_splits prod.splits)
  have code: "err_code (res_error r) = ''INVALID_ARGUMENTS''"
    using assms(3) Some res by (force dest!: map_of_SomeD)
  have "st' = d_store d" "\<not> ok r"
    using command_clean [OF map_of_SomeD [OF Some] h code] INVALID_ARGUMENTS_not_ok [OF map_of_SomeD [OF Some] h] code
    by simp_all
  then show ?thesis
    using assms(1,2) Some h res by (auto simp: Dispatch_def Let_def split: option.splits)
qed

lemma command_lookup:
  "map_of registrations ''SET'' = Some (Validated cmd_Set)" "map_of registrations ''GET'' = Some (Validated cmd_Get)"
  "map_of registrations ''DEL'' = Some (Validated cmd_Del)"
  by (simp_all add: registration_defs)

theorem rejected_request_no_effect_witness:
  "\<exists>d res. new_Dispatcher MemoryStore_default = Some d \<and>
     Dispatch \<lparr>std_hash = length, ub_cast = \<lambda>_. 0, clock = \<lambda>_. 7\<rparr> [] \<lparr>req_id = ''1'', req_op = ''get'', body_json = ''{''\<rparr> d = (Some res, d) \<and> \<not> ok res"
proof -
  let ?d = "\<lparr>d_store = MemoryStore_default, d_aof = None, d_commands = registrations\<rparr>"
  let ?env = "\<lparr>std_hash = length, ub_cast = \<lambda>_. 0, clock = \<lambda>_. 7\<rparr>"
  let ?req = "\<lparr>req_id = ''1'', req_op = ''get'', body_json = ''{''\<rparr>"
  have n: "NormalizeName ''get'' = ''GET''" by code_simp
  have p: "ParseStringBody ''{'' = Inl sb_message" by code_simp
  have eq: "Dispatch ?env [] ?req ?d = (Some (failure ''INVALID_ARGUMENTS'' sb_message), ?d)"
    by (simp add: Dispatch_def n command_lookup Validated_def cmd_Get_def p)
  have "?d = ?d \<and> \<not> ok (failure ''INVALID_ARGUMENTS'' sb_message)"
    by (rule rejected_request_no_effect [OF _ eq]) simp_all
  then show ?thesis using eq new_Dispatcher_eq [of MemoryStore_default] by blast
qed

end
