(* ===== verification/GK_Restart.thy ===== *)
theory GK_Restart
  imports GK_Dispatcher
begin

text \<open>
  The dispatcher, the JSON readers, the store and the append-only file together: what a client that
  stores, reads and deletes keys observes, across a restart of the server.
\<close>

section \<open>Requests of a client\<close>

datatype client_cmd = CSet string string | CDel string | CGet string

definition key_body :: "string \<Rightarrow> string" where
  "key_body k = print_body [(''key'', BV_String k)]"

definition set_body :: "string \<Rightarrow> string \<Rightarrow> string" where
  "set_body k v = print_body [(''key'', BV_String k), (''value'', BV_String v)]"

fun request_of :: "client_cmd \<Rightarrow> Request" where
  "request_of (CSet k v) = \<lparr>req_id = ''c'', req_op = ''SET'', body_json = set_body k v\<rparr>"
| "request_of (CDel k) = \<lparr>req_id = ''c'', req_op = ''DEL'', body_json = key_body k\<rparr>"
| "request_of (CGet k) = \<lparr>req_id = ''c'', req_op = ''GET'', body_json = key_body k\<rparr>"

lemma NormalizeName_client [simp]:
  "NormalizeName ''SET'' = ''SET''" "NormalizeName ''DEL'' = ''DEL''" "NormalizeName ''GET'' = ''GET''"
  by code_simp+

lemma set_ttl_absent:
  "fst ` set b \<subseteq> {''key'', ''value'', ''if_exists'', ''if_not_exists''} \<Longrightarrow> set_ttl t b = Inr t"
  by (induction b) auto

lemma cmd_Set_client:
  assumes "k \<noteq> []"
  shows "cmd_Set env (set_body k v) st =
    (case MemoryStore_Set (std_hash env) (clock env 0) k v Always 0 st of
       (b, st') \<Rightarrow> Inr (success (''{'' @ json_key ''stored'' @ json_bool b @ ''}''), st'))"
proof -
  let ?fs = "[(''key'', BV_String k), (''value'', BV_String v)]"
  obtain b where b: "ParseStringBody (set_body k v) = Inr b" "map_of b = map_of ?fs"
    using sb_fields_print_body [of ?fs] by (auto simp: set_body_def)
  have "fst ` set b = dom (map_of ?fs)" unfolding b(2) [symmetric] by (simp add: dom_map_of_conv_image_fst)
  then have "set_ttl 0 b = Inr 0" by (intro set_ttl_absent) auto
  then show ?thesis
    using assms by (simp add: cmd_Set_def b RequiredString_def Flag_def split: prod.splits)
qed

lemma cmd_Set_empty: "\<exists>e. cmd_Set env (set_body [] v) st = Inl e"
proof -
  let ?fs = "[(''key'', BV_String []), (''value'', BV_String v)]"
  obtain b where b: "ParseStringBody (set_body [] v) = Inr b" "map_of b = map_of ?fs"
    using sb_fields_print_body [of ?fs] by (auto simp: set_body_def)
  then show ?thesis by (cases "set_ttl 0 b") (simp_all add: cmd_Set_def RequiredString_def)
qed

lemma cmd_Get_client:
  assumes "k \<noteq> []"
  shows "cmd_Get env (key_body k) st =
    (case MemoryStore_Get (std_hash env) (clock env 0) k st of
       (None, st') \<Rightarrow> Inr (failure ''KEY_NOT_FOUND'' ''key does not exist'', st')
     | (Some v, st') \<Rightarrow> Inr (success (''{'' @ json_key ''value'' @ QuoteJson v @ ''}''), st'))"
proof -
  obtain b where b: "ParseStringBody (key_body k) = Inr b" "map_of b = map_of [(''key'', BV_String k)]" "length b = 1"
    using sb_fields_print_body [of "[(''key'', BV_String k)]"] by (auto simp: key_body_def)
  then show ?thesis
    using assms by (simp add: cmd_Get_def RequiredString_def)
qed

lemma cmd_Get_empty: "\<exists>e. cmd_Get env (key_body []) st = Inl e"
proof -
  obtain b where "ParseStringBody (key_body []) = Inr b" "map_of b = map_of [(''key'', BV_String [])]"
    using sb_fields_print_body [of "[(''key'', BV_String [])]"] by (auto simp: key_body_def)
  then show ?thesis by (simp add: cmd_Get_def RequiredString_def)
qed

lemma read_object_key:
  assumes "ty ''key'' = Inr TStr"
  shows "read_object ty (key_body k) = Inr [(''key'', JStr k)]"
proof -
  have f: "read_fields ty (QuoteJson ''key'' @ CHR 0x3A # QuoteJson k @ [CHR 0x7D]) = Inr ([(''key'', JStr k)], [])"
    using assms by (subst read_fields.simps) (simp add: read_field_def)
  obtain t where "QuoteJson ''key'' = CHR 0x22 # t" using QuoteJson_Cons by blast
  then have "Take (CHR 0x7D) (QuoteJson ''key'' @ r) = (False, QuoteJson ''key'' @ r)" for r by simp
  then show ?thesis
    by (simp add: read_object_def key_body_def print_body_def f)
qed

lemma cmd_Del_client:
  "cmd_Del env (key_body k) st =
    (case MemoryStore_Del (std_hash env) k st of
       (b, st') \<Rightarrow> Inr (success (''{'' @ json_key ''deleted'' @ to_dec (if b then 1 else 0) @ ''}''), st'))"
  by (simp add: cmd_Del_def read_object_key keys_field_def collect_keys_def split: prod.splits)

section \<open>What the keys hold\<close>

fun apply_client :: "client_cmd \<Rightarrow> (string \<rightharpoonup> string) \<Rightarrow> (string \<rightharpoonup> string)" where
  "apply_client (CSet k v) m = (if k = [] then m else m(k \<mapsto> v))"
| "apply_client (CDel k) m = m(k := None)"
| "apply_client (CGet k) m = m"

definition plain :: "(string \<rightharpoonup> string) \<Rightarrow> timed_map" where
  "plain m = (\<lambda>k. map_option (\<lambda>v. (v, 0)) (m k))"

lemma plain_simps:
  "plain (m(k \<mapsto> v)) = (plain m)(k \<mapsto> (v, 0))" "plain (m(k := None)) = (plain m)(k := None)" "plain Map.empty = Map.empty"
  by (auto simp: plain_def fun_eq_iff)

lemma unexpired_plain: "unexpired now (plain m) = plain m"
  by (auto simp: fun_eq_iff unexpired_def plain_def cell.visible_def cell_expired_def split: option.splits)

lemma Get_plain:
  assumes "kv_refines H now st (plain m)"
  shows "fst (MemoryStore_Get H now k st) = m k"
  using Get_refines [OF assms, of k] by (simp add: unexpired_plain) (simp add: plain_def option.map_comp comp_def option.map_ident)

text \<open>What a request does to the store, whichever handler serves it.\<close>

definition client_exec :: "CallEnv \<Rightarrow> client_cmd \<Rightarrow> MemoryStore \<Rightarrow> Result \<times> MemoryStore" where
  "client_exec env c st = (case c of
       CSet k v \<Rightarrow> Validated cmd_Set env (set_body k v) st
     | CDel k \<Rightarrow> Validated cmd_Del env (key_body k) st
     | CGet k \<Rightarrow> Validated cmd_Get env (key_body k) st)"

fun logged :: "client_cmd \<Rightarrow> bool" where
  "logged (CSet k v) \<longleftrightarrow> k \<noteq> []"
| "logged (CDel k) \<longleftrightarrow> True"
| "logged (CGet k) \<longleftrightarrow> False"

lemma apply_not_logged: "\<not> logged c \<Longrightarrow> apply_client c m = m"
  by (cases c) auto

lemma client_exec_refines:
  assumes ref: "kv_refines (std_hash env) (clock env 0) st (plain m)"
  shows "kv_refines (std_hash env) (clock env 0) (snd (client_exec env c st)) (plain (apply_client c m))"
    and "logged c \<Longrightarrow> ok (fst (client_exec env c st))"
proof -
  have "kv_refines (std_hash env) (clock env 0) (snd (client_exec env c st)) (plain (apply_client c m)) \<and>
    (logged c \<longrightarrow> ok (fst (client_exec env c st)))"
  proof (cases c)
    case (CSet k v)
    show ?thesis
    proof (cases "k = []")
      case True
      then obtain e where "cmd_Set env (set_body k v) st = Inl e" using cmd_Set_empty by blast
      then show ?thesis using CSet True ref by (simp add: client_exec_def Validated_def)
    next
      case False
      then show ?thesis
        using Set_refines [OF ref, of k v Always 0] CSet
        by (simp add: client_exec_def Validated_def cmd_Set_client plain_simps spec_set_def case_prod_beta)
    qed
  next
    case (CDel k)
    then show ?thesis
      using Del_refines [OF ref, of k]
      by (simp add: client_exec_def Validated_def cmd_Del_client plain_simps case_prod_beta)
  next
    case (CGet k)
    show ?thesis
    proof (cases "k = []")
      case True
      then obtain e where "cmd_Get env (key_body k) st = Inl e" using cmd_Get_empty by blast
      then show ?thesis using CGet True ref by (simp add: client_exec_def Validated_def)
    next
      case False
      then show ?thesis
        using Get_refines [OF ref, of k] CGet
        by (simp add: client_exec_def Validated_def cmd_Get_client case_prod_beta split: option.splits)
    qed
  qed
  then show "kv_refines (std_hash env) (clock env 0) (snd (client_exec env c st)) (plain (apply_client c m))"
    and "logged c \<Longrightarrow> ok (fst (client_exec env c st))" by simp_all
qed

lemma client_logged:
  assumes "kv_refines (std_hash env) (clock env 0) st (plain m)"
  shows "logged c \<longleftrightarrow> IsWriteOp (req_op (request_of c)) \<and> ok (fst (client_exec env c st))"
proof (cases c)
  case (CSet k v)
  show ?thesis
  proof (cases "k = []")
    case True
    then obtain e where "cmd_Set env (set_body k v) st = Inl e" using cmd_Set_empty by blast
    then show ?thesis using CSet True by (simp add: client_exec_def Validated_def)
  qed (use CSet client_exec_refines(2) [OF assms, of c] in \<open>simp add: IsWriteOp_def\<close>)
qed (use client_exec_refines(2) [OF assms, of c] in \<open>simp_all add: IsWriteOp_def\<close>)

lemma command_client:
  "map_of registrations (NormalizeName (req_op (request_of c))) = Some h \<Longrightarrow>
   h env (body_json (request_of c)) st = client_exec env c st"
  by (cases c) (auto simp: command_lookup client_exec_def)

lemma command_client_exists: "\<exists>h. map_of registrations (NormalizeName (req_op (request_of c))) = Some h"
  by (cases c) (auto simp: command_lookup)

lemma Dispatch_replay:
  assumes "d_commands d = registrations" "d_aof d = None"
    and "req_op req = req_op (request_of c)" "body_json req = body_json (request_of c)"
  shows "Dispatch env os req d =
    (Some (fst (client_exec env c (d_store d))), d\<lparr>d_store := snd (client_exec env c (d_store d))\<rparr>)"
proof -
  obtain h where h: "map_of registrations (NormalizeName (req_op (request_of c))) = Some h"
    using command_client_exists by blast
  then show ?thesis
    using assms command_client [OF h, of env "d_store d"] by (simp add: Dispatch_def case_prod_beta)
qed

lemma Dispatch_live:
  assumes "d_commands d = registrations" "d_aof d = Some w" "aw_open w"
    and ref: "kv_refines (std_hash env) (clock env 0) (d_store d) (plain m)"
    and io: "fst (write_loop os (aof_line (req_op (request_of c)) (body_json (request_of c)))) = Some True"
  shows "\<exists>w'. snd (Dispatch env os (request_of c) d) = d\<lparr>d_store := snd (client_exec env c (d_store d)), d_aof := Some w'\<rparr> \<and>
    aw_open w' \<and> aw_data w' = aw_data w @ (if logged c then aof_line (req_op (request_of c)) (body_json (request_of c)) else [])"
proof -
  let ?x = "client_exec env c (d_store d)"
  let ?op = "req_op (request_of c)" and ?body = "body_json (request_of c)"
  obtain h where h: "map_of registrations (NormalizeName ?op) = Some h" using command_client_exists by blast
  note hx = command_client [OF h, of env "d_store d"]
  have op: "?op \<noteq> ''GK.IDEM_BEGIN''" "?op \<noteq> []" by (cases c; simp)+
  show ?thesis
  proof (cases "logged c")
    case True
    then have wr: "IsWriteOp ?op \<and> ok (fst ?x)" using client_logged [OF ref, of c] by simp
    obtain r w' where a: "AofWriter_Append os ?op ?body w = (r, w')" by fastforce
    have "aw_data w' = aw_data w @ aof_line ?op ?body" "aw_open w'" "r = Some True"
      using a assms(3) op io write_loop_prefix [of os "aof_line ?op ?body"]
      by (auto simp: AofWriter_Append_def Let_def split: if_splits prod.splits)
    moreover have "snd (Dispatch env os (request_of c) d) = d\<lparr>d_store := snd ?x, d_aof := Some w'\<rparr>"
      using assms(1,2) h hx wr op a by (simp add: Dispatch_def case_prod_beta)
    ultimately show ?thesis using True by auto
  next
    case False
    then have wr: "\<not> (ok (fst ?x) \<and> IsWriteOp ?op)" using client_logged [OF ref, of c] by blast
    have "snd (Dispatch env os (request_of c) d) = d\<lparr>d_store := snd ?x, d_aof := Some w\<rparr>"
      using assms(1,2) h hx wr by (auto simp: Dispatch_def case_prod_beta)
    then show ?thesis using False assms(3) by auto
  qed
qed

section \<open>The run and its replay\<close>

definition client_records :: "client_cmd list \<Rightarrow> (string \<times> string) list" where
  "client_records cs = map (\<lambda>c. (req_op (request_of c), body_json (request_of c))) (filter logged cs)"

definition client_text :: "client_cmd list \<Rightarrow> string" where
  "client_text cs = concat (map (\<lambda>(op, body). aof_line op body) (client_records cs))"

definition append_succeeds :: "write_outcome list \<Rightarrow> client_cmd \<Rightarrow> bool" where
  "append_succeeds os c \<longleftrightarrow>
     fst (write_loop os (aof_line (req_op (request_of c)) (body_json (request_of c)))) = Some True"

lemma run_live:
  assumes "d_commands d = registrations" "d_aof d = Some w" "aw_open w" "kv_refines H t (d_store d) (plain m)"
    and "\<forall>(env, os, c) \<in> set xs. std_hash env = H \<and> append_succeeds os c"
    and "sorted (t # map (\<lambda>(env, os, c). clock env 0) xs)"
    and "\<forall>(env, os, c) \<in> set xs. clock env 0 \<le> now" "t \<le> now"
  shows "\<exists>w'. d_aof (dispatch_all (map (\<lambda>(env, os, c). (env, os, request_of c)) xs) d) = Some w' \<and>
    aw_data w' = aw_data w @ client_text (map (\<lambda>(env, os, c). c) xs) \<and>
    kv_refines H now (d_store (dispatch_all (map (\<lambda>(env, os, c). (env, os, request_of c)) xs) d))
      (plain (fold apply_client (map (\<lambda>(env, os, c). c) xs) m))"
  using assms
proof (induction xs arbitrary: d w t m)
  case Nil
  then show ?case by (auto simp: client_text_def client_records_def intro: kv_refines_later)
next
  case (Cons x xs)
  obtain env os c where x: "x = (env, os, c)" by (cases x)
  have H: "std_hash env = H" and io: "append_succeeds os c" using Cons.prems(5) x by auto
  have t: "t \<le> clock env 0" using Cons.prems(6) x by simp
  have ref: "kv_refines (std_hash env) (clock env 0) (d_store d) (plain m)"
    using kv_refines_later [OF Cons.prems(4) t] H by simp
  obtain w1 where w1: "snd (Dispatch env os (request_of c) d) = d\<lparr>d_store := snd (client_exec env c (d_store d)), d_aof := Some w1\<rparr>"
    "aw_open w1" "aw_data w1 = aw_data w @ (if logged c then aof_line (req_op (request_of c)) (body_json (request_of c)) else [])"
    using Dispatch_live [OF Cons.prems(1-3) ref io [unfolded append_succeeds_def]] by blast
  let ?d1 = "d\<lparr>d_store := snd (client_exec env c (d_store d)), d_aof := Some w1\<rparr>"
  have ref1: "kv_refines H (clock env 0) (d_store ?d1) (plain (apply_client c m))"
    using client_exec_refines(1) [OF ref, of c] H by simp
  have data: "aw_data w1 @ client_text (map (\<lambda>(env, os, c). c) xs) = aw_data w @ client_text (map (\<lambda>(env, os, c). c) (x # xs))"
    by (simp add: w1(3) client_text_def client_records_def x)
  show ?case
    using Cons.IH [OF _ _ w1(2) ref1] Cons.prems w1(1) data x by (simp del: append.simps)
qed

lemma replay_lines:
  assumes "d_commands d = registrations" "d_aof d = None" "kv_refines H (clock (envs i) 0) (d_store d) (plain m)"
    and "\<forall>j. std_hash (envs j) = H" "mono (\<lambda>j. clock (envs j) 0)" "\<forall>j. clock (envs j) 0 \<le> now"
  shows "\<exists>d'. load_lines envs i (map (\<lambda>(op, body). op @ CHR 0x20 # body) (client_records cs)) (r, s, d)
      = (r + length (client_records cs), s, d') \<and> kv_refines H now (d_store d') (plain (fold apply_client cs m)) \<and>
      d_commands d' = registrations \<and> d_aof d' = None"
  using assms(1-3)
proof (induction cs arbitrary: d r m i)
  case Nil
  then show ?case using kv_refines_later [OF Nil(3)] assms(6) by (simp add: client_records_def)
next
  case (Cons c cs)
  show ?case
  proof (cases "logged c")
    case False
    then show ?thesis using Cons by (simp add: client_records_def apply_not_logged)
  next
    case True
    let ?op = "req_op (request_of c)" and ?body = "body_json (request_of c)"
    let ?req = "\<lparr>req_id = ''aof'', req_op = ?op, body_json = ?body\<rparr>"
    let ?d1 = "d\<lparr>d_store := snd (client_exec (envs i) c (d_store d))\<rparr>"
    have ref: "kv_refines (std_hash (envs i)) (clock (envs i) 0) (d_store d) (plain m)"
      using Cons.prems(3) assms(4) by simp
    have "parse_line (?op @ CHR 0x20 # ?body) = Aof_command ?op ?body"
      by (rule parse_line_record; cases c) auto
    then have line: "load_line (envs i) [] (?op @ CHR 0x20 # ?body) (r, s, d) = (Suc r, s, ?d1)"
      using Dispatch_replay [OF Cons.prems(1,2), of ?req c "envs i" "[]"] client_exec_refines(2) [OF ref True]
      by (simp add: load_line_def)
    have "kv_refines H (clock (envs (Suc i)) 0) (d_store ?d1) (plain (apply_client c m))"
      using client_exec_refines(1) [OF ref, of c] assms(4) monoD [OF assms(5), of i "Suc i"]
      by (auto intro: kv_refines_later)
    from Cons.IH [OF _ _ this, of "Suc r"] show ?thesis
      using True line Cons.prems(1,2) by (simp add: client_records_def)
  qed
qed

section \<open>Bodies on one line\<close>

lemma hex_char_printable: "h < 16 \<Longrightarrow> hex_char h \<noteq> CHR 0x0A"
  using hex_digit_hex_char [of h] by (auto simp: hex_digit_def byte_val_def)

lemma quote_char_no_newline: "CHR 0x0A \<notin> set (quote_char c)"
proof (cases rule: quote_char_cases [of c])
  case (simple e)
  then show ?thesis by (auto simp: simple_escape_def split: if_splits)
next
  case (control h l)
  then show ?thesis using hex_char_printable [of h] hex_char_printable [of l] by auto
next
  case plain
  then show ?thesis by (auto simp: byte_val_def)
qed

lemma QuoteJson_no_newline: "CHR 0x0A \<notin> set (QuoteJson v)"
  using quote_char_no_newline by (auto simp: QuoteJson_def)

lemma body_no_newline: "CHR 0x0A \<notin> set (body_json (request_of c))"
  by (cases c) (auto simp: set_body_def key_body_def print_body_def QuoteJson_no_newline)

lemma op_of_client:
  "req_op (request_of c) \<noteq> []" "hd (req_op (request_of c)) \<noteq> CHR ''#''" "CHR 0x20 \<notin> set (req_op (request_of c))"
  "CHR 0x0A \<notin> set (req_op (request_of c))"
  by (cases c; simp)+

lemma getlines_client: "getlines (client_text cs) = map (\<lambda>(op, body). op @ CHR 0x20 # body) (client_records cs)"
  unfolding client_text_def
  by (rule getlines_concat) (auto simp: client_records_def body_no_newline op_of_client)

section \<open>Restart\<close>

lemma Load_client:
  assumes "\<forall>j. std_hash (envs j) = H'" "mono (\<lambda>j. clock (envs j) 0)" "\<forall>j. clock (envs j) 0 \<le> now'"
    and "new_Dispatcher MemoryStore_default = Some d0"
  shows "fst (MemoryStore_Get H' now' k (d_store (snd (AofLoader_Load envs (Aof_text (client_text cs)) d0))))
       = fold apply_client cs Map.empty k"
proof -
  have d0: "d_commands d0 = registrations" "d_aof d0 = None" "d_store d0 = MemoryStore_default"
    using assms(4) by (auto simp: new_Dispatcher_eq)
  have "kv_refines H' (clock (envs 0) 0) (d_store d0) (plain Map.empty)"
    by (simp add: d0 plain_simps kv_refines_default)
  from replay_lines [OF d0(1,2) this assms(1-3), of cs 0 0] show ?thesis
    by (auto simp: AofLoader_Load_def getlines_client intro: Get_plain)
qed

text \<open>a restart loses nothing. A client stores, reads and deletes keys, with any bytes in keys and
  values; the appends succeed. A server started on the file the first one wrote answers every read
  as the first one did, and both hold exactly what the last successful SET or DEL of each key left.\<close>

theorem restart_restores_keys:
  assumes "new_Dispatcher MemoryStore_default = Some d0" "aw_open w" "aw_data w = []"
    and "\<forall>(env, os, c) \<in> set xs. std_hash env = H \<and> append_succeeds os c \<and> clock env 0 \<le> now"
    and "sorted (map (\<lambda>(env, os, c). clock env 0) xs)"
    and "\<forall>j. std_hash (envs j) = H' \<and> clock (envs j) 0 \<le> now'" "mono (\<lambda>j. clock (envs j) 0)"
  shows "let d1 = dispatch_all (map (\<lambda>(env, os, c). (env, os, request_of c)) xs) (SetAofWriter (Some w) d0);
      m = fold apply_client (map (\<lambda>(env, os, c). c) xs) Map.empty
    in \<exists>w1. d_aof d1 = Some w1 \<and>
      (\<forall>k. fst (MemoryStore_Get H now k (d_store d1)) = m k \<and>
           fst (MemoryStore_Get H' now' k (d_store (snd (AofLoader_Load envs (Aof_text (aw_data w1)) d0)))) = m k)"
proof -
  let ?d = "SetAofWriter (Some w) d0"
  have d: "d_commands ?d = registrations" "d_aof ?d = Some w" "kv_refines H 0 (d_store ?d) (plain Map.empty)"
    using assms(1) by (auto simp: new_Dispatcher_eq SetAofWriter_def plain_simps kv_refines_default)
  have p: "\<forall>(env, os, c) \<in> set xs. std_hash env = H \<and> append_succeeds os c"
    "\<forall>(env, os, c) \<in> set xs. clock env 0 \<le> now"
    using assms(4) by fast+
  obtain w1 where "d_aof (dispatch_all (map (\<lambda>(env, os, c). (env, os, request_of c)) xs) ?d) = Some w1"
    "aw_data w1 = client_text (map (\<lambda>(env, os, c). c) xs)"
    "kv_refines H now (d_store (dispatch_all (map (\<lambda>(env, os, c). (env, os, request_of c)) xs) ?d))
      (plain (fold apply_client (map (\<lambda>(env, os, c). c) xs) Map.empty))"
    using run_live [OF d(1,2) assms(2) d(3) p(1) _ p(2)] assms(3,5) by auto
  then show ?thesis
    unfolding Let_def using Get_plain Load_client [of envs H' now' d0] assms(1,6,7) by auto
qed

definition example_env :: "u64 \<Rightarrow> CallEnv" where
  "example_env t = \<lparr>std_hash = length, ub_cast = \<lambda>_. 0, clock = \<lambda>_. t\<rparr>"

definition example_writer :: AofWriter where
  "example_writer = \<lparr>aw_policy = Policy_Everysec, aw_open = True, aw_data = [], aw_synced = 0\<rparr>"

lemma example_env_simps [simp]: "std_hash (example_env t) = length" "clock (example_env t) i = t"
  by (simp_all add: example_env_def)

lemma example_appends:
  "append_succeeds [Written 100] (CSet ''a'' ''1'')" "append_succeeds [Written 3, Interrupted, Written 100] (CDel ''a'')"
  by code_simp+

theorem restart_restores_keys_witness:
  "\<exists>d0 w1. new_Dispatcher MemoryStore_default = Some d0 \<and>
     d_aof (dispatch_all [(example_env 5, [Written 100], request_of (CSet ''a'' ''1''))] (SetAofWriter (Some example_writer) d0)) = Some w1 \<and>
     fst (MemoryStore_Get length 900 ''a'' (d_store (snd (AofLoader_Load (\<lambda>_. example_env 800) (Aof_text (aw_data w1)) d0)))) = Some ''1''"
proof -
  have mono: "mono (\<lambda>j :: nat. clock (example_env 800) 0)" by (simp add: monoI)
  show ?thesis
    using restart_restores_keys [OF new_Dispatcher_eq [of MemoryStore_default], of example_writer
        "[(example_env 5, [Written 100], CSet ''a'' ''1'')]" length 7 "\<lambda>_. example_env 800" length 900]
      example_appends(1) mono new_Dispatcher_eq [of MemoryStore_default]
    by (auto simp: example_writer_def Let_def)
qed

section \<open>Crash while appending\<close>

lemma print_body_last: "print_body fs \<noteq> [] \<and> last (print_body fs) = CHR 0x7D"
proof -
  have "print_fields fs \<noteq> [] \<and> last (print_fields fs) = CHR 0x7D"
    by (induction fs rule: print_fields.induct) auto
  then show ?thesis by (simp add: print_body_def)
qed

lemma torn_tail:
  assumes "strict_prefix p s" "s \<noteq> []" "last s = CHR 0x7D"
  obtains q where "s = p @ q" "CHR 0x7D \<in> set q"
proof -
  obtain q where q: "s = p @ q" "q \<noteq> []" using assms(1) by (auto simp: strict_prefix_def prefix_def)
  then have "last q = CHR 0x7D" using assms(3) by simp
  then show thesis using that q by (metis last_in_set)
qed

lemma set_body_torn:
  assumes "strict_prefix p (set_body k v)"
  shows "\<exists>e. ParseStringBody p = Inl e"
proof -
  obtain q where q: "set_body k v = p @ q" "CHR 0x7D \<in> set q"
    using torn_tail [OF assms] print_body_last by (metis set_body_def)
  obtain b where "ParseStringBody (p @ q) = Inr b"
    using sb_fields_print_body [of "[(''key'', BV_String k), (''value'', BV_String v)]"] q(1) by (auto simp: set_body_def)
  moreover have "sb_Skip q \<noteq> []" using q(2) by (auto simp: sb_Skip_def intro!: bexI [of _ "CHR 0x7D"])
  ultimately show ?thesis using ParseStringBody_prefix by (cases "ParseStringBody p") blast+
qed

lemma key_body_torn:
  assumes "strict_prefix p (key_body k)"
  shows "\<exists>e. read_object keys_field p = Inl e"
proof -
  obtain q where q: "key_body k = p @ q" "CHR 0x7D \<in> set q"
    using torn_tail [OF assms] print_body_last by (metis key_body_def)
  have "read_object keys_field (p @ q) = Inr [(''key'', JStr k)]"
    using read_object_key [of keys_field k] q(1) by (simp add: keys_field_def)
  moreover have "Skip q \<noteq> []" using q(2) by (auto simp: Skip_def intro!: bexI [of _ "CHR 0x7D"])
  ultimately show ?thesis using read_object_prefix by (cases "read_object keys_field p") blast+
qed

text \<open>A record that was torn leaves the server as it is.\<close>

lemma torn_line:
  assumes d: "d_commands d = registrations" "d_aof d = None" and c: "logged c"
    and p: "strict_prefix p (req_op (request_of c) @ CHR 0x20 # body_json (request_of c))"
  shows "snd (snd (load_line env [] p (r, s, d))) = d"
proof (cases "CHR 0x20 \<in> set p")
  case False
  then show ?thesis by (simp add: load_line_def parse_line_def)
next
  case True
  let ?op = "req_op (request_of c)"
  have "prefix (?op @ [CHR 0x20]) p"
  proof -
    have "prefix p (?op @ CHR 0x20 # body_json (request_of c))" using p by (rule prefix_order.less_imp_le)
    moreover have "prefix (?op @ [CHR 0x20]) (?op @ CHR 0x20 # body_json (request_of c))" by (simp add: prefix_def)
    ultimately have "prefix (?op @ [CHR 0x20]) p \<or> prefix p ?op"
      by (metis prefix_same_cases prefix_snoc prefix_order.refl)
    moreover have "\<not> prefix p ?op" using True op_of_client(3) set_mono_prefix by blast
    ultimately show ?thesis by blast
  qed
  then obtain q where q: "p = ?op @ CHR 0x20 # q" by (auto simp: prefix_def)
  then have torn: "strict_prefix q (body_json (request_of c))" using p by (simp add: strict_prefix_def)
  have line: "parse_line p = Aof_command ?op q"
    unfolding q by (rule parse_line_record [OF op_of_client(1-3)])
  have rej: "snd (Dispatch env [] \<lparr>req_id = ''aof'', req_op = ?op, body_json = q\<rparr> d) = d"
  proof (cases c)
    case (CSet k v)
    then obtain e where "ParseStringBody q = Inl e" using set_body_torn [of q k v] torn by auto
    then show ?thesis using CSet d by (simp add: Dispatch_def command_lookup Validated_def cmd_Set_def)
  next
    case (CDel k)
    then obtain e where "read_object keys_field q = Inl e" using key_body_torn [of q k] torn by auto
    then show ?thesis using CDel d by (simp add: Dispatch_def command_lookup Validated_def cmd_Del_def)
  qed (use c in simp)
  then show ?thesis
    by (cases "Dispatch env [] \<lparr>req_id = ''aof'', req_op = ?op, body_json = q\<rparr> d")
      (auto simp: load_line_def line split: option.splits)
qed

lemma load_lines_append: "load_lines envs i (ls @ ls') x = load_lines envs (i + length ls) ls' (load_lines envs i ls x)"
  by (induction ls arbitrary: i x) simp_all

lemma dispatch_all_append: "dispatch_all (xs @ ys) d = dispatch_all ys (dispatch_all xs d)"
  by (induction xs arbitrary: d) auto

lemma getlines_tail:
  assumes "CHR 0x0A \<notin> set p" "p \<noteq> []"
  shows "getlines (client_text cs @ p) = getlines (client_text cs) @ [p]"
proof -
  have p: "takeWhile (\<lambda>c. c \<noteq> CHR 0x0A) p = p" "dropWhile (\<lambda>c. c \<noteq> CHR 0x0A) p = []"
    using assms by (auto simp: takeWhile_eq_all_conv dropWhile_eq_Nil_conv)
  have "getlines (concat (map (\<lambda>(op, body). aof_line op body) rs) @ p) = map (\<lambda>(op, body). op @ CHR 0x20 # body) rs @ [p]"
    if "\<forall>(op, body) \<in> set rs. CHR 0x0A \<notin> set op \<and> CHR 0x0A \<notin> set body" for rs
    using that
  proof (induction rs)
    case Nil
    show ?case by (subst getlines.simps) (simp only: p assms concat.simps list.map append_Nil if_False drop_Nil getlines_Nil)
  next
    case (Cons r rs)
    obtain op body where r: "r = (op, body)" by force
    have "getlines ((op @ CHR 0x20 # body) @ CHR 0x0A # s) = (op @ CHR 0x20 # body) # getlines s" for s
      by (rule getlines_line) (use Cons.prems r in auto)
    then show ?case using Cons r by (simp add: aof_line_def)
  qed
  moreover have "\<forall>(op, body) \<in> set (client_records cs). CHR 0x0A \<notin> set op \<and> CHR 0x0A \<notin> set body"
    by (auto simp: client_records_def body_no_newline op_of_client)
  ultimately show ?thesis
    using getlines_client [of cs] by (simp only: client_text_def)
qed

lemma Load_torn:
  assumes envs: "\<forall>j. std_hash (envs j) = H'" "mono (\<lambda>j. clock (envs j) 0)" "\<forall>j. clock (envs j) 0 \<le> now'"
    and d0: "new_Dispatcher MemoryStore_default = Some d0"
    and p: "prefix p (aof_line (req_op (request_of c)) (body_json (request_of c)))" "logged c"
  shows "\<exists>cs' \<in> {cs, cs @ [c]}. \<forall>k. fst (MemoryStore_Get H' now' k
      (d_store (snd (AofLoader_Load envs (Aof_text (client_text cs @ p)) d0)))) = fold apply_client cs' Map.empty k"
proof -
  let ?l = "req_op (request_of c) @ CHR 0x20 # body_json (request_of c)"
  have nl: "CHR 0x0A \<notin> set ?l" using body_no_newline op_of_client(4) by simp
  have line: "aof_line (req_op (request_of c)) (body_json (request_of c)) = ?l @ [CHR 0x0A]" by (simp add: aof_line_def)
  have snoc: "client_text (cs @ [c]) = client_text cs @ ?l @ [CHR 0x0A]"
    using p(2) by (simp add: client_text_def client_records_def aof_line_def)
  have whole: ?thesis if "getlines (client_text cs @ p) = getlines (client_text (cs @ [c]))"
    using Load_client [OF envs d0, of _ "cs @ [c]"] that by (simp add: AofLoader_Load_def)
  consider "p = ?l @ [CHR 0x0A]" | "p = ?l" | "p = []" | "strict_prefix p ?l" "p \<noteq> []"
    using p(1) unfolding line prefix_snoc strict_prefix_def by blast
  then show ?thesis
  proof cases
    case 1
    then show ?thesis by (intro whole) (simp add: snoc)
  next
    case 2
    have "getlines (client_text (cs @ [c])) = getlines (client_text cs) @ [?l]"
      unfolding getlines_client using p(2) by (simp add: client_records_def)
    then show ?thesis using 2 getlines_tail [OF nl, of cs] by (intro whole) simp
  next
    case 3
    then show ?thesis using Load_client [OF envs d0] by simp
  next
    case 4
    have "CHR 0x0A \<notin> set p" using nl set_mono_prefix prefix_order.less_imp_le [OF 4(1)] by blast
    then have lines: "getlines (client_text cs @ p) = getlines (client_text cs) @ [p]"
      by (rule getlines_tail) (rule 4(2))
    have d: "d_commands d0 = registrations" "d_aof d0 = None" "d_store d0 = MemoryStore_default"
      using d0 by (auto simp: new_Dispatcher_eq)
    have "kv_refines H' (clock (envs 0) 0) (d_store d0) (plain Map.empty)"
      by (simp add: d plain_simps kv_refines_default)
    then obtain r d' where d': "load_lines envs 0 (getlines (client_text cs)) (0, 0, d0) = (r, 0, d')"
      "kv_refines H' now' (d_store d') (plain (fold apply_client cs Map.empty))" "d_commands d' = registrations" "d_aof d' = None"
      using replay_lines [OF d(1,2) _ envs, where m = "Map.empty" and cs = cs and r = 0 and s = 0 and i = 0]
      unfolding getlines_client by auto
    have "snd (AofLoader_Load envs (Aof_text (client_text cs @ p)) d0) = d'"
      using torn_line [OF d'(3,4) p(2) 4(1), of "envs (length (getlines (client_text cs)))" r 0]
      by (simp add: AofLoader_Load_def lines load_lines_append d'(1) case_prod_beta)
    then show ?thesis using Get_plain [OF d'(2)] by auto
  qed
qed

lemma dispatch_all_commands: "d_commands d = registrations \<Longrightarrow> d_commands (dispatch_all xs d) = registrations"
proof (induction xs arbitrary: d)
  case (Cons x xs)
  obtain env os req where "x = (env, os, req)" by (cases x)
  moreover have "d_commands (snd (Dispatch env os req d)) = d_commands d"
    by (auto simp: Dispatch_def Let_def split: option.splits prod.splits)
  ultimately show ?case using Cons by simp
qed simp

lemma Dispatch_last:
  assumes "d_commands d = registrations" "d_aof d = Some w"
    and ref: "kv_refines (std_hash env) (clock env 0) (d_store d) (plain m)"
  shows "\<exists>w1 q. d_aof (snd (Dispatch env os (request_of c) d)) = Some w1 \<and> aw_data w1 = aw_data w @ q \<and>
    prefix q (aof_line (req_op (request_of c)) (body_json (request_of c))) \<and> (q \<noteq> [] \<longrightarrow> logged c)"
proof -
  let ?x = "client_exec env c (d_store d)"
  let ?op = "req_op (request_of c)" and ?body = "body_json (request_of c)"
  obtain h where h: "map_of registrations (NormalizeName ?op) = Some h" using command_client_exists by blast
  note hx = command_client [OF h, of env "d_store d"]
  have op: "?op \<noteq> ''GK.IDEM_BEGIN''" by (cases c) simp_all
  obtain r w1 where a: "AofWriter_Append os ?op ?body w = (r, w1)" by fastforce
  have "d_aof (snd (Dispatch env os (request_of c) d)) = Some (if logged c then w1 else w)"
    using assms(1,2) h hx op a client_logged [OF ref, of c] by (auto simp: Dispatch_def case_prod_beta)
  then show ?thesis using Append_data [OF a] by (cases "logged c") auto
qed



section \<open>One key, through the wire format\<close>

lemma Dispatch_store:
  assumes "d_commands d = registrations" "map_of registrations (NormalizeName (req_op req)) = Some h"
  shows "d_store (snd (Dispatch env os req d)) = snd (h env (body_json req) (d_store d))"
    and "fst (Dispatch env os req d) = Some res \<Longrightarrow> res = fst (h env (body_json req) (d_store d))"
  using assms by (auto simp: Dispatch_def Let_def case_prod_beta split: option.splits if_splits)

text \<open>a value stored is the value read. On any well-formed store, after a SET of a non-empty key the
  server answers a later GET with exactly that value, JSON-quoted: the two request bodies, the
  reader, the store and the reply agree on every byte of key and value, in any letter case of the
  command names.\<close>

theorem set_then_get:
  assumes "d_commands d = registrations" "store_inv H (d_store d)" "k \<noteq> []" "std_hash env = H" "std_hash env' = H"
    and "clock env 0 \<le> clock env' 0" "NormalizeName op = ''SET''" "NormalizeName op' = ''GET''"
    and "Dispatch env os \<lparr>req_id = i, req_op = op, body_json = set_body k v\<rparr> d = (Some res, d1)"
    and "Dispatch env' os' \<lparr>req_id = i', req_op = op', body_json = key_body k\<rparr> d1 = (Some res', d2)"
  shows "res = success (''{'' @ json_key ''stored'' @ ''true}'') \<and> res' = success (''{'' @ json_key ''value'' @ QuoteJson v @ ''}'')"
proof -
  let ?req = "\<lparr>req_id = i, req_op = op, body_json = set_body k v\<rparr>"
    and ?req' = "\<lparr>req_id = i', req_op = op', body_json = key_body k\<rparr>"
  let ?now = "clock env 0" and ?st = "d_store d"
  have h: "map_of registrations (NormalizeName (req_op ?req)) = Some (Validated cmd_Set)"
    "map_of registrations (NormalizeName (req_op ?req')) = Some (Validated cmd_Get)"
    by (simp_all add: assms command_lookup)
  note set = Set_refines [OF kv_refines_self [OF assms(2)], of ?now k v Always 0]
  have st1: "d_store d1 = snd (MemoryStore_Set H ?now k v Always 0 ?st)"
    and res: "res = success (''{'' @ json_key ''stored'' @ ''true}'')"
    using Dispatch_store [OF assms(1) h(1), of env os] assms(3,4,9) set
    by (simp_all add: Validated_def cmd_Set_client case_prod_beta spec_set_def json_bool_def)
  have cmds: "d_commands d1 = registrations" using Dispatch_inv [OF assms(1) _ assms(9)] assms(2,4) by simp
  have "kv_refines H (clock env' 0) (d_store d1) ((contents H ?st)(k \<mapsto> (v, 0)))"
    using set assms(6) st1 by (auto simp: spec_set_def intro: kv_refines_later)
  from Get_refines [OF this, of k] have "fst (MemoryStore_Get H (clock env' 0) k (d_store d1)) = Some v"
    by (simp add: cell_expired_def)
  then have "res' = success (''{'' @ json_key ''value'' @ QuoteJson v @ ''}'')"
    using Dispatch_store [OF cmds h(2), of env' os'] assms(3,5,10)
    by (cases "MemoryStore_Get H (clock env' 0) k (d_store d1)") (simp add: Validated_def cmd_Get_client)
  then show ?thesis using res by simp
qed

theorem set_then_get_witness:
  "\<exists>d res d1 res' d2. new_Dispatcher MemoryStore_default = Some d \<and>
     Dispatch (example_env 5) [] (request_of (CSet ''a'' ''1'')) d = (Some res, d1) \<and>
     Dispatch (example_env 6) [] (request_of (CGet ''a'')) d1 = (Some res', d2) \<and>
     res' = success (''{'' @ json_key ''value'' @ QuoteJson ''1'' @ ''}'')"
proof -
  let ?d = "\<lparr>d_store = MemoryStore_default, d_aof = None, d_commands = registrations\<rparr>"
  let ?x = "client_exec (example_env 5) (CSet ''a'' ''1'') (d_store ?d)"
  let ?d1 = "?d\<lparr>d_store := snd ?x\<rparr>"
  let ?y = "client_exec (example_env 6) (CGet ''a'') (d_store ?d1)"
  let ?d2 = "?d1\<lparr>d_store := snd ?y\<rparr>"
  have 1: "Dispatch (example_env 5) [] (request_of (CSet ''a'' ''1'')) ?d = (Some (fst ?x), ?d1)"
    by (rule Dispatch_replay) simp_all
  have 2: "Dispatch (example_env 6) [] (request_of (CGet ''a'')) ?d1 = (Some (fst ?y), ?d2)"
    by (rule Dispatch_replay) simp_all
  have "fst ?y = success (''{'' @ json_key ''value'' @ QuoteJson ''1'' @ ''}'')"
    using set_then_get [OF _ _ _ _ _ _ _ _ 1 [unfolded request_of.simps] 2 [unfolded request_of.simps], of length] by simp
  then show ?thesis using 1 2 new_Dispatcher_eq [of MemoryStore_default] by blast
qed

text \<open>a command name in lower case escapes the log. The dispatcher finds the handler by the
  normalised name but tests the name as written when it decides about logging, so a SET sent as
  \<open>set\<close> is executed, answered with success, and missing from the append-only file.\<close>

theorem lower_case_write_not_logged:
  assumes "d_commands d = registrations" "store_inv (std_hash env) (d_store d)" "k \<noteq> []"
  shows "\<exists>res d'. Dispatch env os \<lparr>req_id = i, req_op = ''set'', body_json = set_body k v\<rparr> d = (Some res, d') \<and>
    ok res \<and> fst (MemoryStore_Get (std_hash env) (clock env 0) k (d_store d')) = Some v \<and> d_aof d' = d_aof d"
proof -
  let ?st' = "snd (MemoryStore_Set (std_hash env) (clock env 0) k v Always 0 (d_store d))"
  have n: "NormalizeName ''set'' = ''SET''" by code_simp
  note set = Set_refines [OF kv_refines_self [OF assms(2)], of "clock env 0" k v Always 0]
  have "kv_refines (std_hash env) (clock env 0) ?st' ((contents (std_hash env) (d_store d))(k \<mapsto> (v, 0)))"
    using set by (simp add: spec_set_def)
  from Get_refines [OF this, of k] have "fst (MemoryStore_Get (std_hash env) (clock env 0) k ?st') = Some v"
    by (simp add: cell_expired_def)
  moreover have "\<exists>res. Dispatch env os \<lparr>req_id = i, req_op = ''set'', body_json = set_body k v\<rparr> d = (Some res, d\<lparr>d_store := ?st'\<rparr>) \<and> ok res"
    using assms(1,3)
    by (cases "d_aof d") (simp_all add: Dispatch_def n command_lookup Validated_def cmd_Set_client case_prod_beta IsWriteOp_def)
  ultimately show ?thesis by auto
qed

theorem lower_case_write_not_logged_witness:
  "\<exists>d res d'. new_Dispatcher MemoryStore_default = Some d \<and>
     Dispatch (example_env 5) [Written 100] \<lparr>req_id = ''1'', req_op = ''set'', body_json = set_body ''a'' ''1''\<rparr>
       (SetAofWriter (Some example_writer) d) = (Some res, d') \<and> ok res \<and> d_aof d' = Some example_writer"
  using lower_case_write_not_logged [of "SetAofWriter (Some example_writer) \<lparr>d_store = MemoryStore_default, d_aof = None, d_commands = registrations\<rparr>"
      "example_env 5" "''a''" "[Written 100]" "''1''" "''1''"] new_Dispatcher_eq [of MemoryStore_default]
  by (auto simp: SetAofWriter_def)

end
