(* ===== verification/GK_Gkwp2.thy ===== *)
theory GK_Gkwp2
  imports GK_Prelude "HOL-Library.Sublist" "HOL-Library.AList" "HOL-Library.Monad_Syntax"
begin

text \<open>
  The framing of the binary protocol: byte order, \<open>include/gatekeeper/protocol/gkwp2/header.h\<close>,
  \<open>src/protocol/gkwp2/frame.cpp\<close>, the incremental decoder \<open>decoder.cpp\<close> and the table of streams
  \<open>stream_manager.cpp\<close>. The locale \<open>codec\<close> is the contract every fixed-width field meets: reading
  what was written returns it and the bytes that follow.

  Shown: however the bytes of a sequence of frames are cut into reads, the decoder yields exactly
  those frames; and the number of streams never exceeds the configured maximum.
\<close>

section \<open>Big-endian numbers\<close>

fun be_bytes :: "nat \<Rightarrow> nat \<Rightarrow> string" where
  "be_bytes 0 v = []"
| "be_bytes (Suc n) v = be_bytes n (v div 256) @ [char_of (v mod 256)]"

definition from_be :: "string \<Rightarrow> nat" where
  "from_be s = foldl (\<lambda>a c. a * 256 + byte_val c) 0 s"

lemma be_bytes_code [code]:
  "be_bytes n v = (if n = 0 then [] else be_bytes (n - 1) (v div 256) @ [char_of (v mod 256)])"
  by (cases n) simp_all

lemma byte_val_char_of_mod [simp]: "byte_val (char_of n) = n mod 256"
  by (simp add: byte_val_def)

lemma length_be_bytes [simp]: "length (be_bytes n v) = n"
  by (induction n arbitrary: v) simp_all

lemma from_be_snoc: "from_be (s @ [c]) = from_be s * 256 + byte_val c"
  by (simp add: from_be_def)

lemma from_be_be_bytes: "v < 256 ^ n \<Longrightarrow> from_be (be_bytes n v) = v"
proof (induction n arbitrary: v)
  case (Suc n)
  have "v div 256 < 256 ^ n" using Suc.prems by (simp add: less_mult_imp_div_less mult.commute)
  then show ?case using Suc.IH [of "v div 256"] by (simp add: from_be_snoc)
qed (simp add: from_be_def)

definition put8 :: "u8 \<Rightarrow> string" where
  "put8 w = [char_of (unat w)]"

definition put16 :: "u16 \<Rightarrow> string" where
  "put16 w = be_bytes 2 (unat w)"

definition put32 :: "u32 \<Rightarrow> string" where
  "put32 w = be_bytes 4 (unat w)"

definition put64 :: "u64 \<Rightarrow> string" where
  "put64 w = be_bytes 8 (unat w)"

text \<open>Reading a field: \<open>None\<close> when the bytes are not there.\<close>

definition get8 :: "string \<Rightarrow> (u8 \<times> string) option" where
  "get8 s = (if length s < 1 then None else Some (of_nat (from_be (take 1 s)), drop 1 s))"

definition get16 :: "string \<Rightarrow> (u16 \<times> string) option" where
  "get16 s = (if length s < 2 then None else Some (of_nat (from_be (take 2 s)), drop 2 s))"

definition get32 :: "string \<Rightarrow> (u32 \<times> string) option" where
  "get32 s = (if length s < 4 then None else Some (of_nat (from_be (take 4 s)), drop 4 s))"

definition get64 :: "string \<Rightarrow> (u64 \<times> string) option" where
  "get64 s = (if length s < 8 then None else Some (of_nat (from_be (take 8 s)), drop 8 s))"

locale codec =
  fixes put :: "'a \<Rightarrow> string" and get :: "string \<Rightarrow> ('a \<times> string) option" and width :: nat
  assumes get_put: "get (put x @ r) = Some (x, r)"
    and length_put: "length (put x) = width"
    and get_length: "get s = Some (x, r) \<Longrightarrow> length s = width + length r"
    and get_None: "get s = None \<longleftrightarrow> length s < width"
begin

lemma put_prefix_free:
  assumes "put x @ r = put y @ q"
  shows "x = y \<and> r = q"
proof -
  have "Some (x, r) = Some (y, q)" by (simp only: get_put [symmetric] assms)
  then show ?thesis by blast
qed

lemma get_Some: "width \<le> length s \<Longrightarrow> \<exists>x r. get s = Some (x, r)"
  using get_None [of s] by (cases "get s") auto

end

interpretation u8c: codec put8 get8 1
proof
  fix x :: u8 and r
  have "unat x < 256" using unsigned_less [of x] by simp
  then show "get8 (put8 x @ r) = Some (x, r)"
    by (simp add: get8_def put8_def from_be_def)
qed (auto simp: put8_def get8_def split: if_splits)

interpretation u16c: codec put16 get16 2
proof
  fix x :: u16 and r
  have "unat x < 256 ^ 2" using unsigned_less [of x] by simp
  then show "get16 (put16 x @ r) = Some (x, r)"
    by (simp add: get16_def put16_def from_be_be_bytes)
qed (auto simp: put16_def get16_def split: if_splits)

interpretation u32c: codec put32 get32 4
proof
  fix x :: u32 and r
  have "unat x < 256 ^ 4" using unsigned_less [of x] by simp
  then show "get32 (put32 x @ r) = Some (x, r)"
    by (simp add: get32_def put32_def from_be_be_bytes)
qed (auto simp: put32_def get32_def split: if_splits)

interpretation u64c: codec put64 get64 8
proof
  fix x :: u64 and r
  have "unat x < 256 ^ 8" using unsigned_less [of x] by simp
  then show "get64 (put64 x @ r) = Some (x, r)"
    by (simp add: get64_def put64_def from_be_be_bytes)
qed (auto simp: put64_def get64_def split: if_splits)

lemmas get_put = u8c.get_put u16c.get_put u32c.get_put u64c.get_put

lemmas length_put = u8c.length_put u16c.length_put u32c.length_put u64c.length_put

section \<open>Frames\<close>

definition kMagic :: u16 where "kMagic = 0x474B"

definition kVersion :: u8 where "kVersion = 0x02"

datatype MsgType = Msg_Request | Msg_Response | Msg_Event | Msg_Error

fun msg_code :: "MsgType \<Rightarrow> u8" where
  "msg_code Msg_Request = 0x01"
| "msg_code Msg_Response = 0x02"
| "msg_code Msg_Event = 0x03"
| "msg_code Msg_Error = 0x04"

definition kEndStream :: u8 where "kEndStream = 0x08"

definition kHeaderSize :: nat where "kHeaderSize = 24"

definition kMaxPayloadLength :: nat where "kMaxPayloadLength = 16 * 1024 * 1024"

definition kMaxDecoderBufferSize :: nat where "kMaxDecoderBufferSize = 16 * 1024 * 1024"

record Header =
  magic :: u16
  version :: u8
  hflags :: u8
  msg_type :: u8
  reserved_bytes :: "u8 \<times> u8 \<times> u8"
  request_id :: u64
  stream_id :: u32
  payload_len :: u32

record Frame =
  fr_header :: Header
  fr_payload :: string

definition put_header :: "Header \<Rightarrow> string" where
  "put_header h =
     put16 (magic h) @ put8 (version h) @ put8 (hflags h) @ put8 (msg_type h)
     @ (case reserved_bytes h of (a, b, c) \<Rightarrow> put8 a @ put8 b @ put8 c)
     @ put64 (request_id h) @ put32 (stream_id h) @ put32 (payload_len h)"

definition EncodeFrame :: "Header \<Rightarrow> string \<Rightarrow> string" where
  "EncodeFrame header payload = put_header (header\<lparr>payload_len := of_nat (length payload)\<rparr>) @ payload"

definition new_header :: "MsgType \<Rightarrow> u8 \<Rightarrow> u64 \<Rightarrow> u32 \<Rightarrow> nat \<Rightarrow> Header" where
  "new_header t fl rid sid len =
     \<lparr>magic = kMagic, version = kVersion, hflags = fl, msg_type = msg_code t, reserved_bytes = (0, 0, 0),
      request_id = rid, stream_id = sid, payload_len = of_nat len\<rparr>"

definition EncodeResponse :: "u64 \<Rightarrow> u32 \<Rightarrow> string \<Rightarrow> bool \<Rightarrow> string" where
  "EncodeResponse rid sid payload end_stream =
     EncodeFrame (new_header Msg_Response (if end_stream then kEndStream else 0) rid sid (length payload)) payload"

definition json_quote :: string where "json_quote = [CHR 0x22]"

definition EncodeError :: "u64 \<Rightarrow> u32 \<Rightarrow> string \<Rightarrow> string \<Rightarrow> bool \<Rightarrow> string" where
  "EncodeError rid sid error_code msg end_stream =
     (let err_payload = ''{'' @ json_quote @ ''code'' @ json_quote @ '':'' @ json_quote @ error_code @ json_quote @ '',''
            @ json_quote @ ''message'' @ json_quote @ '':'' @ json_quote @ msg @ json_quote @ ''}''
      in EncodeFrame (new_header Msg_Error (if end_stream then kEndStream else 0) rid sid (length err_payload)) err_payload)"

definition EncodeEvent :: "u64 \<Rightarrow> u32 \<Rightarrow> string \<Rightarrow> string \<Rightarrow> string" where
  "EncodeEvent rid sid event_type data =
     (let evt_payload = ''{'' @ json_quote @ ''event_type'' @ json_quote @ '':'' @ json_quote @ event_type @ json_quote @ '',''
            @ json_quote @ ''data'' @ json_quote @ '':'' @ (if data = [] then ''{}'' else data) @ ''}''
      in EncodeFrame (new_header Msg_Event 0 rid sid (length evt_payload)) evt_payload)"

section \<open>The decoder\<close>

definition get_header :: "string \<Rightarrow> (Header \<times> string) option" where
  "get_header s =
     do {
       (mg, s) \<leftarrow> get16 s;
       (vs, s) \<leftarrow> get8 s;
       (fl, s) \<leftarrow> get8 s;
       (mt, s) \<leftarrow> get8 s;
       (r0, s) \<leftarrow> get8 s;
       (r1, s) \<leftarrow> get8 s;
       (r2, s) \<leftarrow> get8 s;
       (rid, s) \<leftarrow> get64 s;
       (sid, s) \<leftarrow> get32 s;
       (len, s) \<leftarrow> get32 s;
       Some (\<lparr>magic = mg, version = vs, hflags = fl, msg_type = mt, reserved_bytes = (r0, r1, r2),
              request_id = rid, stream_id = sid, payload_len = len\<rparr>, s)
     }"

text \<open>One round of the loop on the unread bytes: wait for more, give up, or a frame and the rest.\<close>

datatype decode_step = Need_more | Bad_frame string | Got Frame string

definition decode1 :: "string \<Rightarrow> decode_step" where
  "decode1 s =
     (if length s < kHeaderSize then Need_more
      else case get_header s of
        None \<Rightarrow> Need_more
      | Some (hdr, body) \<Rightarrow>
          if magic hdr \<noteq> kMagic then Bad_frame ''Invalid GKWP/2 magic bytes''
          else if version hdr \<noteq> kVersion then Bad_frame ''Unsupported GKWP/2 version''
          else if unat (payload_len hdr) > kMaxPayloadLength
          then Bad_frame ''Payload length exceeds maximum allowed limit''
          else if length body < unat (payload_len hdr) then Need_more
          else Got \<lparr>fr_header = hdr, fr_payload = take (unat (payload_len hdr)) body\<rparr> (drop (unat (payload_len hdr)) body))"

record Decoder =
  buffer :: string
  read_offset :: nat

definition new_Decoder :: Decoder where
  "new_Decoder = \<lparr>buffer = [], read_offset = 0\<rparr>"

lemma get_header_length: "get_header s = Some (h, r) \<Longrightarrow> length s = kHeaderSize + length r"
  by (auto simp: get_header_def kHeaderSize_def bind_eq_Some_conv
      dest!: u8c.get_length u16c.get_length u32c.get_length u64c.get_length)

lemma decode1_rest: "decode1 s = Got f r \<Longrightarrow> length s = kHeaderSize + length (fr_payload f) + length r"
  by (auto simp: decode1_def split: if_splits option.splits dest!: get_header_length)

text \<open>The loop of \<open>Push\<close>: the frames it appends, the read offset it stops at and the error, if any.\<close>

function decode_loop :: "string \<Rightarrow> nat \<Rightarrow> Frame list \<times> nat \<times> string option" where
  "decode_loop buf off =
     (case decode1 (drop off buf) of
        Need_more \<Rightarrow> ([], off, None)
      | Bad_frame msg \<Rightarrow> ([], off, Some msg)
      | Got f _ \<Rightarrow>
          (case decode_loop buf (off + (kHeaderSize + unat (payload_len (fr_header f)))) of
             (fs, off', err) \<Rightarrow> (f # fs, off', err)))"
  by auto
termination
proof (relation "measure (\<lambda>(buf, off). length buf - off)", goal_cases)
  case (2 buf off f r)
  then have "kHeaderSize \<le> length (drop off buf)" using decode1_rest [OF 2] by simp
  then show ?case by (simp add: kHeaderSize_def)
qed simp

declare decode_loop.simps [simp del]

text \<open>After the loop: drop the consumed bytes when there is nothing else, or when they are many.\<close>

definition compact :: "string \<Rightarrow> nat \<Rightarrow> Decoder \<Rightarrow> Decoder" where
  "compact buf off d =
     (if off > 0 \<and> off = length buf then d\<lparr>buffer := [], read_offset := 0\<rparr>
      else if off > 65536 then d\<lparr>buffer := drop off buf, read_offset := 0\<rparr>
      else d\<lparr>buffer := buf, read_offset := off\<rparr>)"

definition Push :: "string \<Rightarrow> Decoder \<Rightarrow> Frame list \<times> string option \<times> Decoder" where
  "Push incoming d =
     (if length (buffer d) + length incoming > kMaxDecoderBufferSize
      then ([], Some ''Incoming buffer limit exceeded'', d)
      else
        let buf = buffer d @ incoming
        in case decode_loop buf (read_offset d) of
          (fs, off, Some err) \<Rightarrow> (fs, Some err, d\<lparr>buffer := buf, read_offset := off\<rparr>)
        | (fs, off, None) \<Rightarrow> (fs, None, compact buf off d))"

definition Decoder_Reset :: "Decoder \<Rightarrow> Decoder" where
  "Decoder_Reset d = d\<lparr>buffer := [], read_offset := 0\<rparr>"

text \<open>Successive reads of a connection, up to the first error.\<close>

fun push_all :: "string list \<Rightarrow> Decoder \<Rightarrow> Frame list \<times> string option \<times> Decoder" where
  "push_all [] d = ([], None, d)"
| "push_all (c # cs) d =
     (case Push c d of
        (fs, Some err, d') \<Rightarrow> (fs, Some err, d')
      | (fs, None, d') \<Rightarrow> (case push_all cs d' of (gs, err, d'') \<Rightarrow> (fs @ gs, err, d'')))"

section \<open>Decoding what was encoded\<close>

definition sendable :: "Header \<times> string \<Rightarrow> bool" where
  "sendable = (\<lambda>(h, p). magic h = kMagic \<and> version h = kVersion \<and> length p \<le> kMaxPayloadLength)"

definition wire :: "(Header \<times> string) list \<Rightarrow> string" where
  "wire fs = concat (map (\<lambda>(h, p). EncodeFrame h p) fs)"

definition received :: "Header \<times> string \<Rightarrow> Frame" where
  "received = (\<lambda>(h, p). \<lparr>fr_header = h\<lparr>payload_len := of_nat (length p)\<rparr>, fr_payload = p\<rparr>)"

lemma length_put_header: "length (put_header h) = kHeaderSize"
  by (simp add: put_header_def kHeaderSize_def length_put case_prod_beta)

lemma get_header_put_header: "get_header (put_header h @ r) = Some (h, r)"
  by (simp add: get_header_def put_header_def get_put case_prod_beta)

lemma payload_len_fits: "length p \<le> kMaxPayloadLength \<Longrightarrow> unat (of_nat (length p) :: u32) = length p"
  by (simp add: unat_of_nat take_bit_nat_def kMaxPayloadLength_def)

lemma decode1_EncodeFrame:
  "sendable (h, p) \<Longrightarrow> decode1 (EncodeFrame h p @ r) = Got (received (h, p)) r"
  by (simp add: decode1_def EncodeFrame_def length_put_header get_header_put_header payload_len_fits
      sendable_def received_def)

text \<open>A frame that has not arrived completely makes the decoder wait.\<close>

lemma decode1_partial:
  assumes ok: "sendable (h, p)" and pre: "strict_prefix s (EncodeFrame h p)"
  shows "decode1 s = Need_more"
proof (cases "length s < kHeaderSize")
  case False
  let ?h = "h\<lparr>payload_len := of_nat (length p)\<rparr>"
  obtain t where t: "put_header ?h @ p = s @ t" and "t \<noteq> []"
    using pre by (auto simp: strict_prefix_def prefix_def EncodeFrame_def)
  have "put_header ?h = take kHeaderSize s"
    using False arg_cong [OF t, of "take kHeaderSize"] by (simp add: length_put_header)
  then have s: "s = put_header ?h @ drop kHeaderSize s" by simp
  have "length (drop kHeaderSize s) < length p"
    using arg_cong [OF t, of length] \<open>t \<noteq> []\<close> False by (cases t) (auto simp: length_put_header)
  then show ?thesis
    using ok get_header_put_header [of ?h "drop kHeaderSize s"] s False
    by (simp add: decode1_def payload_len_fits sendable_def)
qed (simp add: decode1_def)

lemma wire_Cons: "wire (f # fs) = EncodeFrame (fst f) (snd f) @ wire fs"
  by (simp add: wire_def case_prod_beta)

lemma wire_take_drop: "wire (take k fs) @ wire (drop k fs) = wire fs"
  by (metis append_take_drop_id concat_append map_append wire_def)

text \<open>\<open>stuck s fs\<close>: with \<open>fs\<close> still to come, \<open>s\<close> does not hold a complete frame.\<close>

definition stuck :: "string \<Rightarrow> (Header \<times> string) list \<Rightarrow> bool" where
  "stuck s fs = (case fs of [] \<Rightarrow> s = [] | f # _ \<Rightarrow> strict_prefix s (EncodeFrame (fst f) (snd f)))"

lemma stuck_complete: "stuck (wire fs) fs \<Longrightarrow> fs = []"
  by (cases fs) (auto simp: stuck_def wire_Cons strict_prefix_def prefix_def)

lemma length_EncodeFrame: "length (EncodeFrame h p) = kHeaderSize + length p"
  by (simp add: EncodeFrame_def length_put_header)

lemma EncodeFrame_not_Nil: "[] \<noteq> EncodeFrame h p"
  using length_EncodeFrame [of h p] by (auto simp: kHeaderSize_def)

lemma decode_loop_wire:
  assumes "list_all sendable fs" and "drop off buf @ t = wire fs" and "off \<le> length buf"
  shows "\<exists>k off'. decode_loop buf off = (map received (take k fs), off', None) \<and> off' \<le> length buf
           \<and> wire (take k fs) @ drop off' buf = drop off buf \<and> stuck (drop off' buf) (drop k fs)"
  using assms
proof (induction fs arbitrary: off)
  case Nil
  then have "drop off buf = []" by (simp add: wire_def)
  moreover have "decode1 [] = Need_more" by (simp add: decode1_def kHeaderSize_def)
  ultimately have "decode_loop buf off = ([], off, None)" by (simp add: decode_loop.simps [of buf])
  then show ?case using Nil \<open>drop off buf = []\<close> by (auto simp: stuck_def wire_def)
next
  case (Cons f fs)
  let ?e = "EncodeFrame (fst f) (snd f)"
  have ok: "sendable (fst f, snd f)" and oks: "list_all sendable fs" using Cons.prems by simp_all
  have w: "drop off buf @ t = ?e @ wire fs" using Cons.prems by (simp add: wire_Cons)
  then consider (short) "strict_prefix (drop off buf) ?e" | (full) r where "drop off buf = ?e @ r"
    by (metis prefixE prefixI prefix_same_cases strict_prefix_def prefix_order.order_refl)
  then show ?case
  proof cases
    case short
    have "decode_loop buf off = ([], off, None)"
      using decode1_partial [OF ok short] by (simp add: decode_loop.simps [of buf])
    then show ?thesis using short Cons.prems(3) by - (rule exI [of _ 0], rule exI [of _ off], simp add: stuck_def wire_def)
  next
    case (full r)
    have r: "r = drop (off + length ?e) buf"
      using arg_cong [OF full, of "drop (length ?e)"] by (simp add: add.commute)
    have le: "off + length ?e \<le> length buf" using arg_cong [OF full, of length] Cons.prems(3) by simp
    obtain k off' where k: "decode_loop buf (off + length ?e) = (map received (take k fs), off', None)"
      "off' \<le> length buf" "wire (take k fs) @ drop off' buf = r" "stuck (drop off' buf) (drop k fs)"
      using Cons.IH [OF oks _ le] w full r by auto
    have len: "unat (payload_len (fr_header (received f))) = length (snd f)"
      using ok by (simp add: received_def case_prod_beta sendable_def payload_len_fits)
    have "decode1 (drop off buf) = Got (received f) r"
      using decode1_EncodeFrame [OF ok, of r] full by simp
    then have "decode_loop buf off = (received f # map received (take k fs), off', None)"
      using k(1) by (simp add: decode_loop.simps [of buf off] len length_EncodeFrame add.assoc)
    then show ?thesis using k full
      by - (rule exI [of _ "Suc k"], rule exI [of _ off'], simp add: wire_Cons)
  qed
qed

definition decoder_inv :: "Decoder \<Rightarrow> bool" where
  "decoder_inv d \<longleftrightarrow> d = new_Decoder \<or> read_offset d < length (buffer d)"

definition pending :: "Decoder \<Rightarrow> string" where
  "pending d = drop (read_offset d) (buffer d)"

lemma decoder_inv_offset: "decoder_inv d \<Longrightarrow> read_offset d \<le> length (buffer d)"
  by (auto simp: decoder_inv_def new_Decoder_def)

lemma Push_wire:
  assumes fs: "list_all sendable fs" and inv: "decoder_inv d" and w: "pending d @ c @ t = wire fs"
    and lim: "length (buffer d) + length c \<le> kMaxDecoderBufferSize"
  shows "\<exists>k d'. Push c d = (map received (take k fs), None, d') \<and> decoder_inv d'
           \<and> pending d' @ t = wire (drop k fs) \<and> stuck (pending d') (drop k fs)
           \<and> length (buffer d') \<le> length (buffer d) + length c"
proof -
  let ?buf = "buffer d @ c"
  have d: "drop (read_offset d) ?buf = pending d @ c"
    using decoder_inv_offset [OF inv] by (simp add: pending_def)
  then obtain k off where k: "decode_loop ?buf (read_offset d) = (map received (take k fs), off, None)"
    "off \<le> length ?buf" "wire (take k fs) @ drop off ?buf = pending d @ c" "stuck (drop off ?buf) (drop k fs)"
    using decode_loop_wire [OF fs, of "read_offset d" ?buf t] w decoder_inv_offset [OF inv] by auto
  have "wire (take k fs) @ drop off ?buf @ t = wire (take k fs) @ wire (drop k fs)"
    using w k(3) wire_take_drop [of k fs] by (metis append.assoc)
  then have rest: "drop off ?buf @ t = wire (drop k fs)" by simp
  let ?d = "compact ?buf off d"
  have push: "Push c d = (map received (take k fs), None, ?d)"
    using lim k(1) by (simp add: Push_def)
  have "decoder_inv ?d \<and> pending ?d = drop off ?buf \<and> length (buffer ?d) \<le> length ?buf"
    using k(2) by (auto simp: compact_def decoder_inv_def pending_def new_Decoder_def)
  then show ?thesis using push rest k(4) by auto
qed

lemma push_all_wire:
  assumes "list_all sendable fs" and "decoder_inv d" and "pending d @ concat cs = wire fs"
    and "length (buffer d) + length (concat cs) \<le> kMaxDecoderBufferSize" and "stuck (pending d) fs"
  shows "push_all cs d = (map received fs, None, new_Decoder)"
  using assms
proof (induction cs arbitrary: d fs)
  case Nil
  then have "fs = []" using stuck_complete by auto
  then show ?case using Nil by (auto simp: wire_def pending_def decoder_inv_def)
next
  case (Cons c cs)
  then obtain k d' where k: "Push c d = (map received (take k fs), None, d')" "decoder_inv d'"
    "pending d' @ concat cs = wire (drop k fs)" "stuck (pending d') (drop k fs)"
    "length (buffer d') \<le> length (buffer d) + length c"
    using Push_wire [of fs d c "concat cs"] by auto
  have "push_all cs d' = (map received (drop k fs), None, new_Decoder)"
    using Cons.IH [OF _ k(2) k(3) _ k(4)] Cons.prems(1,4) k(5) by (simp add: list_all_iff in_set_dropD)
  then show ?case using k(1) by (simp flip: map_append)
qed



section \<open>Streams\<close>

datatype StreamState = Idle | Open | HalfClosedRemote | HalfClosedLocal | Closed

record Stream =
  str_id :: u32
  str_state :: StreamState
  last_activity_ms :: u64
  fragment_buffer :: string

text \<open>The hash map of streams is kept as an association list with one entry per identifier; the list
  order stands for the order the container iterates in.\<close>

record StreamManager =
  max_concurrent_streams :: u32
  idle_timeout_ms :: u64
  streams :: "(u32 \<times> Stream) list"

definition new_StreamManager :: "u32 \<Rightarrow> u64 \<Rightarrow> StreamManager" where
  "new_StreamManager mx idle = \<lparr>max_concurrent_streams = mx, idle_timeout_ms = idle, streams = []\<rparr>"

definition CanOpenStream :: "u32 \<Rightarrow> StreamManager \<Rightarrow> bool" where
  "CanOpenStream sid m =
     (if map_of (streams m) sid \<noteq> None then True
      else length (streams m) < unat (max_concurrent_streams m))"

definition GetOrCreateStream :: "u32 \<Rightarrow> u64 \<Rightarrow> StreamManager \<Rightarrow> Stream option \<times> StreamManager" where
  "GetOrCreateStream sid now m =
     (case map_of (streams m) sid of
        Some s \<Rightarrow>
          let s' = s\<lparr>last_activity_ms := now\<rparr>
          in (Some s', m\<lparr>streams := AList.update sid s' (streams m)\<rparr>)
      | None \<Rightarrow>
          if length (streams m) \<ge> unat (max_concurrent_streams m) then (None, m)
          else
            let s = \<lparr>str_id = sid, str_state = Open, last_activity_ms = now, fragment_buffer = []\<rparr>
            in (Some s, m\<lparr>streams := AList.update sid s (streams m)\<rparr>))"

definition FindStream :: "u32 \<Rightarrow> StreamManager \<Rightarrow> Stream option" where
  "FindStream sid m = map_of (streams m) sid"

definition CloseStream :: "u32 \<Rightarrow> StreamManager \<Rightarrow> StreamManager" where
  "CloseStream sid m = m\<lparr>streams := AList.delete sid (streams m)\<rparr>"

definition stream_idle :: "u64 \<Rightarrow> u64 \<Rightarrow> Stream \<Rightarrow> bool" where
  "stream_idle timeout now s \<longleftrightarrow> now > last_activity_ms s \<and> now - last_activity_ms s \<ge> timeout"

text \<open>The identifiers passed to \<open>on_timeout\<close>, in order, and the table without them.\<close>

definition PurgeIdleStreams :: "u64 \<Rightarrow> StreamManager \<Rightarrow> u32 list \<times> StreamManager" where
  "PurgeIdleStreams now m =
     (let to_remove = map fst (filter (\<lambda>(i, s). stream_idle (idle_timeout_ms m) now s) (streams m))
      in (to_remove, fold CloseStream to_remove m))"

definition stream_inv :: "StreamManager \<Rightarrow> bool" where
  "stream_inv m \<longleftrightarrow>
     distinct (map fst (streams m)) \<and> length (streams m) \<le> unat (max_concurrent_streams m)
     \<and> list_all (\<lambda>(i, s). str_id s = i) (streams m)"

text \<open>Everything the manager can be asked to do, as a step.\<close>

inductive stream_step :: "StreamManager \<Rightarrow> StreamManager \<Rightarrow> bool" where
  step_open: "GetOrCreateStream sid now m = (r, m') \<Longrightarrow> stream_step m m'"
| step_close: "stream_step m (CloseStream sid m)"
| step_purge: "PurgeIdleStreams now m = (ids, m') \<Longrightarrow> stream_step m m'"

lemma length_update_alist:
  "length (AList.update k v xs) = (if map_of xs k = None then Suc (length xs) else length xs)"
  by (induction xs) auto

lemma CloseStream_simps [simp]:
  "streams (CloseStream sid m) = AList.delete sid (streams m)"
  "max_concurrent_streams (CloseStream sid m) = max_concurrent_streams m"
  by (simp_all add: CloseStream_def)

lemma list_all_update:
  "list_all P xs \<Longrightarrow> P (k, v) \<Longrightarrow> list_all P (AList.update k v xs)"
  by (induction xs) auto

lemma CloseStream_inv: "stream_inv m \<Longrightarrow> stream_inv (CloseStream sid m)"
  using distinct_delete [of "streams m" sid]
  by (auto simp: stream_inv_def list_all_iff AList.delete_eq intro: order_trans [OF length_filter_le])

lemma GetOrCreateStream_inv: "stream_inv m \<Longrightarrow> stream_inv (snd (GetOrCreateStream sid now m))"
  by (auto simp: stream_inv_def GetOrCreateStream_def Let_def length_update_alist distinct_update
      intro!: list_all_update dest!: map_of_SomeD split: option.splits)
    (auto simp: list_all_iff)

lemma fold_CloseStream:
  "streams (fold CloseStream ids m) = filter (\<lambda>(i, s). i \<notin> set ids) (streams m)"
  "max_concurrent_streams (fold CloseStream ids m) = max_concurrent_streams m"
  "idle_timeout_ms (fold CloseStream ids m) = idle_timeout_ms m"
  by (induction ids arbitrary: m) (auto simp: CloseStream_def AList.delete_eq intro!: filter_cong)

lemma stream_step_inv:
  assumes "stream_step m m'" and "stream_inv m"
  shows "stream_inv m' \<and> max_concurrent_streams m' = max_concurrent_streams m"
  using assms
proof cases
  case (step_open sid now r)
  then show ?thesis using GetOrCreateStream_inv [OF assms(2), of sid now]
    by (auto simp: GetOrCreateStream_def Let_def split: option.splits if_splits)
next
  case (step_close sid)
  then show ?thesis using CloseStream_inv [OF assms(2)] by simp
next
  case (step_purge now ids)
  have "stream_inv (fold CloseStream xs n)" if "stream_inv n" for xs n
    using that by (induction xs arbitrary: n) (auto intro: CloseStream_inv)
  then show ?thesis using step_purge assms(2)
    by (auto simp: PurgeIdleStreams_def Let_def fold_CloseStream(2))
qed

text \<open>A purge removes exactly the streams that have been idle for the timeout.\<close>

lemma FindStream_purge:
  assumes "stream_inv m"
  shows "FindStream sid (snd (PurgeIdleStreams now m))
         = (case FindStream sid m of
              None \<Rightarrow> None
            | Some s \<Rightarrow> if stream_idle (idle_timeout_ms m) now s then None else Some s)"
proof -
  let ?idle = "stream_idle (idle_timeout_ms m) now"
  let ?xs = "streams m"
  have "map_of (filter (\<lambda>(i, s). i \<notin> fst ` {p \<in> set xs. case p of (i, s) \<Rightarrow> ?idle s}) xs) sid
        = (case map_of xs sid of None \<Rightarrow> None | Some s \<Rightarrow> if ?idle s then None else Some s)"
    if "distinct (map fst xs)" for xs
  proof (cases "map_of xs sid")
    case (Some s)
    then have eq: "(sid, s') \<in> set xs \<longleftrightarrow> s' = s" for s'
      using that by (metis map_of_eq_Some_iff option.inject)
    show ?thesis
    proof (cases "?idle s")
      case True
      then show ?thesis using Some eq by (auto simp: map_of_eq_None_iff image_iff)
    qed (use Some eq in \<open>auto simp: map_of_filter_in image_iff\<close>)
  next
    case None
    then have "sid \<notin> fst ` set (filter P xs)" for P by (auto simp: map_of_eq_None_iff)
    then show ?thesis using None by (simp only: map_of_eq_None_iff [symmetric] option.case)
  qed
  then show ?thesis using assms
    by (simp add: FindStream_def PurgeIdleStreams_def Let_def fold_CloseStream stream_inv_def)
qed

text \<open>From a new stream table, whatever sequence of opening, closing and purging takes place, the
  table never holds more streams than its maximum, holds each stream under its own identifier, and
  opening a stream succeeds exactly when \<open>CanOpenStream\<close> says so, which makes the stream findable.\<close>

theorem stream_table_bounded:
  assumes "stream_step\<^sup>*\<^sup>* (new_StreamManager mx idle) m"
  shows "length (streams m) \<le> unat mx
    \<and> (\<forall>s. FindStream sid m = Some s \<longrightarrow> str_id s = sid)
    \<and> (CanOpenStream sid m \<longleftrightarrow> fst (GetOrCreateStream sid now m) \<noteq> None)
    \<and> (CanOpenStream sid m \<longrightarrow>
         FindStream sid (snd (GetOrCreateStream sid now m)) = fst (GetOrCreateStream sid now m))"
proof (intro conjI)
  have inv: "stream_inv m \<and> max_concurrent_streams m = mx"
    using assms
    by induction (auto simp: stream_inv_def new_StreamManager_def dest!: stream_step_inv)
  show "length (streams m) \<le> unat mx" using inv by (auto simp: stream_inv_def)
  show "\<forall>s. FindStream sid m = Some s \<longrightarrow> str_id s = sid"
    using inv by (auto simp: stream_inv_def FindStream_def list_all_iff dest!: map_of_SomeD)
  show "CanOpenStream sid m \<longleftrightarrow> fst (GetOrCreateStream sid now m) \<noteq> None"
    by (auto simp: CanOpenStream_def GetOrCreateStream_def Let_def split: option.splits)
  show "CanOpenStream sid m \<longrightarrow>
      FindStream sid (snd (GetOrCreateStream sid now m)) = fst (GetOrCreateStream sid now m)"
    by (auto simp: CanOpenStream_def FindStream_def GetOrCreateStream_def Let_def update_conv'
        split: option.splits if_splits)
qed

theorem stream_table_bounded_witness:
  "let m = snd (GetOrCreateStream 5 100 (new_StreamManager 1 30000))
   in stream_step\<^sup>*\<^sup>* (new_StreamManager 1 30000) m
      \<and> CanOpenStream 5 m \<and> FindStream 5 (snd (GetOrCreateStream 5 200 m)) = fst (GetOrCreateStream 5 200 m)
      \<and> fst (GetOrCreateStream 6 200 m) = None"
proof -
  let ?m = "snd (GetOrCreateStream 5 100 (new_StreamManager 1 30000))"
  have r: "stream_step\<^sup>*\<^sup>* (new_StreamManager 1 30000) ?m"
    by (rule r_into_rtranclp, rule step_open, rule surjective_pairing)
  moreover have "CanOpenStream 5 ?m" "\<not> CanOpenStream 6 ?m" by code_simp+
  ultimately show ?thesis
    using stream_table_bounded [OF r, of 5 200] stream_table_bounded [OF r, of 6 200] by (simp add: Let_def)
qed

end
