(* ===== verification/GK_Binary_Codec.thy ===== *)
theory GK_Binary_Codec
  imports GK_Gkwp2
begin

text \<open>
  The payloads of the binary protocol, \<open>include/gatekeeper/protocol/gkwp2/binary_codec.h\<close>: operation
  codes, status bytes and the encoder of every request. Lengths are cast to the width of their field
  as the encoder does, so an over-long key is written with a length that has wrapped around.
\<close>

datatype BinaryOpcode =
    Op_Ping | Op_Set | Op_Get | Op_Del | Op_Exists | Op_Type | Op_Expire | Op_Ttl | Op_Incr | Op_Decr | Op_IncrBy
  | Op_RateLimit | Op_Reserve | Op_Commit | Op_Rollback | Op_QuotaInit | Op_QuotaGet
  | Op_IdemBegin | Op_IdemComplete | Op_IdemFail

fun op_code :: "BinaryOpcode \<Rightarrow> u16" where
  "op_code Op_Ping = 0x0001"
| "op_code Op_Set = 0x0010"
| "op_code Op_Get = 0x0011"
| "op_code Op_Del = 0x0012"
| "op_code Op_Exists = 0x0013"
| "op_code Op_Type = 0x0014"
| "op_code Op_Expire = 0x0015"
| "op_code Op_Ttl = 0x0016"
| "op_code Op_Incr = 0x0020"
| "op_code Op_Decr = 0x0021"
| "op_code Op_IncrBy = 0x0022"
| "op_code Op_RateLimit = 0x0100"
| "op_code Op_Reserve = 0x0101"
| "op_code Op_Commit = 0x0102"
| "op_code Op_Rollback = 0x0103"
| "op_code Op_QuotaInit = 0x0110"
| "op_code Op_QuotaGet = 0x0111"
| "op_code Op_IdemBegin = 0x0120"
| "op_code Op_IdemComplete = 0x0121"
| "op_code Op_IdemFail = 0x0122"

definition all_opcodes :: "BinaryOpcode list" where
  "all_opcodes =
     [Op_Ping, Op_Set, Op_Get, Op_Del, Op_Exists, Op_Type, Op_Expire, Op_Ttl, Op_Incr, Op_Decr, Op_IncrBy,
      Op_RateLimit, Op_Reserve, Op_Commit, Op_Rollback, Op_QuotaInit, Op_QuotaGet, Op_IdemBegin, Op_IdemComplete,
      Op_IdemFail]"

definition opcode_of :: "u16 \<Rightarrow> BinaryOpcode option" where
  "opcode_of w = find (\<lambda>opc. op_code opc = w) all_opcodes"

datatype BinaryStatus = St_Ok | St_Error | St_NotFound | St_Denied | St_Conflict

fun status_code :: "BinaryStatus \<Rightarrow> u8" where
  "status_code St_Ok = 0x00"
| "status_code St_Error = 0x01"
| "status_code St_NotFound = 0x02"
| "status_code St_Denied = 0x03"
| "status_code St_Conflict = 0x04"

datatype SetCondition = Set_Always | Set_IfAbsent | Set_IfPresent

fun cond_code :: "SetCondition \<Rightarrow> u8" where
  "cond_code Set_Always = 0"
| "cond_code Set_IfAbsent = 1"
| "cond_code Set_IfPresent = 2"

text \<open>A length cast to 16 or 32 bits, and the bytes it announces.\<close>

definition put_str16 :: "string \<Rightarrow> string" where
  "put_str16 s = put16 (of_nat (length s)) @ s"

definition put_str32 :: "string \<Rightarrow> string" where
  "put_str32 s = put32 (of_nat (length s)) @ s"

definition put_op :: "BinaryOpcode \<Rightarrow> string" where
  "put_op opc = put16 (op_code opc)"

definition PeekOpcode :: "string \<Rightarrow> u16 option" where
  "PeekOpcode payload = map_option fst (get16 payload)"

definition EncodePing :: string where
  "EncodePing = put_op Op_Ping"

definition EncodeGet :: "string \<Rightarrow> string" where
  "EncodeGet key = put_op Op_Get @ put_str16 key"

definition EncodeSet :: "string \<Rightarrow> string \<Rightarrow> SetCondition \<Rightarrow> u64 \<Rightarrow> string" where
  "EncodeSet key v cond ttl_ms =
     put_op Op_Set @ put_str16 key @ put_str32 v @ put64 ttl_ms @ put8 (cond_code cond)"

definition EncodeDel :: "string \<Rightarrow> string" where
  "EncodeDel key = put_op Op_Del @ put_str16 key"

definition EncodeExists :: "string \<Rightarrow> string" where
  "EncodeExists key = put_op Op_Exists @ put_str16 key"

definition EncodeType :: "string \<Rightarrow> string" where
  "EncodeType key = put_op Op_Type @ put_str16 key"

definition EncodeExpire :: "string \<Rightarrow> u64 \<Rightarrow> string" where
  "EncodeExpire key ttl_ms = put_op Op_Expire @ put_str16 key @ put64 ttl_ms"

definition EncodeTtl :: "string \<Rightarrow> string" where
  "EncodeTtl key = put_op Op_Ttl @ put_str16 key"

definition EncodeIncrBy :: "string \<Rightarrow> i64 \<Rightarrow> u64 \<Rightarrow> string" where
  "EncodeIncrBy key delta init_ttl_ms = put_op Op_Incr @ put_str16 key @ put64 delta @ put64 init_ttl_ms"

definition EncodeRateLimit :: "string \<Rightarrow> u64 \<Rightarrow> u64 \<Rightarrow> u32 \<Rightarrow> string" where
  "EncodeRateLimit key limit window_ms cost =
     put_op Op_RateLimit @ put_str16 key @ put64 limit @ put64 window_ms @ put32 cost"

definition EncodeQuotaInit :: "string \<Rightarrow> u64 \<Rightarrow> string" where
  "EncodeQuotaInit key amount = put_op Op_QuotaInit @ put_str16 key @ put64 amount"

definition EncodeQuotaGet :: "string \<Rightarrow> string" where
  "EncodeQuotaGet key = put_op Op_QuotaGet @ put_str16 key"

definition EncodeReserve :: "string \<Rightarrow> u64 \<Rightarrow> u64 \<Rightarrow> string" where
  "EncodeReserve key amount ttl_ms = put_op Op_Reserve @ put_str16 key @ put64 amount @ put64 ttl_ms"

definition EncodeCommit :: "string \<Rightarrow> string \<Rightarrow> u64 \<Rightarrow> string" where
  "EncodeCommit key res_id actual = put_op Op_Commit @ put_str16 key @ put_str16 res_id @ put64 actual"

definition EncodeRollback :: "string \<Rightarrow> string \<Rightarrow> string" where
  "EncodeRollback key res_id = put_op Op_Rollback @ put_str16 key @ put_str16 res_id"

definition EncodeIdemBegin :: "string \<Rightarrow> string \<Rightarrow> u64 \<Rightarrow> string \<Rightarrow> string" where
  "EncodeIdemBegin key request_hash ttl_ms token =
     put_op Op_IdemBegin @ put_str16 key @ put_str16 request_hash @ put64 ttl_ms @ put_str16 token"

text \<open>The response code is an \<open>int\<close> cast to 16 bits.\<close>

definition EncodeIdemComplete :: "string \<Rightarrow> string \<Rightarrow> 32 word \<Rightarrow> string \<Rightarrow> string" where
  "EncodeIdemComplete key token code body =
     put_op Op_IdemComplete @ put_str16 key @ put_str16 token @ put16 (ucast code) @ put_str32 body"

definition EncodeIdemFail :: "string \<Rightarrow> string \<Rightarrow> string \<Rightarrow> string" where
  "EncodeIdemFail key token msg = put_op Op_IdemFail @ put_str16 key @ put_str16 token @ put_str16 msg"

section \<open>Reading a string back\<close>

text \<open>A 16-bit length, then that many bytes, with at least \<open>extra\<close> bytes after them; \<open>None\<close> where the
  reader answers with an error.\<close>

definition read_str16 :: "nat \<Rightarrow> string \<Rightarrow> (string \<times> string) option" where
  "read_str16 extra payload =
     (if length payload < 2 then None
      else case get16 payload of
          None \<Rightarrow> None
        | Some (n, payload) \<Rightarrow>
            if length payload < unat n + extra then None
            else Some (take (unat n) payload, drop (unat n) payload))"

lemma opcode_of_op_code [simp]: "opcode_of (op_code opc) = Some opc"
  by (cases opc) (simp_all add: opcode_of_def all_opcodes_def)

lemma unat_of_nat_16: "n < 65536 \<Longrightarrow> unat (of_nat n :: u16) = n"
  by (simp add: unat_of_nat take_bit_nat_def)

lemma unat_of_nat_32: "n < 4294967296 \<Longrightarrow> unat (of_nat n :: u32) = n"
  by (simp add: unat_of_nat take_bit_nat_def)

lemma read_str16_put [simp]:
  "length s < 65536 \<Longrightarrow> extra \<le> length r \<Longrightarrow> read_str16 extra (put_str16 s @ r) = Some (s, r)"
  by (simp add: read_str16_def put_str16_def get_put length_put unat_of_nat_16)

lemma read_str16_Some: "read_str16 extra payload = Some (s, r) \<Longrightarrow> extra \<le> length r"
  by (auto simp: read_str16_def split: if_splits option.splits)

end
