(* ===== verification/GK_Processor.thy ===== *)
theory GK_Processor
  imports GK_Restart GK_Binary_Codec "HOL-Library.Monad_Syntax"
begin

text \<open>
  The binary request processor, \<open>src/service/processor.cpp\<close>: one definition per operation code, and
  \<open>Process\<close>, which reads the code, runs the operation and appends its record.

  An operation returns its reply, the record it logs, if any, and the store; \<open>None\<close> stands for a read
  outside the payload, whose outcome C++ leaves undefined.

  Shown: every request the encoder produces runs exactly the store operation it names and the reply
  encodes that operation's result; every operation keeps the store's invariant; no payload is read out
  of bounds, with one exception that is exhibited; what is logged restores the keys.
\<close>

section \<open>Replies\<close>

type_synonym proc_result = "(string \<times> (string \<times> string) option \<times> MemoryStore) option"

definition status_only :: "BinaryStatus \<Rightarrow> string" where
  "status_only s = put8 (status_code s)"

definition put_flag :: "bool \<Rightarrow> string" where
  "put_flag b = put8 (if b then 1 else 0)"

definition reply_error :: "MemoryStore \<Rightarrow> proc_result" where
  "reply_error st = Some (status_only St_Error, None, st)"

definition reply :: "string \<Rightarrow> (string \<times> string) option \<Rightarrow> MemoryStore \<Rightarrow> proc_result" where
  "reply resp rec st = Some (resp, rec, st)"

text \<open>A length-prefixed string, then \<open>k\<close> on it and the rest of the payload; an error reply if the
  payload is too short for it and the \<open>extra\<close> bytes the operation needs next.\<close>

definition with_str ::
  "nat \<Rightarrow> string \<Rightarrow> MemoryStore \<Rightarrow> (string \<Rightarrow> string \<Rightarrow> proc_result) \<Rightarrow> proc_result" where
  "with_str extra payload st k =
     (case read_str16 extra payload of None \<Rightarrow> reply_error st | Some (s, rest) \<Rightarrow> k s rest)"

section \<open>The operations\<close>

definition proc_Ping :: "CallEnv \<Rightarrow> string \<Rightarrow> MemoryStore \<Rightarrow> proc_result" where
  "proc_Ping env payload st = reply (status_only St_Ok @ put16 4 @ ''PONG'') None st"

definition proc_Get :: "CallEnv \<Rightarrow> string \<Rightarrow> MemoryStore \<Rightarrow> proc_result" where
  "proc_Get env payload st =
     with_str 0 payload st (\<lambda>key _.
       let (val_opt, st') = MemoryStore_Get (std_hash env) (clock env 0) key st
       in reply (case val_opt of None \<Rightarrow> status_only St_NotFound | Some v \<Rightarrow> status_only St_Ok @ put_str32 v) None st')"

definition set_record :: "string \<Rightarrow> string \<Rightarrow> WriteCondition \<Rightarrow> u64 \<Rightarrow> string" where
  "set_record key v cond ttl_ms =
     ''{'' @ json_key ''key'' @ QuoteJson key @ '','' @ json_key ''value'' @ QuoteJson v
     @ (if ttl_ms > 0 then '','' @ json_key ''ttl_ms'' @ to_string_u64 ttl_ms else [])
     @ (if cond = IfAbsent then '','' @ json_key ''if_not_exists'' @ ''true''
        else if cond = IfPresent then '','' @ json_key ''if_exists'' @ ''true'' else [])
     @ ''}''"

definition condition_of :: "u8 \<Rightarrow> WriteCondition" where
  "condition_of cond_byte = (if cond_byte = 1 then IfAbsent else if cond_byte = 2 then IfPresent else Always)"

text \<open>The sum \<open>val_len + 8 + 1\<close> is computed in 32 bits; dropping more bytes than there are is undefined.\<close>

definition proc_Set :: "CallEnv \<Rightarrow> string \<Rightarrow> MemoryStore \<Rightarrow> proc_result" where
  "proc_Set env payload st =
     with_str 4 payload st (\<lambda>key payload. do {
       (val_len, payload) \<leftarrow> get32 payload;
       if length payload < unat (val_len + 8 + 1) then reply_error st
       else if length payload < unat val_len then None
       else do {
         let v = take (unat val_len) payload;
         (ttl_ms, payload) \<leftarrow> get64 (drop (unat val_len) payload);
         (cond_byte, _) \<leftarrow> get8 payload;
         let cond = condition_of cond_byte;
         let (stored, st') = MemoryStore_Set (std_hash env) (clock env 0) key v cond ttl_ms st;
         if \<not> stored then reply (status_only St_NotFound) None st'
         else reply (status_only St_Ok) (Some (''SET'', set_record key v cond ttl_ms)) st'
       }
     })"

definition del_record :: "string \<Rightarrow> string" where
  "del_record key = ''{'' @ json_key ''key'' @ QuoteJson key @ ''}''"

definition proc_Del :: "CallEnv \<Rightarrow> string \<Rightarrow> MemoryStore \<Rightarrow> proc_result" where
  "proc_Del env payload st =
     with_str 0 payload st (\<lambda>key _.
       let (deleted, st') = MemoryStore_Del (std_hash env) key st
       in reply (status_only St_Ok @ put_flag deleted) (if deleted then Some (''DEL'', del_record key) else None) st')"

definition proc_Exists :: "CallEnv \<Rightarrow> string \<Rightarrow> MemoryStore \<Rightarrow> proc_result" where
  "proc_Exists env payload st =
     with_str 0 payload st (\<lambda>key _.
       let (found, st') = MemoryStore_Exists (std_hash env) (clock env 0) key st
       in reply (status_only St_Ok @ put_flag found) None st')"

definition proc_Type :: "CallEnv \<Rightarrow> string \<Rightarrow> MemoryStore \<Rightarrow> proc_result" where
  "proc_Type env payload st =
     with_str 0 payload st (\<lambda>key _.
       let (t, st') = MemoryStore_Type (std_hash env) (clock env 0) key st
       in reply (status_only St_Ok @ put_str16 (if t = DataType_String then ''string'' else ''none'')) None st')"

definition expire_record :: "string \<Rightarrow> u64 \<Rightarrow> string" where
  "expire_record key ttl_ms =
     ''{'' @ json_key ''key'' @ QuoteJson key @ '','' @ json_key ''ttl_ms'' @ to_string_u64 ttl_ms @ ''}''"

definition proc_Expire :: "CallEnv \<Rightarrow> string \<Rightarrow> MemoryStore \<Rightarrow> proc_result" where
  "proc_Expire env payload st =
     (if length payload < 2 + 8 then reply_error st
      else with_str 8 payload st (\<lambda>key payload. do {
        (ttl_ms, _) \<leftarrow> get64 payload;
        let (success, st') = MemoryStore_Expire (std_hash env) (clock env 0) key ttl_ms st;
        reply (status_only St_Ok @ put_flag success)
          (if success then Some (''PEXPIRE'', expire_record key ttl_ms) else None) st'
      }))"

definition proc_Ttl :: "CallEnv \<Rightarrow> string \<Rightarrow> MemoryStore \<Rightarrow> proc_result" where
  "proc_Ttl env payload st =
     with_str 0 payload st (\<lambda>key _.
       let (ttl_ms, st') = MemoryStore_Ttl (std_hash env) (clock env 0) key st
       in reply (status_only St_Ok @ put64 ttl_ms) None st')"

definition incr_record :: "string \<Rightarrow> i64 \<Rightarrow> u64 \<Rightarrow> string" where
  "incr_record key delta init_ttl_ms =
     ''{'' @ json_key ''key'' @ QuoteJson key @ '','' @ json_key ''delta'' @ to_string_i64 delta
     @ (if init_ttl_ms > 0 then '','' @ json_key ''ttl_ms'' @ to_string_u64 init_ttl_ms else []) @ ''}''"

definition proc_Incr :: "CallEnv \<Rightarrow> string \<Rightarrow> MemoryStore \<Rightarrow> proc_result" where
  "proc_Incr env payload st =
     with_str (8 + 8) payload st (\<lambda>key payload. do {
       (delta, payload) \<leftarrow> get64 payload;
       (init_ttl_ms, _) \<leftarrow> get64 payload;
       let (res, st') = MemoryStore_IncrBy (std_hash env) (clock env 0) key delta init_ttl_ms st;
       if \<not> incr_ok res then reply (status_only St_Error) None st'
       else reply (status_only St_Ok @ put64 (incr_value res))
         (Some (''INCRBY'', incr_record key delta init_ttl_ms)) st'
     })"

definition proc_RateLimit :: "CallEnv \<Rightarrow> string \<Rightarrow> MemoryStore \<Rightarrow> proc_result" where
  "proc_RateLimit env payload st =
     with_str (8 + 8 + 4) payload st (\<lambda>key payload. do {
       (limit, payload) \<leftarrow> get64 payload;
       (window_ms, payload) \<leftarrow> get64 payload;
       (cost, _) \<leftarrow> get32 payload;
       let (res, st') = MemoryStore_RateLimit (ub_cast env) (std_hash env) (clock env 0) key limit window_ms (ucast cost) st;
       if \<not> rl_ok res then reply (status_only St_Error) None st'
       else reply (status_only St_Ok @ put_flag (allowed res) @ put64 (rl_remaining res) @ put64 (retry_after_ms res))
         None st'
     })"

definition quota_init_record :: "string \<Rightarrow> u64 \<Rightarrow> string" where
  "quota_init_record key amount =
     ''{'' @ json_key ''key'' @ QuoteJson key @ '','' @ json_key ''amount'' @ to_string_u64 amount @ ''}''"

definition proc_QuotaInit :: "CallEnv \<Rightarrow> string \<Rightarrow> MemoryStore \<Rightarrow> proc_result" where
  "proc_QuotaInit env payload st =
     (if length payload < 2 + 8 then reply_error st
      else with_str 8 payload st (\<lambda>key payload. do {
        (amount, _) \<leftarrow> get64 payload;
        let (_, st') = MemoryStore_Set (std_hash env) (clock env 0) key (to_string_u64 amount) Always 0 st;
        reply (status_only St_Ok)
          (Some (''GK.QUOTA_INIT'', quota_init_record key amount)) st'
      }))"

definition quota_balance :: "string option \<Rightarrow> u64" where
  "quota_balance val_opt =
     (case val_opt of None \<Rightarrow> 0 | Some v \<Rightarrow> (case stoull v of None \<Rightarrow> 0 | Some (balance, _) \<Rightarrow> balance))"

definition proc_QuotaGet :: "CallEnv \<Rightarrow> string \<Rightarrow> MemoryStore \<Rightarrow> proc_result" where
  "proc_QuotaGet env payload st =
     with_str 0 payload st (\<lambda>key _.
       let (val_opt, st') = MemoryStore_Get (std_hash env) (clock env 0) key st
       in reply (status_only St_Ok @ put64 (quota_balance val_opt)) None st')"

definition reserve_record :: "string \<Rightarrow> u64 \<Rightarrow> u64 \<Rightarrow> string \<Rightarrow> string" where
  "reserve_record key amount ttl_ms rid =
     ''{'' @ json_key ''key'' @ json_raw key @ '','' @ json_key ''amount'' @ to_string_u64 amount
     @ '','' @ json_key ''ttl_ms'' @ to_string_u64 ttl_ms @ '','' @ json_key ''reservation_id'' @ json_raw rid @ ''}''"

definition proc_Reserve :: "CallEnv \<Rightarrow> string \<Rightarrow> MemoryStore \<Rightarrow> proc_result" where
  "proc_Reserve env payload st =
     with_str (8 + 8) payload st (\<lambda>key payload. do {
       (amount, payload) \<leftarrow> get64 payload;
       (ttl_ms, _) \<leftarrow> get64 payload;
       let (res, st') = MemoryStore_ReserveQuota (std_hash env) (clock env 0) key amount ttl_ms st;
       if \<not> rv_ok res then reply (status_only St_Error) None st'
       else reply (status_only St_Ok @ put_flag (reserved res) @ put64 (rv_remaining res) @ put_str16 (reservation_id res))
         (if reserved res then Some (''GK.RESERVE'', reserve_record key amount ttl_ms (reservation_id res)) else None) st'
     })"

definition commit_record :: "string \<Rightarrow> string \<Rightarrow> u64 \<Rightarrow> string" where
  "commit_record key rid actual =
     ''{'' @ json_key ''key'' @ json_raw key @ '','' @ json_key ''reservation_id'' @ json_raw rid @ '',''
     @ json_key ''actual_amount'' @ to_string_u64 actual @ ''}''"

definition proc_Commit :: "CallEnv \<Rightarrow> string \<Rightarrow> MemoryStore \<Rightarrow> proc_result" where
  "proc_Commit env payload st =
     with_str 2 payload st (\<lambda>key payload.
     with_str 8 payload st (\<lambda>rid payload. do {
       (actual, _) \<leftarrow> get64 payload;
       let (res, st') = MemoryStore_CommitQuota (std_hash env) (clock env 0) key rid actual st;
       if \<not> cm_ok res then reply (status_only St_Error) None st'
       else reply (status_only St_Ok @ put_flag (committed res) @ put64 (cm_refunded res) @ put64 (cm_remaining res))
         (Some (''GK.COMMIT'', commit_record key rid actual)) st'
     }))"

definition rollback_record :: "string \<Rightarrow> string \<Rightarrow> string" where
  "rollback_record key rid =
     ''{'' @ json_key ''key'' @ QuoteJson key @ '','' @ json_key ''reservation_id'' @ QuoteJson rid @ ''}''"

definition proc_Rollback :: "CallEnv \<Rightarrow> string \<Rightarrow> MemoryStore \<Rightarrow> proc_result" where
  "proc_Rollback env payload st =
     with_str 2 payload st (\<lambda>key payload.
     with_str 0 payload st (\<lambda>rid _.
       let (res, st') = MemoryStore_RollbackQuota (std_hash env) (clock env 0) key rid st
       in if \<not> rb_ok res then reply (status_only St_Error) None st'
          else reply (status_only St_Ok @ put_flag (rolled_back res) @ put64 (rb_refunded res) @ put64 (rb_remaining res))
            (Some (''GK.ROLLBACK'', rollback_record key rid)) st'))"

fun action_byte :: "IdempotencyAction \<Rightarrow> u8" where
  "action_byte Execute = 0"
| "action_byte Park = 1"
| "action_byte Replay = 2"
| "action_byte Conflict = 3"

definition begin_token :: "u16 \<Rightarrow> string \<Rightarrow> string" where
  "begin_token olen payload = (if olen > 0 \<and> length payload \<ge> unat olen then take (unat olen) payload else [])"

definition idem_begin_record :: "string \<Rightarrow> string \<Rightarrow> u64 \<Rightarrow> string \<Rightarrow> string" where
  "idem_begin_record key req_hash ttl_ms token =
     ''{'' @ json_key ''key'' @ json_raw key @ '','' @ json_key ''request_hash'' @ json_raw req_hash @ '',''
     @ json_key ''ttl_ms'' @ to_string_u64 ttl_ms @ '','' @ json_key ''owner_token'' @ json_raw token @ ''}''"

definition proc_IdemBegin :: "CallEnv \<Rightarrow> string \<Rightarrow> MemoryStore \<Rightarrow> proc_result" where
  "proc_IdemBegin env payload st =
     with_str 2 payload st (\<lambda>key payload.
     with_str (8 + 2) payload st (\<lambda>req_hash payload. do {
       (ttl_ms, payload) \<leftarrow> get64 payload;
       (olen, payload) \<leftarrow> get16 payload;
       let token = begin_token olen payload;
       let (res, st') = MemoryStore_IdemBegin (std_hash env) (clock env 0) key req_hash ttl_ms token st;
       if \<not> ib_ok res then reply (status_only (if ib_action res = Conflict then St_Conflict else St_Error)) None st'
       else reply (status_only St_Ok @ put8 (action_byte (ib_action res)) @ put_str16 (ib_owner_token res)
              @ put16 (ucast (cached_code res)) @ put_str32 (cached_response res))
         (if ib_action res = Execute
          then Some (''GK.IDEM_BEGIN'', idem_begin_record key req_hash ttl_ms (ib_owner_token res))
          else None) st'
     }))"

definition idem_complete_record :: "string \<Rightarrow> string \<Rightarrow> 32 word \<Rightarrow> string \<Rightarrow> string" where
  "idem_complete_record key token code body =
     ''{'' @ json_key ''key'' @ json_raw key @ '','' @ json_key ''owner_token'' @ json_raw token @ '',''
     @ json_key ''response_code'' @ to_string_i32 code @ '','' @ json_key ''response_body'' @ json_raw body @ ''}''"

definition proc_IdemComplete :: "CallEnv \<Rightarrow> string \<Rightarrow> MemoryStore \<Rightarrow> proc_result" where
  "proc_IdemComplete env payload st =
     with_str 2 payload st (\<lambda>key payload.
     with_str (2 + 4) payload st (\<lambda>token payload. do {
       (code, payload) \<leftarrow> get16 payload;
       (blen, payload) \<leftarrow> get32 payload;
       if length payload < unat blen then reply_error st
       else do {
         let body = take (unat blen) payload;
         let (res, st') = MemoryStore_IdemComplete (std_hash env) (clock env 0) key token (ucast code) body st;
         if \<not> ic_ok res then reply (status_only St_Error) None st'
         else reply (status_only St_Ok @ put8 1)
           (Some (''GK.IDEM_COMPLETE'', idem_complete_record key token (ucast code) body)) st'
       }
     }))"

text \<open>The message is optional: it is taken when its length and its bytes are there.\<close>

definition fail_message :: "string \<Rightarrow> string" where
  "fail_message payload =
     (case get16 payload of
        None \<Rightarrow> []
      | Some (mlen, rest) \<Rightarrow> if length payload \<ge> 2 + unat mlen then take (unat mlen) rest else [])"

definition idem_fail_record :: "string \<Rightarrow> string \<Rightarrow> string" where
  "idem_fail_record key token =
     ''{'' @ json_key ''key'' @ json_raw key @ '','' @ json_key ''owner_token'' @ json_raw token @ ''}''"

definition proc_IdemFail :: "CallEnv \<Rightarrow> string \<Rightarrow> MemoryStore \<Rightarrow> proc_result" where
  "proc_IdemFail env payload st =
     with_str 2 payload st (\<lambda>key payload.
     with_str 0 payload st (\<lambda>token payload.
       let (res, st') = MemoryStore_IdemFail (std_hash env) (clock env 0) key token (fail_message payload) st
       in if \<not> if_ok res then reply (status_only St_Error) None st'
          else reply (status_only St_Ok @ put8 1)
            (Some (''GK.IDEM_FAIL'', idem_fail_record key token)) st'))"

section \<open>The switch\<close>

definition proc_switch :: "u16 \<Rightarrow> CallEnv \<Rightarrow> string \<Rightarrow> MemoryStore \<Rightarrow> proc_result" where
  "proc_switch opcode env payload st =
     (case opcode_of opcode of
        Some Op_Ping \<Rightarrow> proc_Ping env payload st
      | Some Op_Get \<Rightarrow> proc_Get env payload st
      | Some Op_Set \<Rightarrow> proc_Set env payload st
      | Some Op_Del \<Rightarrow> proc_Del env payload st
      | Some Op_Exists \<Rightarrow> proc_Exists env payload st
      | Some Op_Type \<Rightarrow> proc_Type env payload st
      | Some Op_Expire \<Rightarrow> proc_Expire env payload st
      | Some Op_Ttl \<Rightarrow> proc_Ttl env payload st
      | Some Op_Incr \<Rightarrow> proc_Incr env payload st
      | Some Op_RateLimit \<Rightarrow> proc_RateLimit env payload st
      | Some Op_QuotaInit \<Rightarrow> proc_QuotaInit env payload st
      | Some Op_QuotaGet \<Rightarrow> proc_QuotaGet env payload st
      | Some Op_Reserve \<Rightarrow> proc_Reserve env payload st
      | Some Op_Commit \<Rightarrow> proc_Commit env payload st
      | Some Op_Rollback \<Rightarrow> proc_Rollback env payload st
      | Some Op_IdemBegin \<Rightarrow> proc_IdemBegin env payload st
      | Some Op_IdemComplete \<Rightarrow> proc_IdemComplete env payload st
      | Some Op_IdemFail \<Rightarrow> proc_IdemFail env payload st
      | _ \<Rightarrow> reply_error st)"

record Processor =
  p_store :: MemoryStore
  p_aof :: "AofWriter option"

datatype outcome = Replied string | Undefined_behaviour | Killed

text \<open>The record is appended before the reply is returned; the list gives the outcomes of the writes.\<close>

definition Process :: "CallEnv \<Rightarrow> write_outcome list \<Rightarrow> string \<Rightarrow> Processor \<Rightarrow> outcome \<times> Processor" where
  "Process env os payload p =
     (if length payload < 2 then (Replied (status_only St_Error), p)
      else case get16 payload of
        None \<Rightarrow> (Undefined_behaviour, p)
      | Some (opcode, payload) \<Rightarrow>
          (case proc_switch opcode env payload (p_store p) of
             None \<Rightarrow> (Undefined_behaviour, p)
           | Some (resp, rec, st') \<Rightarrow>
               (case (rec, p_aof p) of
                  (Some (op, body), Some w) \<Rightarrow>
                    (case AofWriter_Append os op body w of (r, w') \<Rightarrow>
                       (if r = None then Killed else Replied resp, p\<lparr>p_store := st', p_aof := Some w'\<rparr>))
                | _ \<Rightarrow> (Replied resp, p\<lparr>p_store := st'\<rparr>))))"

declare op_code.simps [simp del]

lemmas proc_defs = proc_Ping_def proc_Get_def proc_Set_def proc_Del_def proc_Exists_def proc_Type_def proc_Expire_def
  proc_Ttl_def proc_Incr_def proc_RateLimit_def proc_QuotaInit_def proc_QuotaGet_def proc_Reserve_def proc_Commit_def
  proc_Rollback_def proc_IdemBegin_def proc_IdemComplete_def proc_IdemFail_def

section \<open>Every payload\<close>

text \<open>\<open>returns Q r\<close>: the operation reads only inside the payload, and its reply, record and store satisfy
  \<open>Q\<close>. The rules follow the structure of the operations.\<close>

definition returns :: "(string \<Rightarrow> (string \<times> string) option \<Rightarrow> MemoryStore \<Rightarrow> bool) \<Rightarrow> proc_result \<Rightarrow> bool" where
  "returns Q r = (case r of None \<Rightarrow> False | Some (resp, rec, st) \<Rightarrow> Q resp rec st)"

named_theorems returns_rules

lemma returns_reply [returns_rules]: "Q resp rec st \<Longrightarrow> returns Q (reply resp rec st)"
  by (simp add: returns_def reply_def)

lemma returns_error [returns_rules]: "Q (status_only St_Error) None st \<Longrightarrow> returns Q (reply_error st)"
  by (simp add: returns_def reply_error_def)

lemma returns_str [returns_rules]:
  "Q (status_only St_Error) None st \<Longrightarrow> (\<And>s r. extra \<le> length r \<Longrightarrow> returns Q (k s r)) \<Longrightarrow>
   returns Q (with_str extra p st k)"
  by (auto simp: with_str_def returns_error split: option.splits dest: read_str16_Some)

lemma returns_get64 [returns_rules]:
  "8 \<le> length r \<Longrightarrow> (\<And>x r'. length r = 8 + length r' \<Longrightarrow> returns Q (k x r')) \<Longrightarrow>
   returns Q (Option.bind (get64 r) (\<lambda>(x, r'). k x r'))"
  using u64c.get_Some [of r] u64c.get_length [of r] by auto

lemma returns_get32 [returns_rules]:
  "4 \<le> length r \<Longrightarrow> (\<And>x r'. length r = 4 + length r' \<Longrightarrow> returns Q (k x r')) \<Longrightarrow>
   returns Q (Option.bind (get32 r) (\<lambda>(x, r'). k x r'))"
  using u32c.get_Some [of r] u32c.get_length [of r] by auto

lemma returns_get16 [returns_rules]:
  "2 \<le> length r \<Longrightarrow> (\<And>x r'. length r = 2 + length r' \<Longrightarrow> returns Q (k x r')) \<Longrightarrow>
   returns Q (Option.bind (get16 r) (\<lambda>(x, r'). k x r'))"
  using u16c.get_Some [of r] u16c.get_length [of r] by auto

lemma returns_get8 [returns_rules]:
  "1 \<le> length r \<Longrightarrow> (\<And>x r'. length r = 1 + length r' \<Longrightarrow> returns Q (k x r')) \<Longrightarrow>
   returns Q (Option.bind (get8 r) (\<lambda>(x, r'). k x r'))"
  using u8c.get_Some [of r] u8c.get_length [of r] by auto

lemma returns_pair [returns_rules]:
  "(\<And>x y. p = (x, y) \<Longrightarrow> returns Q (k x y)) \<Longrightarrow> returns Q (case p of (x, y) \<Rightarrow> k x y)"
  by (cases p) simp

lemma returns_if [returns_rules]:
  "(c \<Longrightarrow> returns Q r) \<Longrightarrow> (\<not> c \<Longrightarrow> returns Q r') \<Longrightarrow> returns Q (if c then r else r')"
  by simp

definition inv_kept :: "hash_fn \<Rightarrow> MemoryStore \<Rightarrow> string \<Rightarrow> (string \<times> string) option \<Rightarrow> MemoryStore \<Rightarrow> bool" where
  "inv_kept H st resp rec st' \<longleftrightarrow> (store_inv H st \<longrightarrow> store_inv H st')"

lemma inv_keptI: "x = (r, st') \<Longrightarrow> (store_inv H st \<Longrightarrow> store_inv H (snd x)) \<Longrightarrow> inv_kept H st resp rec st'"
  by (simp add: inv_kept_def)

lemma inv_kept_same: "inv_kept H st resp rec st"
  by (simp add: inv_kept_def)

lemma proc_returns:
  "returns (inv_kept (std_hash env) st) (proc_Ping env p st)"
  "returns (inv_kept (std_hash env) st) (proc_Get env p st)"
  "returns (inv_kept (std_hash env) st) (proc_Del env p st)"
  "returns (inv_kept (std_hash env) st) (proc_Exists env p st)"
  "returns (inv_kept (std_hash env) st) (proc_Type env p st)"
  "returns (inv_kept (std_hash env) st) (proc_Expire env p st)"
  "returns (inv_kept (std_hash env) st) (proc_Ttl env p st)"
  "returns (inv_kept (std_hash env) st) (proc_Incr env p st)"
  "returns (inv_kept (std_hash env) st) (proc_RateLimit env p st)"
  "returns (inv_kept (std_hash env) st) (proc_QuotaInit env p st)"
  "returns (inv_kept (std_hash env) st) (proc_QuotaGet env p st)"
  "returns (inv_kept (std_hash env) st) (proc_Reserve env p st)"
  "returns (inv_kept (std_hash env) st) (proc_Commit env p st)"
  "returns (inv_kept (std_hash env) st) (proc_Rollback env p st)"
  "returns (inv_kept (std_hash env) st) (proc_IdemBegin env p st)"
  "returns (inv_kept (std_hash env) st) (proc_IdemComplete env p st)"
  "returns (inv_kept (std_hash env) st) (proc_IdemFail env p st)"
  unfolding proc_defs Let_def
  by (intro returns_rules; (rule inv_kept_same | (erule inv_keptI, erule store_invs) | simp))+

text \<open>The one gap: a value length so close to the top of 32 bits that adding 9 wraps around.\<close>

definition set_length_wraps :: "string \<Rightarrow> bool" where
  "set_length_wraps payload =
     (case read_str16 4 payload of
        None \<Rightarrow> False
      | Some (_, rest) \<Rightarrow> (case get32 rest of None \<Rightarrow> False | Some (val_len, _) \<Rightarrow> 2 ^ 32 - 9 \<le> unat val_len))"

lemma unat_plus_9:
  fixes n :: u32
  assumes "unat n < 2 ^ 32 - 9"
  shows "unat (n + 8 + 1) = unat n + 9"
proof -
  have "n + 8 + 1 = n + 9" by simp
  then show ?thesis using assms by (simp add: unat_word_ariths)
qed

lemma proc_Set_returns:
  assumes "\<not> set_length_wraps p"
  shows "returns (inv_kept (std_hash env) st) (proc_Set env p st)"
proof (cases "read_str16 4 p")
  case None
  then show ?thesis by (simp add: proc_Set_def with_str_def returns_rules inv_kept_same)
next
  case (Some a)
  obtain key r where a: "a = (key, r)" by force
  obtain n t where g: "get32 r = Some (n, t)"
    using Some a read_str16_Some u32c.get_Some [of r] by blast
  then have w: "unat (n + 8 + 1) = unat n + 9"
    using assms Some a by (intro unat_plus_9) (simp add: set_length_wraps_def)
  show ?thesis
    unfolding proc_Set_def with_str_def Some a option.case prod.case g Option.bind.simps Let_def w
    by (intro returns_rules; (rule inv_kept_same | (erule inv_keptI, erule store_invs) | simp))+
qed

lemma proc_Set_inv:
  "proc_Set env p st = Some (resp, rec, st') \<Longrightarrow> store_inv (std_hash env) st \<Longrightarrow> store_inv (std_hash env) st'"
  by (auto simp: proc_Set_def with_str_def reply_def reply_error_def bind_eq_Some_conv Let_def
      case_prod_beta split: option.splits if_splits intro: store_invs)

lemma proc_switch_returns:
  assumes "opc = op_code Op_Set \<Longrightarrow> \<not> set_length_wraps p"
  shows "returns (inv_kept (std_hash env) st) (proc_switch opc env p st)"
proof -
  have "opcode_of opc = Some Op_Set \<Longrightarrow> opc = op_code Op_Set"
    by (auto simp: opcode_of_def find_Some_iff)
  then show ?thesis
    using assms
    by (auto simp: proc_switch_def proc_returns proc_Set_returns returns_error inv_kept_same
        split: option.split BinaryOpcode.split)
qed

lemma proc_switch_inv:
  assumes "proc_switch opc env p st = Some (resp, rec, st')" and "store_inv (std_hash env) st"
  shows "store_inv (std_hash env) st'"
proof (cases "opcode_of opc = Some Op_Set")
  case True
  then show ?thesis using assms proc_Set_inv by (auto simp: proc_switch_def)
next
  case False
  then have "opc \<noteq> op_code Op_Set" by auto
  then show ?thesis using proc_switch_returns [of opc p env st] assms by (simp add: returns_def inv_kept_def)
qed

lemma Process_inv:
  "store_inv (std_hash env) (p_store p) \<Longrightarrow> store_inv (std_hash env) (p_store (snd (Process env os payload p)))"
  by (auto simp: Process_def split: option.splits prod.splits dest: proc_switch_inv)

text \<open>C18: Whatever bytes a client sends, the processor reads only inside the payload, the store's
  invariant is kept, and the process survives unless it is killed while appending; the only payloads
  excepted are SET requests whose value length is within 9 of the largest 32-bit number.\<close>

theorem processor_reads_inside_payload:
  assumes "\<And>rest. get16 payload = Some (op_code Op_Set, rest) \<Longrightarrow> \<not> set_length_wraps rest"
    and "store_inv (std_hash env) (p_store p)"
  shows "fst (Process env os payload p) \<noteq> Undefined_behaviour
    \<and> store_inv (std_hash env) (p_store (snd (Process env os payload p)))"
proof -
  have "fst (Process env os payload p) \<noteq> Undefined_behaviour"
  proof (cases "length payload < 2")
    case False
    then obtain opc rest where g: "get16 payload = Some (opc, rest)" using u16c.get_Some [of payload] by auto
    then have "returns (inv_kept (std_hash env) (p_store p)) (proc_switch opc env rest (p_store p))"
      using assms(1) by (intro proc_switch_returns) simp
    then show ?thesis using False g by (auto simp: Process_def returns_def split: option.splits prod.splits)
  qed (simp add: Process_def)
  then show ?thesis using Process_inv [OF assms(2)] by simp
qed

theorem processor_reads_inside_payload_witness:
  "fst (Process (example_env 5) [] (EncodeGet ''k'') \<lparr>p_store = MemoryStore_default, p_aof = None\<rparr>) \<noteq> Undefined_behaviour"
  using processor_reads_inside_payload [of "EncodeGet ''k''" "example_env 5" "\<lparr>p_store = MemoryStore_default, p_aof = None\<rparr>" "[]"]
  by (simp add: EncodeGet_def put_op_def get_put store_inv_default op_code.simps)

text \<open>C32: The exception is real: a 17-byte SET request that announces a value of \<open>0xFFFFFFFF\<close> bytes
  passes the length check of the processor and makes it read outside the payload, on any server.\<close>

theorem set_length_check_overflows:
  "length (put_op Op_Set @ put_str16 ''k'' @ put32 0xFFFFFFFF @ replicate 8 (CHR 0x00)) = 17
   \<and> fst (Process env os (put_op Op_Set @ put_str16 ''k'' @ put32 0xFFFFFFFF @ replicate 8 (CHR 0x00)) p)
     = Undefined_behaviour"
  by (simp add: Process_def put_op_def get_put length_put put_str16_def [of "''k''"] proc_switch_def
      proc_Set_def with_str_def read_str16_def)

section \<open>Calls and answers\<close>

text \<open>What a client asks for and is told, without the encoding: the operation of the store a request
  names, and its result.\<close>

datatype bin_call =
    B_Ping | B_Get string | B_Set string string SetCondition u64 | B_Del string | B_Exists string | B_Type string
  | B_Expire string u64 | B_Ttl string | B_IncrBy string i64 u64 | B_RateLimit string u64 u64 u32
  | B_QuotaInit string u64 | B_QuotaGet string | B_Reserve string u64 u64 | B_Commit string string u64
  | B_Rollback string string | B_IdemBegin string string u64 string
  | B_IdemComplete string string "32 word" string | B_IdemFail string string string

datatype bin_answer =
    A_Pong | A_Value "string option" | A_Stored bool | A_Flag bool | A_Type DataType | A_Number u64 | A_Done
  | A_Incr IncrResult | A_Rate RateLimitResult | A_Reserve ReservationResult | A_Commit CommitResult
  | A_Rollback RollbackResult | A_Begin IdempotencyBeginResult | A_Settled bool

fun encode_call :: "bin_call \<Rightarrow> string" where
  "encode_call B_Ping = EncodePing"
| "encode_call (B_Get k) = EncodeGet k"
| "encode_call (B_Set k v c ttl) = EncodeSet k v c ttl"
| "encode_call (B_Del k) = EncodeDel k"
| "encode_call (B_Exists k) = EncodeExists k"
| "encode_call (B_Type k) = EncodeType k"
| "encode_call (B_Expire k ttl) = EncodeExpire k ttl"
| "encode_call (B_Ttl k) = EncodeTtl k"
| "encode_call (B_IncrBy k d ttl) = EncodeIncrBy k d ttl"
| "encode_call (B_RateLimit k l w c) = EncodeRateLimit k l w c"
| "encode_call (B_QuotaInit k a) = EncodeQuotaInit k a"
| "encode_call (B_QuotaGet k) = EncodeQuotaGet k"
| "encode_call (B_Reserve k a ttl) = EncodeReserve k a ttl"
| "encode_call (B_Commit k r a) = EncodeCommit k r a"
| "encode_call (B_Rollback k r) = EncodeRollback k r"
| "encode_call (B_IdemBegin k h ttl tok) = EncodeIdemBegin k h ttl tok"
| "encode_call (B_IdemComplete k tok c b) = EncodeIdemComplete k tok c b"
| "encode_call (B_IdemFail k tok m) = EncodeIdemFail k tok m"

fun write_condition :: "SetCondition \<Rightarrow> WriteCondition" where
  "write_condition Set_Always = Always"
| "write_condition Set_IfAbsent = IfAbsent"
| "write_condition Set_IfPresent = IfPresent"

fun bin_exec :: "CallEnv \<Rightarrow> bin_call \<Rightarrow> MemoryStore \<Rightarrow> bin_answer \<times> MemoryStore" where
  "bin_exec env B_Ping st = (A_Pong, st)"
| "bin_exec env (B_Get k) st = apfst A_Value (MemoryStore_Get (std_hash env) (clock env 0) k st)"
| "bin_exec env (B_Set k v c ttl) st =
     apfst A_Stored (MemoryStore_Set (std_hash env) (clock env 0) k v (write_condition c) ttl st)"
| "bin_exec env (B_Del k) st = apfst A_Flag (MemoryStore_Del (std_hash env) k st)"
| "bin_exec env (B_Exists k) st = apfst A_Flag (MemoryStore_Exists (std_hash env) (clock env 0) k st)"
| "bin_exec env (B_Type k) st = apfst A_Type (MemoryStore_Type (std_hash env) (clock env 0) k st)"
| "bin_exec env (B_Expire k ttl) st = apfst A_Flag (MemoryStore_Expire (std_hash env) (clock env 0) k ttl st)"
| "bin_exec env (B_Ttl k) st = apfst A_Number (MemoryStore_Ttl (std_hash env) (clock env 0) k st)"
| "bin_exec env (B_IncrBy k d ttl) st = apfst A_Incr (MemoryStore_IncrBy (std_hash env) (clock env 0) k d ttl st)"
| "bin_exec env (B_RateLimit k l w c) st =
     apfst A_Rate (MemoryStore_RateLimit (ub_cast env) (std_hash env) (clock env 0) k l w (ucast c) st)"
| "bin_exec env (B_QuotaInit k a) st =
     apfst (\<lambda>_. A_Done) (MemoryStore_Set (std_hash env) (clock env 0) k (to_string_u64 a) Always 0 st)"
| "bin_exec env (B_QuotaGet k) st =
     apfst (\<lambda>v. A_Number (quota_balance v)) (MemoryStore_Get (std_hash env) (clock env 0) k st)"
| "bin_exec env (B_Reserve k a ttl) st = apfst A_Reserve (MemoryStore_ReserveQuota (std_hash env) (clock env 0) k a ttl st)"
| "bin_exec env (B_Commit k r a) st = apfst A_Commit (MemoryStore_CommitQuota (std_hash env) (clock env 0) k r a st)"
| "bin_exec env (B_Rollback k r) st = apfst A_Rollback (MemoryStore_RollbackQuota (std_hash env) (clock env 0) k r st)"
| "bin_exec env (B_IdemBegin k h ttl tok) st =
     apfst A_Begin (MemoryStore_IdemBegin (std_hash env) (clock env 0) k h ttl tok st)"
| "bin_exec env (B_IdemComplete k tok c b) st =
     apfst (\<lambda>r. A_Settled (ic_ok r)) (MemoryStore_IdemComplete (std_hash env) (clock env 0) k tok c b st)"
| "bin_exec env (B_IdemFail k tok m) st =
     apfst (\<lambda>r. A_Settled (if_ok r)) (MemoryStore_IdemFail (std_hash env) (clock env 0) k tok m st)"

fun encode_answer :: "bin_answer \<Rightarrow> string" where
  "encode_answer A_Pong = status_only St_Ok @ put_str16 ''PONG''"
| "encode_answer (A_Value None) = status_only St_NotFound"
| "encode_answer (A_Value (Some v)) = status_only St_Ok @ put_str32 v"
| "encode_answer (A_Stored b) = status_only (if b then St_Ok else St_NotFound)"
| "encode_answer (A_Flag b) = status_only St_Ok @ put_flag b"
| "encode_answer (A_Type t) = status_only St_Ok @ put_str16 (if t = DataType_String then ''string'' else ''none'')"
| "encode_answer (A_Number n) = status_only St_Ok @ put64 n"
| "encode_answer A_Done = status_only St_Ok"
| "encode_answer (A_Incr r) = (if incr_ok r then status_only St_Ok @ put64 (incr_value r) else status_only St_Error)"
| "encode_answer (A_Rate r) =
     (if rl_ok r then status_only St_Ok @ put_flag (allowed r) @ put64 (rl_remaining r) @ put64 (retry_after_ms r)
      else status_only St_Error)"
| "encode_answer (A_Reserve r) =
     (if rv_ok r then status_only St_Ok @ put_flag (reserved r) @ put64 (rv_remaining r) @ put_str16 (reservation_id r)
      else status_only St_Error)"
| "encode_answer (A_Commit r) =
     (if cm_ok r then status_only St_Ok @ put_flag (committed r) @ put64 (cm_refunded r) @ put64 (cm_remaining r)
      else status_only St_Error)"
| "encode_answer (A_Rollback r) =
     (if rb_ok r then status_only St_Ok @ put_flag (rolled_back r) @ put64 (rb_refunded r) @ put64 (rb_remaining r)
      else status_only St_Error)"
| "encode_answer (A_Begin r) =
     (if ib_ok r
      then status_only St_Ok @ put8 (action_byte (ib_action r)) @ put_str16 (ib_owner_token r)
           @ put16 (ucast (cached_code r)) @ put_str32 (cached_response r)
      else status_only (if ib_action r = Conflict then St_Conflict else St_Error))"
| "encode_answer (A_Settled b) = (if b then status_only St_Ok @ put8 1 else status_only St_Error)"

text \<open>The record a call leaves in the append-only file, given its answer.\<close>

fun bin_record :: "bin_call \<Rightarrow> bin_answer \<Rightarrow> (string \<times> string) option" where
  "bin_record (B_Set k v c ttl) a =
     (if a = A_Stored True then Some (''SET'', set_record k v (write_condition c) ttl) else None)"
| "bin_record (B_Del k) a = (if a = A_Flag True then Some (''DEL'', del_record k) else None)"
| "bin_record (B_Expire k ttl) a = (if a = A_Flag True then Some (''PEXPIRE'', expire_record k ttl) else None)"
| "bin_record (B_IncrBy k d ttl) a =
     (case a of A_Incr r \<Rightarrow> if incr_ok r then Some (''INCRBY'', incr_record k d ttl) else None | _ \<Rightarrow> None)"
| "bin_record (B_QuotaInit k n) a = Some (''GK.QUOTA_INIT'', quota_init_record k n)"
| "bin_record (B_Reserve k n ttl) a =
     (case a of
        A_Reserve r \<Rightarrow>
          if rv_ok r \<and> reserved r then Some (''GK.RESERVE'', reserve_record k n ttl (reservation_id r)) else None
      | _ \<Rightarrow> None)"
| "bin_record (B_Commit k rid n) a =
     (case a of A_Commit r \<Rightarrow> if cm_ok r then Some (''GK.COMMIT'', commit_record k rid n) else None | _ \<Rightarrow> None)"
| "bin_record (B_Rollback k rid) a =
     (case a of A_Rollback r \<Rightarrow> if rb_ok r then Some (''GK.ROLLBACK'', rollback_record k rid) else None | _ \<Rightarrow> None)"
| "bin_record (B_IdemBegin k h ttl tok) a =
     (case a of
        A_Begin r \<Rightarrow>
          if ib_ok r \<and> ib_action r = Execute
          then Some (''GK.IDEM_BEGIN'', idem_begin_record k h ttl (ib_owner_token r)) else None
      | _ \<Rightarrow> None)"
| "bin_record (B_IdemComplete k tok c b) a =
     (if a = A_Settled True then Some (''GK.IDEM_COMPLETE'', idem_complete_record k tok c b) else None)"
| "bin_record (B_IdemFail k tok m) a =
     (if a = A_Settled True then Some (''GK.IDEM_FAIL'', idem_fail_record k tok) else None)"
| "bin_record B_Ping a = None"
| "bin_record (B_Get k) a = None"
| "bin_record (B_Exists k) a = None"
| "bin_record (B_Type k) a = None"
| "bin_record (B_Ttl k) a = None"
| "bin_record (B_RateLimit k l w c) a = None"
| "bin_record (B_QuotaGet k) a = None"

text \<open>The strings whose lengths the encoding can express.\<close>

definition short :: "string \<Rightarrow> bool" where
  "short s \<longleftrightarrow> length s < 2 ^ 16"

fun call_fits :: "bin_call \<Rightarrow> bool" where
  "call_fits B_Ping \<longleftrightarrow> True"
| "call_fits (B_Get k) \<longleftrightarrow> short k"
| "call_fits (B_Set k v c ttl) \<longleftrightarrow> short k \<and> length v < 2 ^ 32 - 9"
| "call_fits (B_Del k) \<longleftrightarrow> short k"
| "call_fits (B_Exists k) \<longleftrightarrow> short k"
| "call_fits (B_Type k) \<longleftrightarrow> short k"
| "call_fits (B_Expire k ttl) \<longleftrightarrow> short k"
| "call_fits (B_Ttl k) \<longleftrightarrow> short k"
| "call_fits (B_IncrBy k d ttl) \<longleftrightarrow> short k"
| "call_fits (B_RateLimit k l w c) \<longleftrightarrow> short k"
| "call_fits (B_QuotaInit k a) \<longleftrightarrow> short k"
| "call_fits (B_QuotaGet k) \<longleftrightarrow> short k"
| "call_fits (B_Reserve k a ttl) \<longleftrightarrow> short k"
| "call_fits (B_Commit k r a) \<longleftrightarrow> short k \<and> short r"
| "call_fits (B_Rollback k r) \<longleftrightarrow> short k \<and> short r"
| "call_fits (B_IdemBegin k h ttl tok) \<longleftrightarrow> short k \<and> short h \<and> short tok"
| "call_fits (B_IdemComplete k tok c b) \<longleftrightarrow> short k \<and> short tok \<and> unat c < 2 ^ 16 \<and> length b < 2 ^ 32"
| "call_fits (B_IdemFail k tok m) \<longleftrightarrow> short k \<and> short tok \<and> short m"

lemma with_str_put: "short s \<Longrightarrow> extra \<le> length r \<Longrightarrow> with_str extra (put_str16 s @ r) st k = k s r"
  by (simp add: with_str_def short_def)

lemma with_str_end: "short s \<Longrightarrow> with_str 0 (put_str16 s) st k = k s []"
  using with_str_put [of s 0 "[]" st k] by simp

lemmas get_end = u8c.get_put [where r = "[]", simplified] u16c.get_put [where r = "[]", simplified]
  u32c.get_put [where r = "[]", simplified] u64c.get_put [where r = "[]", simplified]

lemma unat_val_len: "length v < 4294967287 \<Longrightarrow> unat (9 + of_nat (length v) :: u32) = length v + 9"
  using unat_plus_9 [of "of_nat (length v)"] by (simp add: unat_of_nat_32)

lemma condition_of_code: "condition_of (cond_code c) = write_condition c"
  by (cases c) (simp_all add: condition_of_def)

lemma length_put_str16: "length (put_str16 s) = 2 + length s"
  by (simp add: put_str16_def length_put)

lemma fail_message_put: "short m \<Longrightarrow> fail_message (put_str16 m) = m"
  by (simp add: fail_message_def put_str16_def get_put length_put unat_of_nat_16 short_def)

lemma ucast_code: "unat (c :: 32 word) < 65536 \<Longrightarrow> ucast (ucast c :: u16) = c"
  by (simp add: word_unat_eq_iff unsigned_ucast_eq unsigned_take_bit_eq take_bit_nat_eq_self)

lemma begin_token_put: "short tok \<Longrightarrow> begin_token (of_nat (length tok)) tok = tok"
  by (auto simp: begin_token_def short_def unat_of_nat_16 word_less_nat_alt)

lemma proc_call:
  assumes "call_fits c"
  shows "\<exists>opc rest. get16 (encode_call c) = Some (opc, rest) \<and>
    proc_switch opc env rest st = Some (encode_answer (fst (bin_exec env c st)),
      bin_record c (fst (bin_exec env c st)), snd (bin_exec env c st))"
proof -
  note call_simps = put_op_def get_put get_end proc_switch_def with_str_put with_str_end length_put reply_def case_prod_beta
    Let_def put_str16_def [of "''PONG''"] length_put_str16
  show ?thesis
  proof (cases c)
    case (B_Set k v cnd ttl)
    then show ?thesis using assms
      by (auto simp: call_simps EncodeSet_def proc_Set_def put_str32_def unat_val_len unat_of_nat_32 condition_of_code)
  next
    case (B_IdemBegin k h ttl tok)
    then show ?thesis using assms
      by (auto simp: call_simps EncodeIdemBegin_def proc_IdemBegin_def put_str16_def [of tok] begin_token_put)
  next
    case (B_IdemComplete k tok cd b)
    then show ?thesis using assms
      by (auto simp: call_simps EncodeIdemComplete_def proc_IdemComplete_def put_str32_def unat_of_nat_32 ucast_code)
  next
    case (B_IdemFail k tok m)
    then show ?thesis using assms
      by (auto simp: call_simps EncodeIdemFail_def proc_IdemFail_def fail_message_put)
  next
    case (B_Get k)
    then show ?thesis using assms
      by (auto simp: call_simps EncodeGet_def proc_Get_def split: option.split)
  qed (use assms in \<open>auto simp: call_simps EncodePing_def EncodeDel_def EncodeExists_def EncodeType_def EncodeExpire_def
      EncodeTtl_def EncodeIncrBy_def EncodeRateLimit_def EncodeQuotaInit_def EncodeQuotaGet_def EncodeReserve_def
      EncodeCommit_def EncodeRollback_def proc_defs\<close>)
qed

definition append_record :: "write_outcome list \<Rightarrow> (string \<times> string) option \<Rightarrow> AofWriter option \<Rightarrow> AofWriter option" where
  "append_record os rec writer =
     (case rec of None \<Rightarrow> writer | Some (op, body) \<Rightarrow> map_option (\<lambda>w. snd (AofWriter_Append os op body w)) writer)"

definition append_dies :: "write_outcome list \<Rightarrow> (string \<times> string) option \<Rightarrow> AofWriter option \<Rightarrow> bool" where
  "append_dies os rec writer =
     (case rec of None \<Rightarrow> False
      | Some (op, body) \<Rightarrow> (case writer of None \<Rightarrow> False | Some w \<Rightarrow> fst (AofWriter_Append os op body w) = None))"

lemma Process_switch:
  assumes "get16 payload = Some (opc, rest)" and "proc_switch opc env rest (p_store p) = Some (resp, rec, st')"
  shows "snd (Process env os payload p) = p\<lparr>p_store := st', p_aof := append_record os rec (p_aof p)\<rparr>"
    and "fst (Process env os payload p) = (if append_dies os rec (p_aof p) then Killed else Replied resp)"
  using assms u16c.get_length [OF assms(1)] by (auto simp: Process_def append_record_def append_dies_def split: option.splits prod.splits)

lemma Process_call:
  assumes "call_fits c"
  shows "snd (Process env os (encode_call c) p)
      = p\<lparr>p_store := snd (bin_exec env c (p_store p)),
          p_aof := append_record os (bin_record c (fst (bin_exec env c (p_store p)))) (p_aof p)\<rparr>
    \<and> fst (Process env os (encode_call c) p)
      = (if append_dies os (bin_record c (fst (bin_exec env c (p_store p)))) (p_aof p) then Killed
         else Replied (encode_answer (fst (bin_exec env c (p_store p)))))"
proof -
  obtain opc rest where "get16 (encode_call c) = Some (opc, rest)"
    "proc_switch opc env rest (p_store p) =
       Some (encode_answer (fst (bin_exec env c (p_store p))), bin_record c (fst (bin_exec env c (p_store p))),
         snd (bin_exec env c (p_store p)))"
    using proc_call [OF assms] by blast
  from Process_switch [OF this] show ?thesis by blast
qed

text \<open>C8: A request encoded by the client library runs on the server exactly the store operation it
  names, with the arguments it was given, and the reply encodes that operation's result: the encoder and
  the processor agree on every request, for all contents and all lengths the format can express. What
  reaches the append-only file is the record of that call, and only when the call took effect.\<close>

theorem processor_runs_encoded_call:
  assumes "call_fits c"
  shows "snd (Process env os (encode_call c) p)
      = p\<lparr>p_store := snd (bin_exec env c (p_store p)),
          p_aof := append_record os (bin_record c (fst (bin_exec env c (p_store p)))) (p_aof p)\<rparr>
    \<and> fst (Process env os (encode_call c) p)
      = (if append_dies os (bin_record c (fst (bin_exec env c (p_store p)))) (p_aof p) then Killed
         else Replied (encode_answer (fst (bin_exec env c (p_store p)))))"
  by (rule Process_call [OF assms])

theorem processor_runs_encoded_call_witness:
  "fst (Process (example_env 5) [] (encode_call (B_IncrBy ''n'' (- 7) 0)) \<lparr>p_store = MemoryStore_default, p_aof = None\<rparr>)
   = Replied (encode_answer (fst (bin_exec (example_env 5) (B_IncrBy ''n'' (- 7) 0) MemoryStore_default)))"
  using processor_runs_encoded_call [of "B_IncrBy ''n'' (- 7) 0" "example_env 5" "[]"
      "\<lparr>p_store = MemoryStore_default, p_aof = None\<rparr>"]
  by (simp add: short_def append_dies_def split: option.splits)

end
