(* ===== verification/GK_Http_Service.thy ===== *)
theory GK_Http_Service
  imports GK_Http GK_Processor
begin

text \<open>
  The HTTP service, \<open>src/service/http_service.cpp\<close>: one definition per handler, and \<open>Handle\<close>, which
  routes a request by method and path.

  A handler returns its response, the records it appends to the append-only file, in order, and the
  store. The store's clock is the clock of the \<open>CallEnv\<close>; \<open>now_sec\<close> is the wall clock in seconds, which
  only the rate limit reads.

  Shown: a request whose body prints the arguments of a call runs exactly the store operation the
  binary protocol runs for that call, logs the same record and answers with its result; every request,
  well formed or not, keeps the store's invariant; percent-encoded keys are read back.
\<close>

section \<open>Query strings\<close>

definition hex_val :: "char \<Rightarrow> nat option" where
  "hex_val c =
     (let n = byte_val c in
      if 48 \<le> n \<and> n \<le> 57 then Some (n - 48)
      else if 97 \<le> n \<and> n \<le> 102 then Some (n - 97 + 10)
      else if 65 \<le> n \<and> n \<le> 70 then Some (n - 65 + 10)
      else None)"

fun UrlDecode :: "string \<Rightarrow> string" where
  "UrlDecode [] = []"
| "UrlDecode (c # s) =
     (if c = CHR 0x25 \<and> 2 \<le> length s
      then (case (hex_val (s ! 0), hex_val (s ! 1)) of
              (Some h1, Some h2) \<Rightarrow> char_of (push_bit 4 h1 OR h2) # UrlDecode (drop 2 s)
            | _ \<Rightarrow> c # UrlDecode s)
      else if c = CHR 0x2B then CHR 0x20 # UrlDecode s
      else c # UrlDecode s)"

text \<open>The loop over the occurrences of \<open>key=\<close>, from the position where the search starts.\<close>

function extract_loop :: "string \<Rightarrow> nat \<Rightarrow> string" where
  "extract_loop query from =
     (case str_find ''key='' query from of
        None \<Rightarrow> []
      | Some pos \<Rightarrow>
          if pos = 0 \<or> query ! (pos - 1) = CHR 0x26
          then (let val_start = pos + 4
                in case str_find [CHR 0x26] query val_start of
                     None \<Rightarrow> UrlDecode (drop val_start query)
                   | Some val_end \<Rightarrow> UrlDecode (take (val_end - val_start) (drop val_start query)))
          else extract_loop query (pos + 1))"
  by pat_completeness auto
termination
  by (relation "measure (\<lambda>(query, from). Suc (length query) - from)") (auto dest!: str_find_bounds)

declare extract_loop.simps [simp del]

definition ExtractKeyFromQuery :: "string \<Rightarrow> string" where
  "ExtractKeyFromQuery query = extract_loop query 0"

section \<open>Handlers\<close>

type_synonym http_result = "HttpResponse \<times> (string \<times> string) list \<times> MemoryStore"

definition http_reply :: "32 word \<Rightarrow> string \<Rightarrow> string \<Rightarrow> HttpResponse" where
  "http_reply code status_text body =
     \<lparr>resp_status = code, resp_text = status_text, resp_headers = [], resp_body = body\<rparr>"

definition BadRequest :: "string \<Rightarrow> HttpResponse" where
  "BadRequest message =
     http_reply 400 ''Bad Request''
       (''{'' @ json_key ''error'' @ json_raw ''INVALID_ARGUMENTS'' @ '',''
        @ json_key ''message'' @ json_raw message @ ''}'')"

text \<open>The body with the code and the message of a failed store operation, neither of them quoted.\<close>

definition error_body :: "string \<Rightarrow> string \<Rightarrow> string" where
  "error_body error_code error_message =
     ''{'' @ json_key ''error'' @ json_raw error_code @ '','' @ json_key ''message'' @ json_raw error_message @ ''}''"

definition bad :: "string \<Rightarrow> MemoryStore \<Rightarrow> http_result" where
  "bad message st = (BadRequest message, [], st)"

text \<open>The start of the handlers with a body: it is there, and it is an object of the fields they know.\<close>

definition with_body ::
  "(string \<Rightarrow> string + ftype) \<Rightarrow> HttpRequest \<Rightarrow> MemoryStore \<Rightarrow> ((string \<times> jval) list \<Rightarrow> http_result) \<Rightarrow> http_result" where
  "with_body ty req st k =
     (if rq_body req = [] then bad ''missing JSON body'' st
      else case read_members ty (rq_body req) of
          Inl what \<Rightarrow> bad (''invalid JSON: '' @ what) st
        | Inr fvs \<Rightarrow> k fvs)"

definition unsupported :: "string \<Rightarrow> string + ftype" where
  "unsupported field = Inl (''unsupported field: '' @ field)"

definition HandleHealthz :: "HttpRequest \<Rightarrow> MemoryStore \<Rightarrow> http_result" where
  "HandleHealthz req st = (http_reply 200 ''OK'' (''{'' @ json_key ''status'' @ json_raw ''ok'' @ ''}''), [], st)"

subsection \<open>Rate limits\<close>

definition rate_field :: "string \<Rightarrow> string + ftype" where
  "rate_field f =
     (if f = ''key'' \<or> f = ''tenant'' \<or> f = ''subject'' \<or> f = ''resource'' then Inr TStr
      else if f = ''limit'' \<or> f = ''window_ms'' \<or> f = ''window_seconds'' \<or> f = ''cost'' then Inr TNum
      else unsupported f)"

record rate_args =
  ra_key :: string
  ra_tenant :: string
  ra_subject :: string
  ra_resource :: string
  ra_limit :: u64
  ra_has_limit :: bool
  ra_window_ms :: u64
  ra_has_window :: bool
  ra_cost :: u64

definition no_rate_args :: rate_args where
  "no_rate_args =
     \<lparr>ra_key = [], ra_tenant = ''default'', ra_subject = ''anonymous'', ra_resource = ''default'',
      ra_limit = 0, ra_has_limit = False, ra_window_ms = 0, ra_has_window = False, ra_cost = 1\<rparr>"

definition set_rate_arg :: "string \<times> jval \<Rightarrow> rate_args \<Rightarrow> rate_args" where
  "set_rate_arg fv a =
     (case fv of (f, v) \<Rightarrow>
        if f = ''key'' then a\<lparr>ra_key := str_of v\<rparr>
        else if f = ''tenant'' then a\<lparr>ra_tenant := str_of v\<rparr>
        else if f = ''subject'' then a\<lparr>ra_subject := str_of v\<rparr>
        else if f = ''resource'' then a\<lparr>ra_resource := str_of v\<rparr>
        else if f = ''limit'' then a\<lparr>ra_limit := num_of v, ra_has_limit := True\<rparr>
        else if f = ''window_ms'' then a\<lparr>ra_window_ms := num_of v, ra_has_window := True\<rparr>
        else if f = ''window_seconds'' then a\<lparr>ra_window_ms := num_of v * 1000, ra_has_window := True\<rparr>
        else a\<lparr>ra_cost := num_of v\<rparr>)"

definition rate_key :: "rate_args \<Rightarrow> string" where
  "rate_key a =
     (if ra_key a = [] then ''gk:rate:'' @ ra_tenant a @ '':'' @ ra_subject a @ '':'' @ ra_resource a else ra_key a)"

definition rate_headers :: "u64 \<Rightarrow> RateLimitResult \<Rightarrow> HttpResponse \<Rightarrow> HttpResponse" where
  "rate_headers limit res resp =
     SetHeader ''X-RateLimit-Remaining'' (to_string_u64 (rl_remaining res))
       (SetHeader ''X-RateLimit-Limit'' (to_string_u64 limit) resp)"

definition rate_response :: "u64 \<Rightarrow> u64 \<Rightarrow> u64 \<Rightarrow> RateLimitResult \<Rightarrow> HttpResponse" where
  "rate_response now_sec limit window_ms res =
     (if allowed res
      then let reset_sec = now_sec + window_ms div 1000 + 1
           in SetHeader ''X-RateLimit-Reset'' (to_string_u64 reset_sec)
                (rate_headers limit res (http_reply 200 ''OK''
                  (''{'' @ json_key ''allowed'' @ ''true,'' @ json_key ''remaining'' @ to_string_u64 (rl_remaining res)
                   @ '','' @ json_key ''retry_after_ms'' @ ''0}'')))
      else let retry_after_sec = (retry_after_ms res + 999) div 1000;
               reset_sec = now_sec + retry_after_sec
           in SetHeader ''Retry-After'' (to_string_u64 retry_after_sec)
                (SetHeader ''X-RateLimit-Reset'' (to_string_u64 reset_sec)
                  (rate_headers limit res (http_reply 429 ''Too Many Requests''
                    (''{'' @ json_key ''allowed'' @ ''false,'' @ json_key ''remaining'' @ ''0,''
                     @ json_key ''retry_after_ms'' @ to_string_u64 (retry_after_ms res) @ ''}'')))))"

definition HandleRateLimitCheck :: "CallEnv \<Rightarrow> u64 \<Rightarrow> HttpRequest \<Rightarrow> MemoryStore \<Rightarrow> http_result" where
  "HandleRateLimitCheck env now_sec req st =
     with_body rate_field req st (\<lambda>fvs.
       let a = fold set_rate_arg fvs no_rate_args
       in if \<not> ra_has_limit a \<or> ra_limit a = 0 then bad ''limit is required and must be greater than 0'' st
          else if \<not> ra_has_window a \<or> ra_window_ms a = 0 then bad ''window_ms is required and must be greater than 0'' st
          else let (res, st') = MemoryStore_RateLimit (ub_cast env) (std_hash env) (clock env 0)
                     (rate_key a) (ra_limit a) (ra_window_ms a) (ra_cost a) st
               in (rate_response now_sec (ra_limit a) (ra_window_ms a) res, [], st'))"

subsection \<open>Quota\<close>

definition http_reserve_record :: "string \<Rightarrow> u64 \<Rightarrow> u64 \<Rightarrow> string" where
  "http_reserve_record key amount ttl_ms =
     ''{'' @ json_key ''key'' @ QuoteJson key @ '','' @ json_key ''amount'' @ to_string_u64 amount
     @ '','' @ json_key ''ttl_ms'' @ to_string_u64 ttl_ms @ ''}''"

definition reserve_field :: "string \<Rightarrow> string + ftype" where
  "reserve_field f =
     (if f = ''key'' then Inr TStr
      else if f = ''amount'' \<or> f = ''ttl_ms'' \<or> f = ''ttl_seconds'' then Inr TNum
      else unsupported f)"

definition HandleQuotaReserve :: "CallEnv \<Rightarrow> HttpRequest \<Rightarrow> MemoryStore \<Rightarrow> http_result" where
  "HandleQuotaReserve env req st =
     with_body reserve_field req st (\<lambda>fvs.
       let (key, amount, has_amount, ttl_ms, has_ttl) =
             fold (\<lambda>(f, v) (key, amount, has_amount, ttl_ms, has_ttl).
               if f = ''key'' then (str_of v, amount, has_amount, ttl_ms, has_ttl)
               else if f = ''amount'' then (key, num_of v, True, ttl_ms, has_ttl)
               else if f = ''ttl_ms'' then (key, amount, has_amount, num_of v, True)
               else (key, amount, has_amount, num_of v * 1000, True)) fvs ([], 0, False, 0, False)
       in if key = [] then bad ''key is required'' st
          else if \<not> has_amount \<or> amount = 0 then bad ''amount is required and must be greater than 0'' st
          else if \<not> has_ttl \<or> ttl_ms = 0 then bad ''ttl_ms is required and must be greater than 0'' st
          else let (res, st') = MemoryStore_ReserveQuota (std_hash env) (clock env 0) key amount ttl_ms st
               in if \<not> rv_ok res
                  then (http_reply 400 ''Bad Request'' (error_body (rv_error_code res) (rv_error_message res)), [], st')
                  else if reserved res
                  then (http_reply 200 ''OK''
                          (''{'' @ json_key ''reserved'' @ ''true,'' @ json_key ''remaining'' @ to_string_u64 (rv_remaining res)
                           @ '','' @ json_key ''reservation_id'' @ json_raw (reservation_id res) @ ''}''),
                        [(''GK.RESERVE'', http_reserve_record key amount ttl_ms)], st')
                  else (http_reply 429 ''Too Many Requests''
                          (''{'' @ json_key ''reserved'' @ ''false,'' @ json_key ''remaining'' @ to_string_u64 (rv_remaining res)
                           @ '','' @ json_key ''reservation_id'' @ json_raw [] @ ''}''), [], st'))"

definition commit_field :: "string \<Rightarrow> string + ftype" where
  "commit_field f =
     (if f = ''key'' \<or> f = ''reservation_id'' then Inr TStr
      else if f = ''actual_amount'' then Inr TNum
      else unsupported f)"

definition HandleQuotaCommit :: "CallEnv \<Rightarrow> HttpRequest \<Rightarrow> MemoryStore \<Rightarrow> http_result" where
  "HandleQuotaCommit env req st =
     with_body commit_field req st (\<lambda>fvs.
       let (key, rid, actual, has_actual) = fold (\<lambda>(f, v) (key, rid, actual, has_actual).
             if f = ''key'' then (str_of v, rid, actual, has_actual)
             else if f = ''reservation_id'' then (key, str_of v, actual, has_actual)
             else (key, rid, num_of v, True)) fvs ([], [], 0, False)
       in if key = [] \<or> rid = [] \<or> \<not> has_actual
          then bad ''key, reservation_id, and actual_amount are required'' st
          else let (res, st') = MemoryStore_CommitQuota (std_hash env) (clock env 0) key rid actual st
               in if \<not> cm_ok res
                  then (http_reply 400 ''Bad Request'' (error_body (cm_error_code res) (cm_error_message res)), [], st')
                  else (http_reply 200 ''OK''
                          (''{'' @ json_key ''committed'' @ ''true,'' @ json_key ''actual_amount'' @ to_string_u64 (actual_amount res)
                           @ '','' @ json_key ''refunded'' @ to_string_u64 (cm_refunded res)
                           @ '','' @ json_key ''remaining'' @ to_string_u64 (cm_remaining res) @ ''}''), [], st'))"

definition rollback_field :: "string \<Rightarrow> string + ftype" where
  "rollback_field f = (if f = ''key'' \<or> f = ''reservation_id'' then Inr TStr else unsupported f)"

definition HandleQuotaRollback :: "CallEnv \<Rightarrow> HttpRequest \<Rightarrow> MemoryStore \<Rightarrow> http_result" where
  "HandleQuotaRollback env req st =
     with_body rollback_field req st (\<lambda>fvs.
       let (key, rid) = fold (\<lambda>(f, v) (key, rid).
             if f = ''key'' then (str_of v, rid) else (key, str_of v)) fvs ([], [])
       in if key = [] \<or> rid = [] then bad ''key and reservation_id are required'' st
          else let (res, st') = MemoryStore_RollbackQuota (std_hash env) (clock env 0) key rid st
               in if \<not> rb_ok res
                  then (http_reply 400 ''Bad Request'' (error_body (rb_error_code res) (rb_error_message res)), [], st')
                  else (http_reply 200 ''OK''
                          (''{'' @ json_key ''rolled_back'' @ ''true,'' @ json_key ''refunded'' @ to_string_u64 (rb_refunded res)
                           @ '','' @ json_key ''remaining'' @ to_string_u64 (rb_remaining res) @ ''}''), [], st'))"

definition init_field :: "string \<Rightarrow> string + ftype" where
  "init_field f =
     (if f = ''key'' then Inr TStr
      else if f = ''quota'' \<or> f = ''ttl_ms'' \<or> f = ''ttl_seconds'' then Inr TNum
      else unsupported f)"

definition HandleQuotaInit :: "CallEnv \<Rightarrow> HttpRequest \<Rightarrow> MemoryStore \<Rightarrow> http_result" where
  "HandleQuotaInit env req st =
     with_body init_field req st (\<lambda>fvs.
       let (key, quota, has_quota, ttl_ms) = fold (\<lambda>(f, v) (key, quota, has_quota, ttl_ms).
             if f = ''key'' then (str_of v, quota, has_quota, ttl_ms)
             else if f = ''quota'' then (key, num_of v, True, ttl_ms)
             else if f = ''ttl_ms'' then (key, quota, has_quota, num_of v)
             else (key, quota, has_quota, num_of v * 1000)) fvs ([], 0, False, 0)
       in if key = [] \<or> \<not> has_quota then bad ''key and quota are required'' st
          else let (stored, st') = MemoryStore_Set (std_hash env) (clock env 0) key (to_string_u64 quota) Always ttl_ms st
               in (http_reply 200 ''OK''
                     (''{'' @ json_key ''ok'' @ json_bool stored @ '','' @ json_key ''quota'' @ to_string_u64 quota @ ''}''),
                   [(''GK.QUOTA_INIT'', quota_init_record key quota)], st'))"

subsection \<open>Idempotency\<close>

definition begin_field :: "string \<Rightarrow> string + ftype" where
  "begin_field f =
     (if f = ''key'' \<or> f = ''request_hash'' \<or> f = ''owner_token'' then Inr TStr
      else if f = ''ttl_ms'' \<or> f = ''ttl_seconds'' then Inr TNum
      else unsupported f)"

fun http_action :: "IdempotencyAction \<Rightarrow> string" where
  "http_action Execute = ''EXECUTE''"
| "http_action Park = ''PARK''"
| "http_action Replay = ''REPLAY''"
| "http_action Conflict = ''UNKNOWN''"

definition begin_body :: "IdempotencyBeginResult \<Rightarrow> string" where
  "begin_body res =
     ''{'' @ json_key ''action'' @ json_raw (http_action (ib_action res)) @ '','' @ json_key ''owner_token''
     @ QuoteJson (ib_owner_token res)
     @ (if ib_action res = Replay
        then '','' @ json_key ''response_code'' @ to_string_i32 (cached_code res) @ '',''
             @ json_key ''response_body'' @ QuoteJson (cached_response res)
        else []) @ ''}''"

definition http_begin_record :: "string \<Rightarrow> string \<Rightarrow> u64 \<Rightarrow> string \<Rightarrow> string" where
  "http_begin_record key req_hash ttl_ms token =
     ''{'' @ json_key ''key'' @ QuoteJson key @ '','' @ json_key ''request_hash'' @ QuoteJson req_hash @ '',''
     @ json_key ''ttl_ms'' @ to_string_u64 ttl_ms @ '','' @ json_key ''owner_token'' @ QuoteJson token @ ''}''"

definition HandleIdempotencyBegin :: "CallEnv \<Rightarrow> HttpRequest \<Rightarrow> MemoryStore \<Rightarrow> http_result" where
  "HandleIdempotencyBegin env req st =
     with_body begin_field req st (\<lambda>fvs.
       let (key, rhash, ttl_ms, token) = fold (\<lambda>(f, v) (key, rhash, ttl_ms, token).
             if f = ''key'' then (str_of v, rhash, ttl_ms, token)
             else if f = ''request_hash'' then (key, str_of v, ttl_ms, token)
             else if f = ''ttl_ms'' then (key, rhash, num_of v, token)
             else if f = ''ttl_seconds'' then (key, rhash, num_of v * 1000, token)
             else (key, rhash, ttl_ms, str_of v)) fvs ([], [], 0, [])
       in if key = [] \<or> rhash = [] then bad ''key and request_hash are required'' st
          else let (res, st') = MemoryStore_IdemBegin (std_hash env) (clock env 0) key rhash ttl_ms token st
               in if \<not> ib_ok res
                  then ((if ib_action res = Conflict then http_reply 409 ''Conflict'' else http_reply 400 ''Bad Request'')
                          (error_body (ib_error_code res) (ib_error_message res)), [], st')
                  else (http_reply 200 ''OK'' (begin_body res),
                        if ib_action res = Execute
                        then [(''GK.IDEM_BEGIN'', http_begin_record key rhash ttl_ms (ib_owner_token res))] else [], st'))"

text \<open>The status of a failed completion or failure report.\<close>

definition settle_error :: "string \<Rightarrow> string \<Rightarrow> HttpResponse" where
  "settle_error error_code error_message =
     (if error_code = ''ERR_TOKEN_MISMATCH'' then http_reply 403 ''Forbidden''
      else if error_code = ''ERR_NOT_FOUND'' \<or> error_code = ''ERR_EXPIRED'' then http_reply 404 ''Not Found''
      else http_reply 400 ''Bad Request'') (error_body error_code error_message)"

definition complete_field :: "string \<Rightarrow> string + ftype" where
  "complete_field f =
     (if f = ''key'' \<or> f = ''owner_token'' \<or> f = ''response_body'' then Inr TStr
      else if f = ''response_code'' then Inr TInt
      else unsupported f)"

definition http_complete_record :: "string \<Rightarrow> string \<Rightarrow> 32 word \<Rightarrow> string \<Rightarrow> string" where
  "http_complete_record key token code body =
     ''{'' @ json_key ''key'' @ QuoteJson key @ '','' @ json_key ''owner_token'' @ QuoteJson token @ '',''
     @ json_key ''response_code'' @ to_string_i32 code @ '','' @ json_key ''response_body'' @ QuoteJson body @ ''}''"

definition HandleIdempotencyComplete :: "CallEnv \<Rightarrow> HttpRequest \<Rightarrow> MemoryStore \<Rightarrow> http_result" where
  "HandleIdempotencyComplete env req st =
     with_body complete_field req st (\<lambda>fvs.
       let (key, token, rcode, rbody) = fold (\<lambda>(f, v) (key, token, rcode, rbody).
             if f = ''key'' then (str_of v, token, rcode, rbody)
             else if f = ''owner_token'' then (key, str_of v, rcode, rbody)
             else if f = ''response_code'' then (key, token, ucast (int_of v), rbody)
             else (key, token, rcode, str_of v)) fvs ([], [], 200, [])
       in if key = [] \<or> token = [] then bad ''key and owner_token are required'' st
          else let (res, st') = MemoryStore_IdemComplete (std_hash env) (clock env 0) key token rcode rbody st
               in if \<not> ic_ok res then (settle_error (ic_error_code res) (ic_error_message res), [], st')
                  else (http_reply 200 ''OK'' (''{'' @ json_key ''completed'' @ ''true}''),
                        [(''GK.IDEM_COMPLETE'', http_complete_record key token rcode rbody)], st'))"

definition fail_field :: "string \<Rightarrow> string + ftype" where
  "fail_field f =
     (if f = ''key'' \<or> f = ''owner_token'' \<or> f = ''error_message'' then Inr TStr else unsupported f)"

definition http_fail_record :: "string \<Rightarrow> string \<Rightarrow> string \<Rightarrow> string" where
  "http_fail_record key token error_message =
     ''{'' @ json_key ''key'' @ QuoteJson key @ '','' @ json_key ''owner_token'' @ QuoteJson token @ '',''
     @ json_key ''error_message'' @ QuoteJson error_message @ ''}''"

definition HandleIdempotencyFail :: "CallEnv \<Rightarrow> HttpRequest \<Rightarrow> MemoryStore \<Rightarrow> http_result" where
  "HandleIdempotencyFail env req st =
     with_body fail_field req st (\<lambda>fvs.
       let (key, token, msg) = fold (\<lambda>(f, v) (key, token, msg).
             if f = ''key'' then (str_of v, token, msg)
             else if f = ''owner_token'' then (key, str_of v, msg)
             else (key, token, str_of v)) fvs ([], [], [])
       in if key = [] \<or> token = [] then bad ''key and owner_token are required'' st
          else let (res, st') = MemoryStore_IdemFail (std_hash env) (clock env 0) key token msg st
               in if \<not> if_ok res then (settle_error (if_error_code res) (if_error_message res), [], st')
                  else (http_reply 200 ''OK'' (''{'' @ json_key ''failed'' @ ''true}''),
                        [(''GK.IDEM_FAIL'', http_fail_record key token msg)], st'))"

subsection \<open>Keys and values\<close>

definition kv_set_field :: "string \<Rightarrow> string + ftype" where
  "kv_set_field f =
     (if f = ''key'' \<or> f = ''value'' then Inr TStr
      else if f = ''ttl_ms'' \<or> f = ''ttl_seconds'' then Inr TNum
      else if f = ''condition''
      then Inr (TWord [''nx'', ''if_not_exists'', ''xx'', ''if_exists'', ''always''] ''unsupported condition: '')
      else if f = ''if_not_exists'' \<or> f = ''if_exists'' then Inr TBool
      else unsupported f)"

definition named_condition :: "string \<Rightarrow> WriteCondition" where
  "named_condition cond_str =
     (if cond_str = ''nx'' \<or> cond_str = ''if_not_exists'' then IfAbsent
      else if cond_str = ''xx'' \<or> cond_str = ''if_exists'' then IfPresent
      else Always)"

definition HandleKvSet :: "CallEnv \<Rightarrow> HttpRequest \<Rightarrow> MemoryStore \<Rightarrow> http_result" where
  "HandleKvSet env req st =
     with_body kv_set_field req st (\<lambda>fvs.
       let (key, val, ttl_ms, condition) = fold (\<lambda>(f, v) (key, val, ttl_ms, condition).
             if f = ''key'' then (str_of v, val, ttl_ms, condition)
             else if f = ''value'' then (key, str_of v, ttl_ms, condition)
             else if f = ''ttl_ms'' then (key, val, num_of v, condition)
             else if f = ''ttl_seconds'' then (key, val, num_of v * 1000, condition)
             else if f = ''condition'' then (key, val, ttl_ms, named_condition (str_of v))
             else if f = ''if_not_exists'' then (key, val, ttl_ms, if bool_of v then IfAbsent else condition)
             else (key, val, ttl_ms, if bool_of v then IfPresent else condition)) fvs ([], [], 0, Always)
       in if key = [] then bad ''key is required and must not be empty'' st
          else let (stored, st') = MemoryStore_Set (std_hash env) (clock env 0) key val condition ttl_ms st
               in (http_reply 200 ''OK'' (''{'' @ json_key ''ok'' @ ''true,'' @ json_key ''set'' @ json_bool stored @ ''}''),
                   if stored then [(''SET'', set_record key val condition ttl_ms)] else [], st'))"

text \<open>The key of a GET request: the query, and when it names none, the body.\<close>

definition key_field :: "string \<Rightarrow> string + ftype" where
  "key_field f = (if f = ''key'' then Inr TStr else unsupported f)"

definition request_key :: "HttpRequest \<Rightarrow> string + string" where
  "request_key req =
     (let key = ExtractKeyFromQuery (rq_query req)
      in case (if key = [] \<and> rq_body req \<noteq> []
               then map_sum id (\<lambda>fvs. fold (\<lambda>(f, v) key. str_of v) fvs key) (read_members key_field (rq_body req))
               else Inr key) of
           Inl what \<Rightarrow> Inl (''invalid JSON: '' @ what)
         | Inr key \<Rightarrow> if key = [] then Inl ''key is required'' else Inr key)"

definition HandleKvGet :: "CallEnv \<Rightarrow> HttpRequest \<Rightarrow> MemoryStore \<Rightarrow> http_result" where
  "HandleKvGet env req st =
     (case request_key req of
        Inl message \<Rightarrow> bad message st
      | Inr key \<Rightarrow>
          (case MemoryStore_Get (std_hash env) (clock env 0) key st of
             (None, st') \<Rightarrow> (http_reply 404 ''Not Found'' (error_body ''KEY_NOT_FOUND'' ''key does not exist''), [], st')
           | (Some v, st') \<Rightarrow>
               (http_reply 200 ''OK''
                  (''{'' @ json_key ''key'' @ QuoteJson key @ '','' @ json_key ''value'' @ QuoteJson v @ ''}''), [], st')))"

text \<open>The keys of a DEL or EXISTS request: the body, and when there is none, the query.\<close>

definition request_keys :: "HttpRequest \<Rightarrow> string + string list" where
  "request_keys req =
     (case (if rq_body req \<noteq> [] then map_sum id collect_keys (read_object keys_field (rq_body req))
            else let key = ExtractKeyFromQuery (rq_query req) in Inr (if key = [] then [] else [key])) of
        Inl what \<Rightarrow> Inl (''invalid JSON: '' @ what)
      | Inr keys \<Rightarrow> if keys = [] then Inl ''key or keys are required'' else Inr keys)"

text \<open>The loop of DEL: how many keys were deleted, and a record for each.\<close>

fun del_each :: "hash_fn \<Rightarrow> string list \<Rightarrow> nat \<Rightarrow> (string \<times> string) list \<Rightarrow> MemoryStore
    \<Rightarrow> nat \<times> (string \<times> string) list \<times> MemoryStore" where
  "del_each H [] n recs st = (n, recs, st)"
| "del_each H (k # ks) n recs st =
     (case MemoryStore_Del H k st of (d, st') \<Rightarrow>
        if d then del_each H ks (Suc n) (recs @ [(''DEL'', del_record k)]) st' else del_each H ks n recs st')"

definition HandleKvDel :: "CallEnv \<Rightarrow> HttpRequest \<Rightarrow> MemoryStore \<Rightarrow> http_result" where
  "HandleKvDel env req st =
     (case request_keys req of
        Inl message \<Rightarrow> bad message st
      | Inr keys \<Rightarrow>
          (case del_each (std_hash env) keys 0 [] st of
             (deleted, recs, st') \<Rightarrow> (http_reply 200 ''OK'' (''{'' @ json_key ''deleted'' @ to_dec deleted @ ''}''), recs, st')))"

definition HandleKvExists :: "CallEnv \<Rightarrow> HttpRequest \<Rightarrow> MemoryStore \<Rightarrow> http_result" where
  "HandleKvExists env req st =
     (case request_keys req of
        Inl message \<Rightarrow> bad message st
      | Inr keys \<Rightarrow>
          (case exists_loop env 0 keys 0 st of
             (count, st') \<Rightarrow> (http_reply 200 ''OK'' (''{'' @ json_key ''count'' @ to_dec count @ ''}''), [], st')))"

definition HandleKvType :: "CallEnv \<Rightarrow> HttpRequest \<Rightarrow> MemoryStore \<Rightarrow> http_result" where
  "HandleKvType env req st =
     (case request_key req of
        Inl message \<Rightarrow> bad message st
      | Inr key \<Rightarrow>
          (case MemoryStore_Type (std_hash env) (clock env 0) key st of
             (t, st') \<Rightarrow>
               (http_reply 200 ''OK''
                  (''{'' @ json_key ''key'' @ QuoteJson key @ '','' @ json_key ''type''
                   @ json_raw (if t = DataType_String then ''string'' else ''none'') @ ''}''), [], st')))"

definition expire_field :: "string \<Rightarrow> string + ftype" where
  "expire_field f =
     (if f = ''key'' then Inr TStr
      else if f = ''ttl_ms'' \<or> f = ''milliseconds'' \<or> f = ''ttl_seconds'' \<or> f = ''seconds'' then Inr TNum
      else unsupported f)"

definition HandleKvExpire :: "CallEnv \<Rightarrow> HttpRequest \<Rightarrow> MemoryStore \<Rightarrow> http_result" where
  "HandleKvExpire env req st =
     with_body expire_field req st (\<lambda>fvs.
       let (key, ttl_ms, has_ttl) = fold (\<lambda>(f, v) (key, ttl_ms, has_ttl).
             if f = ''key'' then (str_of v, ttl_ms, has_ttl)
             else if f = ''ttl_ms'' \<or> f = ''milliseconds'' then (key, num_of v, True)
             else (key, num_of v * 1000, True)) fvs ([], 0, False)
       in if key = [] \<or> \<not> has_ttl then bad ''key and ttl are required'' st
          else let (success, st') = MemoryStore_Expire (std_hash env) (clock env 0) key ttl_ms st
               in (http_reply 200 ''OK'' (''{'' @ json_key ''ok'' @ json_bool success @ ''}''),
                   if success then [(''PEXPIRE'', expire_record key ttl_ms)] else [], st'))"

text \<open>The clock is read by each of the two store operations.\<close>

definition HandleKvTtl :: "CallEnv \<Rightarrow> HttpRequest \<Rightarrow> MemoryStore \<Rightarrow> http_result" where
  "HandleKvTtl env req st =
     (case request_key req of
        Inl message \<Rightarrow> bad message st
      | Inr key \<Rightarrow>
          (let (ttl_sec, st1) = MemoryStore_Ttl (std_hash env) (clock env 0) key st;
               (ttl_ms, st2) = MemoryStore_Pttl (std_hash env) (clock env 1) key st1
           in (http_reply 200 ''OK''
                 (''{'' @ json_key ''key'' @ QuoteJson key @ '','' @ json_key ''ttl_seconds'' @ to_string_i64 ttl_sec
                  @ '','' @ json_key ''ttl_ms'' @ to_string_i64 ttl_ms @ ''}''), [], st2)))"

section \<open>Routing\<close>

definition known_paths :: "string list" where
  "known_paths =
     [''/healthz'', ''/v1/rate-limit/check'', ''/v1/quota/reserve'', ''/v1/quota/commit'', ''/v1/quota/rollback'',
      ''/v1/quota/init'', ''/v1/idempotency/begin'', ''/v1/idempotency/complete'', ''/v1/idempotency/fail'',
      ''/v1/kv/set'', ''/v1/kv/get'', ''/v1/kv/del'', ''/v1/kv/exists'', ''/v1/kv/type'', ''/v1/kv/expire'', ''/v1/kv/ttl'']"

definition Handle :: "CallEnv \<Rightarrow> u64 \<Rightarrow> HttpRequest \<Rightarrow> MemoryStore \<Rightarrow> http_result" where
  "Handle env now_sec req st =
     (let m = rq_method req; p = rq_path req in
      if m = ''GET'' \<and> p = ''/healthz'' then HandleHealthz req st
      else if m = ''POST'' \<and> p = ''/v1/rate-limit/check'' then HandleRateLimitCheck env now_sec req st
      else if m = ''POST'' \<and> p = ''/v1/quota/reserve'' then HandleQuotaReserve env req st
      else if m = ''POST'' \<and> p = ''/v1/quota/commit'' then HandleQuotaCommit env req st
      else if m = ''POST'' \<and> p = ''/v1/quota/rollback'' then HandleQuotaRollback env req st
      else if m = ''POST'' \<and> p = ''/v1/quota/init'' then HandleQuotaInit env req st
      else if m = ''POST'' \<and> p = ''/v1/idempotency/begin'' then HandleIdempotencyBegin env req st
      else if m = ''POST'' \<and> p = ''/v1/idempotency/complete'' then HandleIdempotencyComplete env req st
      else if m = ''POST'' \<and> p = ''/v1/idempotency/fail'' then HandleIdempotencyFail env req st
      else if m = ''POST'' \<and> p = ''/v1/kv/set'' then HandleKvSet env req st
      else if m = ''GET'' \<and> p = ''/v1/kv/get'' then HandleKvGet env req st
      else if m = ''POST'' \<and> p = ''/v1/kv/del'' then HandleKvDel env req st
      else if m = ''POST'' \<and> p = ''/v1/kv/exists'' then HandleKvExists env req st
      else if m = ''GET'' \<and> p = ''/v1/kv/type'' then HandleKvType env req st
      else if m = ''POST'' \<and> p = ''/v1/kv/expire'' then HandleKvExpire env req st
      else if m = ''GET'' \<and> p = ''/v1/kv/ttl'' then HandleKvTtl env req st
      else if p \<in> set known_paths
      then (http_reply 405 ''Method Not Allowed'' (''{'' @ json_key ''error'' @ json_raw ''METHOD_NOT_ALLOWED'' @ ''}''), [], st)
      else (http_reply 404 ''Not Found'' (''{'' @ json_key ''error'' @ json_raw ''NOT_FOUND'' @ ''}''), [], st))"

text \<open>The service shares the store and the writer with the binary processor. The handlers append between
  their store operations; appending does not read the store, so the records are appended here at the end,
  each with the outcomes of its own writes. \<open>None\<close> for a process killed while appending.\<close>

fun append_all :: "write_outcome list list \<Rightarrow> (string \<times> string) list \<Rightarrow> AofWriter \<Rightarrow> bool \<times> AofWriter" where
  "append_all oss [] w = (False, w)"
| "append_all oss ((op, body) # recs) w =
     (case AofWriter_Append (if oss = [] then [] else hd oss) op body w of
        (r, w') \<Rightarrow> if r = None then (True, w') else append_all (tl oss) recs w')"

definition http_process ::
  "CallEnv \<Rightarrow> write_outcome list list \<Rightarrow> u64 \<Rightarrow> HttpRequest \<Rightarrow> Processor \<Rightarrow> HttpResponse option \<times> Processor" where
  "http_process env oss now_sec req p =
     (case Handle env now_sec req (p_store p) of
        (resp, recs, st') \<Rightarrow>
          (case p_aof p of
             None \<Rightarrow> (Some resp, p\<lparr>p_store := st'\<rparr>)
           | Some w \<Rightarrow>
               (case append_all oss recs w of
                  (killed, w') \<Rightarrow> (if killed then None else Some resp, p\<lparr>p_store := st', p_aof := Some w'\<rparr>))))"

section \<open>Every request keeps the store's invariant\<close>

lemma with_body_inv:
  "(\<And>fvs. store_inv H (snd (snd (k fvs)))) \<Longrightarrow> store_inv H st \<Longrightarrow> store_inv H (snd (snd (with_body ty req st k)))"
  by (auto simp: with_body_def bad_def split: sum.split)

lemma del_each_inv: "store_inv H st \<Longrightarrow> store_inv H (snd (snd (del_each H ks n recs st)))"
proof (induction ks arbitrary: n recs st)
  case (Cons k ks)
  then show ?case using store_invs(3) [of H st k] by (auto split: prod.split)
qed simp

lemmas http_defs = HandleHealthz_def HandleRateLimitCheck_def HandleQuotaReserve_def HandleQuotaCommit_def
  HandleQuotaRollback_def HandleQuotaInit_def HandleIdempotencyBegin_def HandleIdempotencyComplete_def
  HandleIdempotencyFail_def HandleKvSet_def HandleKvGet_def HandleKvDel_def HandleKvExists_def HandleKvType_def
  HandleKvExpire_def HandleKvTtl_def

lemma Handle_inv:
  assumes "store_inv (std_hash env) st"
  shows "store_inv (std_hash env) (snd (snd (Handle env now_sec req st)))"
  using assms unfolding Handle_def http_defs Let_def
  by (simp add: with_body_inv bad_def case_prod_beta store_invs del_each_inv exists_loop_inv split: sum.split option.split)

section \<open>The key in a query\<close>

text \<open>The parameters of a query string, and what the key should be: the decoded value of the first
  parameter called \<open>key\<close>.\<close>

fun params :: "string \<Rightarrow> string list" where
  "params [] = [[]]"
| "params (c # s) =
     (if c = CHR 0x26 then [] # params s
      else case params s of [] \<Rightarrow> [[c]] | p # ps \<Rightarrow> (c # p) # ps)"

definition key_param :: "string list \<Rightarrow> string" where
  "key_param ps = (case find (prefix ''key='') ps of None \<Rightarrow> [] | Some p \<Rightarrow> UrlDecode (drop 4 p))"

text \<open>The same by one pass; the flag tells whether a parameter starts here.\<close>

fun key_scan :: "bool \<Rightarrow> string \<Rightarrow> string" where
  "key_scan start [] = []"
| "key_scan start (c # s) =
     (if start \<and> prefix ''key='' (c # s) then UrlDecode (takeWhile (\<lambda>x. x \<noteq> CHR 0x26) (drop 4 (c # s)))
      else key_scan (c = CHR 0x26) s)"

lemma params_hd: "params s \<noteq> [] \<and> hd (params s) = takeWhile (\<lambda>x. x \<noteq> CHR 0x26) s"
  by (induction s) (auto split: list.split)

lemma params_amp: "params (CHR 0x26 # s) = [] # params s"
  by simp

lemma params_Cons: "c \<noteq> CHR 0x26 \<Longrightarrow> params (c # s) = (c # hd (params s)) # tl (params s)"
  using params_hd [of s] by (cases "params s") auto

lemma prefix_takeWhile: "(\<And>c. c \<in> set p \<Longrightarrow> P c) \<Longrightarrow> prefix p (takeWhile P s) \<longleftrightarrow> prefix p s"
proof (induction p arbitrary: s)
  case (Cons c p)
  then show ?case by (cases s) auto
qed simp

lemma key_hd: "prefix ''key='' (hd (params s)) \<longleftrightarrow> prefix ''key='' s"
  using params_hd [of s] prefix_takeWhile [of "''key=''" "\<lambda>x. x \<noteq> CHR 0x26" s] by auto

lemma takeWhile_none: "c \<notin> set xs \<Longrightarrow> takeWhile (\<lambda>x. x \<noteq> c) xs = xs"
  by (induction xs) auto

lemma key_scan_params:
  "key_scan True s = key_param (params s)" "key_scan False s = key_param (tl (params s))"
proof (induction s)
  case (Cons c s)
  { case 1
    show ?case
    proof (cases "prefix ''key='' (c # s)")
      case True
      obtain p ps where p: "params (c # s) = p # ps" using params_hd [of "c # s"] by (cases "params (c # s)") auto
      then have "prefix ''key='' p" "p = takeWhile (\<lambda>x. x \<noteq> CHR 0x26) (c # s)"
        using key_hd [of "c # s"] params_hd [of "c # s"] True by simp_all
      moreover have "takeWhile (\<lambda>x. x \<noteq> CHR 0x26) (drop 4 (c # s)) = drop 4 (takeWhile (\<lambda>x. x \<noteq> CHR 0x26) (c # s))"
        using True by (auto simp: prefix_def)
      ultimately show ?thesis using True p by (simp add: key_param_def del: params.simps takeWhile.simps drop_Cons_numeral)
    next
      case False
      then have "\<not> prefix ''key='' (hd (params (c # s)))" using key_hd by blast
      then show ?thesis using False Cons.IH
        by (cases "c = CHR 0x26") (auto simp: key_param_def params_amp params_Cons simp del: params.simps(2))
    qed
  next
    case 2
    then show ?case using Cons.IH by (cases "c = CHR 0x26") (simp_all add: params_amp params_Cons del: params.simps)
  }
qed (simp_all add: key_param_def)

lemma str_find_here: "prefix pat (drop from s) \<Longrightarrow> from < length s \<Longrightarrow> str_find pat s from = Some from"
  by (cases "drop from s") (auto simp: str_find_def)

lemma str_find_later:
  assumes "\<not> prefix pat (drop from s)" "from < length s"
  shows "str_find pat s from = str_find pat s (Suc from)"
  using assms by (cases "drop from s") (auto simp: str_find_def drop_Suc tl_drop [symmetric])

lemma extract_loop_scan:
  "from \<le> length q \<Longrightarrow> extract_loop q from = key_scan (from = 0 \<or> q ! (from - 1) = CHR 0x26) (drop from q)"
proof (induction "length q - from" arbitrary: "from")
  case 0
  then show ?case by (simp add: extract_loop.simps str_find_def)
next
  case (Suc n)
  have lt: "from < length q" using Suc(2) by simp
  then have d: "drop from q = q ! from # drop (Suc from) q" by (simp add: Cons_nth_drop_Suc)
  have IH: "extract_loop q (Suc from) = key_scan (q ! from = CHR 0x26) (drop (Suc from) q)"
    using Suc(1) [of "Suc from"] Suc(2) lt by simp
  show ?case
  proof (cases "prefix ''key='' (drop from q)")
    case True
    have v: "from + 4 \<le> length q" using prefix_length_le [OF True] lt by simp
    have "(case str_find [CHR 0x26] q (from + 4) of None \<Rightarrow> drop (from + 4) q
        | Some e \<Rightarrow> take (e - (from + 4)) (drop (from + 4) q)) = takeWhile (\<lambda>x. x \<noteq> CHR 0x26) (drop (from + 4) q)"
      using v by (auto simp: str_find_def find_from_char takeWhile_eq_take [symmetric] takeWhile_none)
    then have "(case str_find [CHR 0x26] q (from + 4) of None \<Rightarrow> UrlDecode (drop (from + 4) q)
        | Some e \<Rightarrow> UrlDecode (take (e - (from + 4)) (drop (from + 4) q)))
        = UrlDecode (takeWhile (\<lambda>x. x \<noteq> CHR 0x26) (drop (from + 4) q))"
      by (auto split: option.splits)
    then show ?thesis
      using True IH str_find_here [OF True lt] d
      by (subst extract_loop.simps) (auto simp: Let_def add.commute)
  next
    case False
    have "extract_loop q from = extract_loop q (Suc from)"
      using str_find_later [OF False lt] by (simp add: extract_loop.simps [of q "from"] extract_loop.simps [of q "Suc from"])
    then show ?thesis using False IH d by auto
  qed
qed

lemma ExtractKeyFromQuery_params: "ExtractKeyFromQuery q = key_param (params q)"
  using extract_loop_scan [of 0 q] key_scan_params(1) [of q] by (simp add: ExtractKeyFromQuery_def)

text \<open>\<open>encodes t s\<close>: \<open>t\<close> is a percent-encoding of \<open>s\<close>, with any choice of the bytes to escape among those
  that need not be.\<close>

inductive encodes :: "string \<Rightarrow> string \<Rightarrow> bool" where
  encodes_Nil: "encodes [] []"
| encodes_plain: "encodes t s \<Longrightarrow> c \<notin> {CHR 0x25, CHR 0x2B, CHR 0x26} \<Longrightarrow> encodes (c # t) (c # s)"
| encodes_space: "encodes t s \<Longrightarrow> encodes (CHR 0x2B # t) (CHR 0x20 # s)"
| encodes_escape: "encodes t s \<Longrightarrow> hex_val h = Some (byte_val c div 16) \<Longrightarrow> hex_val l = Some (byte_val c mod 16) \<Longrightarrow>
    encodes (CHR 0x25 # h # l # t) (c # s)"

lemma hex_val_not_amp: "hex_val c = Some d \<Longrightarrow> c \<noteq> CHR 0x26"
  by (auto simp: hex_val_def byte_val_def)

lemma join_nibbles:
  assumes "h < 16" "l < 16"
  shows "push_bit 4 h OR l = h * 16 + (l::nat)"
proof -
  have "list_all (\<lambda>h. list_all (\<lambda>l. push_bit 4 h OR l = h * 16 + l) [0..<16]) [0..<(16::nat)]" by code_simp
  then show ?thesis using assms by (simp add: list_all_iff)
qed

lemma byte_nibbles: "push_bit 4 (byte_val c div 16) OR (byte_val c mod 16) = byte_val c"
proof -
  have "byte_val c div 16 < 16" using byte_val_less [of c] by linarith
  then show ?thesis by (subst join_nibbles) auto
qed

lemma UrlDecode_encodes: "encodes t s \<Longrightarrow> UrlDecode t = s \<and> CHR 0x26 \<notin> set t"
proof (induction rule: encodes.induct)
  case (encodes_escape t s h c l)
  then show ?case using hex_val_not_amp [of h] hex_val_not_amp [of l] byte_nibbles [of c] by (auto simp: byte_val_def)
qed auto

section \<open>Calls over HTTP\<close>

text \<open>\<open>http_asks c req\<close>: the request asks for the call \<open>c\<close> of the binary protocol. Only the method, the path
  and the body or the query matter.\<close>

definition posts :: "string \<Rightarrow> (string \<times> jval) list \<Rightarrow> HttpRequest \<Rightarrow> bool" where
  "posts path fvs req \<longleftrightarrow> rq_method req = ''POST'' \<and> rq_path req = path \<and> rq_body req = print_object fvs"

definition gets :: "string \<Rightarrow> string \<Rightarrow> HttpRequest \<Rightarrow> bool" where
  "gets path key req \<longleftrightarrow> rq_method req = ''GET'' \<and> rq_path req = path \<and> ExtractKeyFromQuery (rq_query req) = key"

fun condition_name :: "SetCondition \<Rightarrow> string" where
  "condition_name Set_Always = ''always''"
| "condition_name Set_IfAbsent = ''nx''"
| "condition_name Set_IfPresent = ''xx''"

definition http_asks :: "bin_call \<Rightarrow> HttpRequest \<Rightarrow> bool" where
  "http_asks c req =
     (case c of
        B_Get k \<Rightarrow> k \<noteq> [] \<and> gets ''/v1/kv/get'' k req
      | B_Type k \<Rightarrow> k \<noteq> [] \<and> gets ''/v1/kv/type'' k req
      | B_Set k v cond ttl \<Rightarrow> k \<noteq> [] \<and> posts ''/v1/kv/set''
          [(''key'', JStr k), (''value'', JStr v), (''ttl_ms'', JNum ttl), (''condition'', JStr (condition_name cond))] req
      | B_Del k \<Rightarrow> posts ''/v1/kv/del'' [(''key'', JStr k)] req
      | B_Exists k \<Rightarrow> posts ''/v1/kv/exists'' [(''key'', JStr k)] req
      | B_Expire k ttl \<Rightarrow> k \<noteq> [] \<and> posts ''/v1/kv/expire'' [(''key'', JStr k), (''ttl_ms'', JNum ttl)] req
      | B_RateLimit k limit w cost \<Rightarrow> k \<noteq> [] \<and> limit \<noteq> 0 \<and> w \<noteq> 0 \<and> posts ''/v1/rate-limit/check''
          [(''key'', JStr k), (''limit'', JNum limit), (''window_ms'', JNum w), (''cost'', JNum (ucast cost))] req
      | B_QuotaInit k n \<Rightarrow> k \<noteq> [] \<and> posts ''/v1/quota/init'' [(''key'', JStr k), (''quota'', JNum n)] req
      | B_Reserve k n ttl \<Rightarrow> k \<noteq> [] \<and> n \<noteq> 0 \<and> ttl \<noteq> 0 \<and> posts ''/v1/quota/reserve''
          [(''key'', JStr k), (''amount'', JNum n), (''ttl_ms'', JNum ttl)] req
      | B_Commit k r n \<Rightarrow> k \<noteq> [] \<and> r \<noteq> [] \<and> posts ''/v1/quota/commit''
          [(''key'', JStr k), (''reservation_id'', JStr r), (''actual_amount'', JNum n)] req
      | B_Rollback k r \<Rightarrow> k \<noteq> [] \<and> r \<noteq> [] \<and> posts ''/v1/quota/rollback''
          [(''key'', JStr k), (''reservation_id'', JStr r)] req
      | B_IdemBegin k h ttl tok \<Rightarrow> k \<noteq> [] \<and> h \<noteq> [] \<and> posts ''/v1/idempotency/begin''
          [(''key'', JStr k), (''request_hash'', JStr h), (''ttl_ms'', JNum ttl), (''owner_token'', JStr tok)] req
      | B_IdemComplete k tok code body \<Rightarrow> k \<noteq> [] \<and> tok \<noteq> [] \<and> posts ''/v1/idempotency/complete''
          [(''key'', JStr k), (''owner_token'', JStr tok), (''response_code'', JInt (scast code)), (''response_body'', JStr body)] req
      | B_IdemFail k tok m \<Rightarrow> k \<noteq> [] \<and> tok \<noteq> [] \<and> posts ''/v1/idempotency/fail''
          [(''key'', JStr k), (''owner_token'', JStr tok), (''error_message'', JStr m)] req
      | _ \<Rightarrow> False)"

text \<open>What the response says of the answer.\<close>

definition flag_body :: "bin_call \<Rightarrow> bool \<Rightarrow> string" where
  "flag_body c b =
     (case c of
        B_Del k \<Rightarrow> ''{'' @ json_key ''deleted'' @ to_dec (of_bool b) @ ''}''
      | B_Exists k \<Rightarrow> ''{'' @ json_key ''count'' @ to_dec (of_bool b) @ ''}''
      | _ \<Rightarrow> ''{'' @ json_key ''ok'' @ json_bool b @ ''}'')"

fun call_key :: "bin_call \<Rightarrow> string" where
  "call_key B_Ping = []"
| "call_key (B_Get k) = k"
| "call_key (B_Set k v c ttl) = k"
| "call_key (B_Del k) = k"
| "call_key (B_Exists k) = k"
| "call_key (B_Type k) = k"
| "call_key (B_Expire k ttl) = k"
| "call_key (B_Ttl k) = k"
| "call_key (B_IncrBy k d ttl) = k"
| "call_key (B_RateLimit k l w c) = k"
| "call_key (B_QuotaInit k n) = k"
| "call_key (B_QuotaGet k) = k"
| "call_key (B_Reserve k n ttl) = k"
| "call_key (B_Commit k r n) = k"
| "call_key (B_Rollback k r) = k"
| "call_key (B_IdemBegin k h ttl tok) = k"
| "call_key (B_IdemComplete k tok code b) = k"
| "call_key (B_IdemFail k tok m) = k"

text \<open>\<open>says status body resp\<close>: the response has no headers yet, and this status and body.\<close>

definition says :: "32 word \<Rightarrow> string \<Rightarrow> HttpResponse \<Rightarrow> bool" where
  "says st b resp \<longleftrightarrow> resp_status resp = st \<and> resp_body resp = b"

definition http_says :: "bin_call \<Rightarrow> bin_answer \<Rightarrow> HttpResponse \<Rightarrow> bool" where
  "http_says c a resp =
     (case a of
        A_Value None \<Rightarrow> says 404 (error_body ''KEY_NOT_FOUND'' ''key does not exist'') resp
      | A_Value (Some v) \<Rightarrow>
          says 200 (''{'' @ json_key ''key'' @ QuoteJson (call_key c) @ '','' @ json_key ''value'' @ QuoteJson v @ ''}'') resp
      | A_Stored b \<Rightarrow> says 200 (''{'' @ json_key ''ok'' @ ''true,'' @ json_key ''set'' @ json_bool b @ ''}'') resp
      | A_Flag b \<Rightarrow> says 200 (flag_body c b) resp
      | A_Type t \<Rightarrow>
          says 200 (''{'' @ json_key ''key'' @ QuoteJson (call_key c) @ '','' @ json_key ''type''
            @ json_raw (if t = DataType_String then ''string'' else ''none'') @ ''}'') resp
      | A_Done \<Rightarrow> resp_status resp = 200
      | A_Rate r \<Rightarrow> resp_status resp = (if allowed r then 200 else 429)
          \<and> map_of (resp_headers resp) ''X-RateLimit-Remaining'' = Some (to_string_u64 (rl_remaining r))
          \<and> (\<not> allowed r \<longrightarrow>
               map_of (resp_headers resp) ''Retry-After'' = Some (to_string_u64 ((retry_after_ms r + 999) div 1000)))
      | A_Reserve r \<Rightarrow>
          if \<not> rv_ok r then says 400 (error_body (rv_error_code r) (rv_error_message r)) resp
          else says (if reserved r then 200 else 429)
            (''{'' @ json_key ''reserved'' @ json_bool (reserved r) @ '','' @ json_key ''remaining'' @ to_string_u64 (rv_remaining r)
             @ '','' @ json_key ''reservation_id'' @ json_raw (if reserved r then reservation_id r else []) @ ''}'') resp
      | A_Commit r \<Rightarrow>
          if \<not> cm_ok r then says 400 (error_body (cm_error_code r) (cm_error_message r)) resp
          else says 200 (''{'' @ json_key ''committed'' @ ''true,'' @ json_key ''actual_amount'' @ to_string_u64 (actual_amount r)
                 @ '','' @ json_key ''refunded'' @ to_string_u64 (cm_refunded r)
                 @ '','' @ json_key ''remaining'' @ to_string_u64 (cm_remaining r) @ ''}'') resp
      | A_Rollback r \<Rightarrow>
          if \<not> rb_ok r then says 400 (error_body (rb_error_code r) (rb_error_message r)) resp
          else says 200 (''{'' @ json_key ''rolled_back'' @ ''true,'' @ json_key ''refunded'' @ to_string_u64 (rb_refunded r)
                 @ '','' @ json_key ''remaining'' @ to_string_u64 (rb_remaining r) @ ''}'') resp
      | A_Begin r \<Rightarrow>
          if ib_ok r then says 200 (begin_body r) resp
          else says (if ib_action r = Conflict then 409 else 400) (error_body (ib_error_code r) (ib_error_message r)) resp
      | A_Settled b \<Rightarrow> (resp_status resp = 200) = b
      | _ \<Rightarrow> False)"

text \<open>The records of a call over HTTP.\<close>

definition http_records :: "bin_call \<Rightarrow> bin_answer \<Rightarrow> (string \<times> string) list" where
  "http_records c a =
     (case c of
        B_Reserve k n ttl \<Rightarrow>
          (case a of A_Reserve r \<Rightarrow> if rv_ok r \<and> reserved r then [(''GK.RESERVE'', http_reserve_record k n ttl)] else []
           | _ \<Rightarrow> [])
      | B_Commit k r n \<Rightarrow> []
      | B_Rollback k r \<Rightarrow> []
      | B_IdemBegin k h ttl tok \<Rightarrow>
          (case a of
             A_Begin r \<Rightarrow> if ib_ok r \<and> ib_action r = Execute
                            then [(''GK.IDEM_BEGIN'', http_begin_record k h ttl (ib_owner_token r))] else []
           | _ \<Rightarrow> [])
      | B_IdemComplete k tok code body \<Rightarrow>
          if a = A_Settled True then [(''GK.IDEM_COMPLETE'', http_complete_record k tok code body)] else []
      | B_IdemFail k tok m \<Rightarrow> if a = A_Settled True then [(''GK.IDEM_FAIL'', http_fail_record k tok m)] else []
      | _ \<Rightarrow> (case bin_record c a of None \<Rightarrow> [] | Some r \<Rightarrow> [r]))"

lemma well_typed_simps [simp]:
  "well_typed ty []"
  "well_typed ty ((f, v) # fvs) \<longleftrightarrow> (case ty f of Inl e \<Rightarrow> False | Inr t \<Rightarrow> has_type v t) \<and> well_typed ty fvs"
  by (simp_all add: well_typed_def)

lemma print_object_not_Nil [simp]: "print_object fvs \<noteq> []"
  by (simp add: print_object_def)

lemma ucast_scast_code: "ucast (scast (c :: 32 word) :: i64) = c"
  by (rule bit_word_eqI) (auto simp: bit_simps)

lemma apfst_eq: "apfst f x = (a, st') \<longleftrightarrow> a = f (fst x) \<and> st' = snd x"
  by (cases x) auto

lemmas call_defs = posts_def gets_def with_body_def read_members_print read_object_print request_key_def request_keys_def
  collect_keys_def rate_field_def reserve_field_def commit_field_def rollback_field_def init_field_def begin_field_def
  complete_field_def fail_field_def kv_set_field_def keys_field_def expire_field_def named_condition_def
  set_rate_arg_def no_rate_args_def rate_key_def rate_response_def rate_headers_def SetHeader_def settle_error_def
  ucast_scast_code http_records_def http_says_def says_def flag_body_def http_reply_def json_bool_def
  Let_def apfst_eq case_prod_beta

text \<open>The call reaches its handler.\<close>

lemma Handle_routes:
  assumes "http_asks c req"
  shows "Handle env now_sec req st =
    (case c of
       B_Get k \<Rightarrow> HandleKvGet env req st
     | B_Type k \<Rightarrow> HandleKvType env req st
     | B_Set k v cond ttl \<Rightarrow> HandleKvSet env req st
     | B_Del k \<Rightarrow> HandleKvDel env req st
     | B_Exists k \<Rightarrow> HandleKvExists env req st
     | B_Expire k ttl \<Rightarrow> HandleKvExpire env req st
     | B_RateLimit k limit w cost \<Rightarrow> HandleRateLimitCheck env now_sec req st
     | B_QuotaInit k n \<Rightarrow> HandleQuotaInit env req st
     | B_Reserve k n ttl \<Rightarrow> HandleQuotaReserve env req st
     | B_Commit k r n \<Rightarrow> HandleQuotaCommit env req st
     | B_Rollback k r \<Rightarrow> HandleQuotaRollback env req st
     | B_IdemBegin k h ttl tok \<Rightarrow> HandleIdempotencyBegin env req st
     | B_IdemComplete k tok code body \<Rightarrow> HandleIdempotencyComplete env req st
     | B_IdemFail k tok m \<Rightarrow> HandleIdempotencyFail env req st
     | _ \<Rightarrow> HandleHealthz req st)"
  using assms by (cases c) (simp_all add: http_asks_def posts_def gets_def Handle_def)

lemma Handle_call:
  assumes "http_asks c req" "bin_exec env c st = (a, st')"
  shows "\<exists>resp. Handle env now_sec req st = (resp, http_records c a, st') \<and> http_says c a resp"
proof (cases c)
  case (B_Get k)
  then show ?thesis using assms(2) assms(1)
    by (simp add: Handle_routes [OF assms(1)] http_asks_def HandleKvGet_def call_defs split: option.split)
next
  case (B_Set k v cond ttl)
  then show ?thesis using assms(2) assms(1)
    by (cases cond) (simp_all add: Handle_routes [OF assms(1)] http_asks_def HandleKvSet_def call_defs)
qed (use assms(2) assms(1) in \<open>simp_all add: Handle_routes [OF assms(1)] http_asks_def http_defs call_defs\<close>)

lemma http_process_inv:
  "store_inv (std_hash env) (p_store p) \<Longrightarrow> store_inv (std_hash env) (p_store (snd (http_process env oss now_sec req p)))"
  using Handle_inv [of env "p_store p" now_sec req] by (auto simp: http_process_def split: option.splits prod.splits)

text \<open>A call that leaves the same record in both protocols leaves the server in the same state.\<close>

lemma http_process_call:
  assumes "http_asks c req"
    and "http_records c (fst (bin_exec env c (p_store p)))
      = (case bin_record c (fst (bin_exec env c (p_store p))) of None \<Rightarrow> [] | Some r \<Rightarrow> [r])"
  shows "snd (http_process env [os] now_sec req p)
    = p\<lparr>p_store := snd (bin_exec env c (p_store p)),
        p_aof := append_record os (bin_record c (fst (bin_exec env c (p_store p)))) (p_aof p)\<rparr>"
proof -
  obtain a st' where x: "bin_exec env c (p_store p) = (a, st')" by fastforce
  obtain resp where "Handle env now_sec req (p_store p) = (resp, http_records c a, st')"
    using Handle_call [OF assms(1) x] by blast
  then show ?thesis
    using assms(2) by (auto simp: x http_process_def append_record_def case_prod_beta split: option.split)
qed

text \<open>C9: The HTTP service and the binary protocol are two front ends of one store. A request that asks for
  a call over HTTP runs exactly the store operation the binary protocol runs for it, with the arguments
  that were printed into its body or percent-encoded into its query; the store ends in the same state, the
  status and the body state that operation's result, and the records to be logged are those of the call.\<close>

theorem http_runs_call:
  assumes "http_asks c req" and "bin_exec env c st = (a, st')"
  shows "\<exists>resp. Handle env now_sec req st = (resp, http_records c a, st') \<and> http_says c a resp"
  using assms by (rule Handle_call)

definition example_post :: "string \<Rightarrow> (string \<times> jval) list \<Rightarrow> HttpRequest" where
  "example_post path fvs =
     \<lparr>rq_method = ''POST'', rq_uri = path, rq_path = path, rq_query = [], rq_version = ''HTTP/1.1'', rq_headers = [],
      rq_body = print_object fvs\<rparr>"

theorem http_runs_call_witness:
  "\<exists>resp. Handle (example_env 5) 0 (example_post ''/v1/kv/del'' [(''key'', JStr ''a'')]) MemoryStore_default
     = (resp, [], MemoryStore_default) \<and> resp_status resp = 200"
proof -
  have x: "bin_exec (example_env 5) (B_Del ''a'') MemoryStore_default = (A_Flag False, MemoryStore_default)"
    by code_simp
  have "http_asks (B_Del ''a'') (example_post ''/v1/kv/del'' [(''key'', JStr ''a'')])"
    by (simp add: http_asks_def posts_def example_post_def)
  from http_runs_call [OF this x, of 0] show ?thesis
    by (auto simp: http_records_def http_says_def says_def)
qed

text \<open>The key of a request is found in its query string: if the first parameter called \<open>key\<close> carries a
  percent-encoding of a key, whatever parameters stand around it and whichever bytes are escaped, the
  service works on exactly that key.\<close>

theorem query_key_decoded:
  assumes "params q = before @ (''key='' @ t) # after" and "list_all (\<lambda>p. \<not> prefix ''key='' p) before"
    and "encodes t key"
  shows "ExtractKeyFromQuery q = key"
proof -
  have "find (prefix ''key='') (before @ (''key='' @ t) # after) = Some (''key='' @ t)"
    using assms(2) by (induction before) auto
  then show ?thesis
    using UrlDecode_encodes [OF assms(3)] by (simp add: ExtractKeyFromQuery_params assms(1) key_param_def)
qed

theorem query_key_decoded_witness: "ExtractKeyFromQuery ''monkey=1&key=a%2Bb+c'' = ''a+b c''"
proof -
  have "encodes ''a%2Bb+c'' ''a+b c''"
    by (intro encodes_plain encodes_escape encodes_space encodes_Nil) (simp_all add: hex_val_def byte_val_def)
  from query_key_decoded [OF _ _ this, of _ "[''monkey=1'']" "[]"] show ?thesis by simp
qed

text \<open>The message of a refused request is not quoted: a field name with a quotation mark in it makes the
  response something no JSON reader accepts.\<close>

definition quoted_field_request :: HttpRequest where
  "quoted_field_request = example_post ''/v1/kv/set'' [([CHR ''a'', CHR 0x22, CHR ''b''], JStr ''x'')]"

lemma error_reply_not_json:
  "\<exists>resp. Handle env now_sec quoted_field_request st = (resp, [], st) \<and> resp_status resp = 400
     \<and> read_object (\<lambda>_. Inr TStr) (resp_body resp) = Inl (''expected '' @ [CHR 0x27, CHR 0x2C, CHR 0x27])"
proof -
  define what where "what = ''unsupported field: '' @ [CHR ''a'', CHR 0x22, CHR ''b'']"
  have r: "read_members kv_set_field (rq_body quoted_field_request) = Inl what" "rq_body quoted_field_request \<noteq> []"
    "read_object (\<lambda>_. Inr TStr) (resp_body (BadRequest (''invalid JSON: '' @ what))) = Inl (''expected '' @ [CHR 0x27, CHR 0x2C, CHR 0x27])"
    unfolding what_def by code_simp+
  have "Handle env now_sec quoted_field_request st = HandleKvSet env quoted_field_request st"
    by (simp add: Handle_def quoted_field_request_def example_post_def Let_def)
  then have "Handle env now_sec quoted_field_request st = (BadRequest (''invalid JSON: '' @ what), [], st)"
    using r(1,2) by (simp add: HandleKvSet_def with_body_def bad_def)
  then show ?thesis using r(3) by (simp add: BadRequest_def http_reply_def)
qed

end
