(* ===== verification/GK_Server.thy ===== *)
theory GK_Server
  imports GK_Http_Service
begin

text \<open>
  The server as \<open>src/server_main.cpp\<close> puts it together: the store is rebuilt from the append-only file
  by the dispatcher, the file is opened for appending, and the requests of the network go to the binary
  processor or to the HTTP service, which share the store and the writer. A life of the server is a start and the requests it
  serves until it stops; the next life starts from the file the previous one left.

  Shown: over any number of lives no key is lost; and what a torn record at the end of the file does
  to the first record after it.
\<close>

section \<open>Start and service\<close>

text \<open>\<open>None\<close> for a file that does not exist yet. The file can be opened.\<close>

definition server_start :: "(nat \<Rightarrow> CallEnv) \<Rightarrow> string option \<Rightarrow> FsyncPolicy \<Rightarrow> Processor option" where
  "server_start envs file policy =
     map_option (\<lambda>dispatcher.
       let (load_res, d) = AofLoader_Load envs (case file of None \<Rightarrow> Aof_missing | Some txt \<Rightarrow> Aof_text txt) dispatcher;
           writer = new_AofWriter True (case file of None \<Rightarrow> [] | Some txt \<Rightarrow> txt) policy;
           d = SetAofWriter (Some writer) d
       in \<lparr>p_store = d_store d, p_aof = d_aof d\<rparr>) (new_Dispatcher MemoryStore_default)"

text \<open>A request is a payload of the binary protocol or an HTTP request; the latter comes with the wall clock.\<close>

datatype wire_request = Bin string | Http u64 HttpRequest

fun serve :: "CallEnv \<Rightarrow> write_outcome list \<Rightarrow> wire_request \<Rightarrow> Processor \<Rightarrow> Processor" where
  "serve env os (Bin payload) p = snd (Process env os payload p)"
| "serve env os (Http now_sec req) p = snd (http_process env [os] now_sec req p)"

fun process_all :: "(CallEnv \<times> write_outcome list \<times> wire_request) list \<Rightarrow> Processor \<Rightarrow> Processor" where
  "process_all [] p = p"
| "process_all ((env, os, r) # xs) p = process_all xs (serve env os r p)"

text \<open>The timer of the server: flush the file, then remove up to 50 expired keys per round.\<close>

definition timer_tick :: "hash_fn \<Rightarrow> u64 \<Rightarrow> Processor \<Rightarrow> nat \<times> Processor" where
  "timer_tick H now p =
     (case MemoryStore_PurgeExpired H now 50 (p_store p) of
        (n, st') \<Rightarrow> (n, p\<lparr>p_store := st', p_aof := map_option AofWriter_Fsync (p_aof p)\<rparr>))"

definition server_stop :: "Processor \<Rightarrow> Processor" where
  "server_stop p = p\<lparr>p_aof := map_option AofWriter_Close (p_aof p)\<rparr>"

section \<open>Clients\<close>

fun bin_of :: "client_cmd \<Rightarrow> bin_call" where
  "bin_of (CSet k v) = B_Set k v Set_Always 0"
| "bin_of (CDel k) = B_Del k"
| "bin_of (CGet k) = B_Get k"

definition sendable_cmd :: "client_cmd \<Rightarrow> bool" where
  "sendable_cmd c \<longleftrightarrow> call_fits (bin_of c) \<and> (case c of CSet k v \<Rightarrow> k \<noteq> [] | _ \<Rightarrow> True)"

text \<open>\<open>asks r c\<close>: the client's command \<open>c\<close> is sent as \<open>r\<close>, over either protocol.\<close>

fun asks :: "wire_request \<Rightarrow> client_cmd \<Rightarrow> bool" where
  "asks (Bin payload) c \<longleftrightarrow> payload = encode_call (bin_of c) \<and> sendable_cmd c"
| "asks (Http now_sec req) c \<longleftrightarrow> http_asks (bin_of c) req"

type_synonym step = "CallEnv \<times> write_outcome list \<times> wire_request \<times> client_cmd"

definition requests :: "step list \<Rightarrow> (CallEnv \<times> write_outcome list \<times> wire_request) list" where
  "requests xs = map (\<lambda>(env, os, r, c). (env, os, r)) xs"

definition cmds :: "step list \<Rightarrow> client_cmd list" where
  "cmds xs = map (\<lambda>(env, os, r, c). c) xs"

lemma set_record_body: "set_record k v Always 0 = set_body k v"
proof -
  have "QuoteJson ''key'' = [CHR 0x22] @ ''key'' @ [CHR 0x22]" "QuoteJson ''value'' = [CHR 0x22] @ ''value'' @ [CHR 0x22]"
    by code_simp+
  then show ?thesis by (simp add: set_record_def set_body_def print_body_def json_key_def)
qed

lemma del_record_body: "del_record k = key_body k"
proof -
  have "QuoteJson ''key'' = [CHR 0x22] @ ''key'' @ [CHR 0x22]" by code_simp
  then show ?thesis by (simp add: del_record_def key_body_def print_body_def json_key_def)
qed

lemma Del_absent:
  assumes "kv_refines H now st (plain m)" and "\<not> fst (MemoryStore_Del H k st)"
  shows "m k = None"
proof -
  have "entry_at H st k = None" using assms Del_refines [OF assms(1), of k] by simp
  then have "unexpired now (contents H st) k = None"
    by (simp add: contents_def unexpired_def cell.visible_def)
  then show ?thesis using assms(1) by (simp add: kv_refines_def unexpired_plain) (simp add: plain_def)
qed

lemma client_text_Cons: "client_text (c # cs) = client_text [c] @ client_text cs"
  by (simp add: client_text_def client_records_def)

lemma client_text_append: "client_text (cs @ cs') = client_text cs @ client_text cs'"
  by (simp add: client_text_def client_records_def)

lemma append_client:
  assumes "append_succeeds os c"
  shows "write_loop os (aof_line (req_op (request_of c)) (body_json (request_of c)))
       = (Some True, aof_line (req_op (request_of c)) (body_json (request_of c)))"
  using assms write_loop_prefix [of os "aof_line (req_op (request_of c)) (body_json (request_of c))"]
  unfolding append_succeeds_def by (metis prod.collapse)

lemma append_record_client:
  assumes "aw_open w" "append_succeeds os c" "logged c"
  shows "\<exists>w'. append_record os (Some (req_op (request_of c), body_json (request_of c))) (Some w) = Some w'
    \<and> aw_open w' \<and> aw_data w' = aw_data w @ client_text [c]"
proof -
  let ?op = "req_op (request_of c)" and ?body = "body_json (request_of c)"
  show ?thesis
    using append_client [OF assms(2)] assms(1,3) op_of_client(1) [of c]
    by (simp add: append_record_def AofWriter_Append_def Let_def client_text_def client_records_def)
qed

text \<open>Either front end runs the call and appends its record.\<close>

lemma serve_call:
  assumes "asks r c"
  shows "serve env os r p
      = p\<lparr>p_store := snd (bin_exec env (bin_of c) (p_store p)),
          p_aof := append_record os (bin_record (bin_of c) (fst (bin_exec env (bin_of c) (p_store p)))) (p_aof p)\<rparr>"
proof (cases r)
  case (Bin payload)
  then show ?thesis using assms Process_call [of "bin_of c" env os p] by (simp add: sendable_cmd_def)
next
  case (Http now_sec req)
  have "http_records (bin_of c) a = (case bin_record (bin_of c) a of None \<Rightarrow> [] | Some r \<Rightarrow> [r])" for a
    by (cases c) (simp_all add: http_records_def)
  then show ?thesis using assms Http http_process_call [of "bin_of c" req env p os now_sec] by simp
qed

lemma asks_key: "asks r (CSet k v) \<Longrightarrow> k \<noteq> []"
  by (cases r) (simp_all add: sendable_cmd_def http_asks_def)

lemma serve_client_step:
  assumes ref: "kv_refines (std_hash env) (clock env 0) (p_store p) (plain m)"
    and p: "p_aof p = Some w" "aw_open w" and c: "asks r c" "logged c \<Longrightarrow> append_succeeds os c"
  shows "\<exists>cs w'. fold apply_client cs m = apply_client c m \<and> aw_open w' \<and> aw_data w' = aw_data w @ client_text cs
    \<and> p_aof (serve env os r p) = Some w'
    \<and> kv_refines (std_hash env) (clock env 0) (p_store (serve env os r p)) (plain (apply_client c m))"
proof -
  let ?st = "p_store p" and ?x = "bin_exec env (bin_of c) (p_store p)"
  note pr = serve_call [OF c(1), of env os p]
  have st: "kv_refines (std_hash env) (clock env 0) (snd ?x) (plain (apply_client c m))"
    and rec: "bin_record (bin_of c) (fst ?x) =
      (if logged c \<and> (\<forall>k. c = CDel k \<longrightarrow> fst (MemoryStore_Del (std_hash env) k ?st))
       then Some (req_op (request_of c), body_json (request_of c)) else None)"
    using asks_key [of r] c(1) Set_refines [OF ref, where c = Always and ttl = 0] Del_refines [OF ref] Get_refines [OF ref]
    by (cases c; simp add: spec_set_def plain_simps set_record_body del_record_body)+
  have none: "apply_client c m = m" if "\<not> (logged c \<and> (\<forall>k. c = CDel k \<longrightarrow> fst (MemoryStore_Del (std_hash env) k ?st)))"
    using that Del_absent [OF ref] apply_not_logged [of c m] by (cases c) (auto simp: fun_eq_iff)
  show ?thesis
  proof (cases "logged c \<and> (\<forall>k. c = CDel k \<longrightarrow> fst (MemoryStore_Del (std_hash env) k ?st))")
    case True
    then obtain w' where "append_record os (bin_record (bin_of c) (fst ?x)) (Some w) = Some w'" "aw_open w'"
      "aw_data w' = aw_data w @ client_text [c]"
      using append_record_client [OF p(2) c(2)] rec by auto
    then show ?thesis using pr p(1) st by (intro exI [of _ "[c]"] exI [of _ w']) simp
  next
    case False
    then have "bin_record (bin_of c) (fst ?x) = None" "apply_client c m = m" using rec none by argo+
    then show ?thesis using pr p st
      by (intro exI [of _ "[]"] exI [of _ w]) (simp add: append_record_def client_text_def client_records_def)
  qed
qed

section \<open>Lives\<close>

definition step_time :: "step \<Rightarrow> u64" where
  "step_time x = clock (fst x) 0"

lemma step_time_simp [simp]: "step_time (env, os, r, c) = clock env 0"
  by (simp add: step_time_def)

definition good_step :: "hash_fn \<Rightarrow> step \<Rightarrow> bool" where
  "good_step H = (\<lambda>(env, os, r, c). std_hash env = H \<and> asks r c \<and> (logged c \<longrightarrow> append_succeeds os c))"

lemma serve_client:
  assumes "p_aof p = Some w" "aw_open w" "kv_refines H t (p_store p) (plain m)"
    and "list_all (good_step H) xs" and "sorted (t # map step_time xs)"
  shows "\<exists>cs w'. fold apply_client cs m = fold apply_client (cmds xs) m \<and> aw_data w' = aw_data w @ client_text cs
    \<and> p_aof (process_all (requests xs) p) = Some w'
    \<and> kv_refines H (last (t # map step_time xs)) (p_store (process_all (requests xs) p))
        (plain (fold apply_client (cmds xs) m))"
  using assms
proof (induction xs arbitrary: p w t m)
  case Nil
  then show ?case by (intro exI [of _ "[]"] exI [of _ w]) (simp add: cmds_def requests_def client_text_def client_records_def)
next
  case (Cons x xs)
  obtain env os r c where x: "x = (env, os, r, c)" by (cases x)
  have H: "std_hash env = H" and c: "asks r c" "logged c \<Longrightarrow> append_succeeds os c" and t: "t \<le> clock env 0"
    using Cons.prems(4,5) x by (auto simp: good_step_def)
  let ?p = "serve env os r p"
  obtain cs w1 where w1: "fold apply_client cs m = apply_client c m" "aw_open w1" "aw_data w1 = aw_data w @ client_text cs"
    "p_aof ?p = Some w1" "kv_refines H (clock env 0) (p_store ?p) (plain (apply_client c m))"
    using serve_client_step [of env p m w r c os] kv_refines_later [OF Cons.prems(3) t] Cons.prems(1,2) c H by auto
  obtain cs' w' where w': "fold apply_client cs' (apply_client c m) = fold apply_client (cmds xs) (apply_client c m)"
    "aw_data w' = aw_data w1 @ client_text cs'" "p_aof (process_all (requests xs) ?p) = Some w'"
    "kv_refines H (last (clock env 0 # map step_time xs)) (p_store (process_all (requests xs) ?p))
       (plain (fold apply_client (cmds xs) (apply_client c m)))"
    using Cons.IH [OF w1(4,2,5)] Cons.prems(4,5) x by auto
  show ?case
    using w1 w' x
    by (intro exI [of _ "cs @ cs'"] exI [of _ w'])
      (simp add: cmds_def requests_def client_text_append)
qed

record life =
  boot :: "nat \<Rightarrow> CallEnv"
  policy :: FsyncPolicy
  steps :: "step list"

fun server_lives :: "life list \<Rightarrow> string option \<Rightarrow> string option" where
  "server_lives [] file = file"
| "server_lives (l # ls) file =
     (case server_start (boot l) file (policy l) of
        None \<Rightarrow> None
      | Some p \<Rightarrow>
          server_lives ls (map_option aw_data (p_aof (server_stop (process_all (requests (steps l)) p)))))"

definition good_boot :: "hash_fn \<Rightarrow> u64 \<Rightarrow> (nat \<Rightarrow> CallEnv) \<Rightarrow> bool" where
  "good_boot H t envs \<longleftrightarrow>
     (\<forall>j. std_hash (envs j) = H \<and> clock (envs j) 0 \<le> t) \<and> mono (\<lambda>j. clock (envs j) 0)"

definition good_life :: "life \<Rightarrow> bool" where
  "good_life l \<longleftrightarrow> (\<exists>H t. good_boot H t (boot l) \<and> sorted (t # map step_time (steps l))
     \<and> list_all (good_step H) (steps l))"

lemma server_start_client:
  assumes "good_boot H t envs" and "(case f of None \<Rightarrow> [] | Some txt \<Rightarrow> txt) = client_text cs"
  shows "\<exists>p w. server_start envs f pol = Some p \<and> p_aof p = Some w \<and> aw_open w \<and> aw_data w = client_text cs
    \<and> kv_refines H t (p_store p) (plain (fold apply_client cs Map.empty))"
proof -
  obtain d0 where d0: "new_Dispatcher MemoryStore_default = Some d0" "d_commands d0 = registrations" "d_aof d0 = None"
    "d_store d0 = MemoryStore_default"
    using new_Dispatcher_eq by fastforce
  have b: "\<forall>j. std_hash (envs j) = H" "mono (\<lambda>j. clock (envs j) 0)" "\<forall>j. clock (envs j) 0 \<le> t"
    using assms(1) by (auto simp: good_boot_def)
  have "kv_refines H (clock (envs 0) 0) (d_store d0) (plain Map.empty)"
    by (simp add: d0 plain_simps kv_refines_default)
  from replay_lines [OF d0(2,3) this b, of cs 0 0]
  obtain d' where d': "load_lines envs 0 (getlines (client_text cs)) (0, 0, d0) = (length (client_records cs), 0, d')"
    "kv_refines H t (d_store d') (plain (fold apply_client cs Map.empty))"
    unfolding getlines_client by auto
  show ?thesis
  proof (cases f)
    case None
    then have "d' = d0" and "client_text cs = []" using assms(2) d'(1) by auto
    then show ?thesis using None d0 d'(2)
      by (simp add: server_start_def AofLoader_Load_def new_AofWriter_def SetAofWriter_def)
  next
    case (Some content)
    then show ?thesis using assms(2) d0 d'
      by (simp add: server_start_def AofLoader_Load_def new_AofWriter_def SetAofWriter_def)
  qed
qed

lemma server_lives_client:
  assumes "list_all good_life ls" and "(case f of None \<Rightarrow> [] | Some txt \<Rightarrow> txt) = client_text cs"
  shows "\<exists>cs'. (case server_lives ls f of None \<Rightarrow> [] | Some txt \<Rightarrow> txt) = client_text cs'
    \<and> fold apply_client cs' Map.empty
      = fold apply_client (concat (map (\<lambda>l. cmds (steps l)) ls)) (fold apply_client cs Map.empty)"
  using assms
proof (induction ls arbitrary: f cs)
  case Nil
  then show ?case by auto
next
  case (Cons l ls)
  obtain H t where l: "good_boot H t (boot l)" "sorted (t # map step_time (steps l))" "list_all (good_step H) (steps l)"
    using Cons.prems(1) by (auto simp: good_life_def)
  let ?m = "fold apply_client cs Map.empty"
  obtain p w where p: "server_start (boot l) f (policy l) = Some p" "p_aof p = Some w" "aw_open w"
    "aw_data w = client_text cs" "kv_refines H t (p_store p) (plain ?m)"
    using server_start_client [OF l(1) Cons.prems(2)] by blast
  obtain cs1 w1 where w1: "fold apply_client cs1 ?m = fold apply_client (cmds (steps l)) ?m"
    "aw_data w1 = client_text (cs @ cs1)" "p_aof (process_all (requests (steps l)) p) = Some w1"
    using serve_client [OF p(2,3,5) l(3,2)] p(4) by (auto simp: client_text_append)
  have "server_lives (l # ls) f = server_lives ls (Some (client_text (cs @ cs1)))"
    using p(1) w1(2,3) by (simp add: server_stop_def AofWriter_Close_def)
  then show ?case
    using Cons.IH [of "Some (client_text (cs @ cs1))" "cs @ cs1"] Cons.prems(1) w1(1) by simp
qed

lemma Process_get:
  assumes "kv_refines (std_hash env) (clock env 0) (p_store p) (plain m)" and "short k"
  shows "fst (Process env os (EncodeGet k) p) = Replied (encode_answer (A_Value (m k)))"
  using Process_call [of "B_Get k" env os p] Get_plain [OF assms(1), of k] assms(2) by (simp add: append_dies_def)


definition example_life :: life where
  "example_life = \<lparr>boot = \<lambda>_. example_env 3, policy = Policy_Always,
     steps = [(example_env 5, [Written 100], Http 0 (example_post ''/v1/kv/set'' [(''key'', JStr ''a''), (''value'', JStr ''1''),
                 (''ttl_ms'', JNum 0), (''condition'', JStr ''always'')]), CSet ''a'' ''1''),
              (example_env 6, [], Bin (EncodeGet ''a''), CGet ''a'')]\<rparr>"

lemma example_life_good: "good_life example_life"
  unfolding good_life_def
  by (rule exI [of _ length], rule exI [of _ 3])
    (simp add: example_life_def good_boot_def monoI good_step_def sendable_cmd_def short_def example_appends
        http_asks_def posts_def example_post_def)


section \<open>A torn record at the end of the file\<close>

text \<open>A crash left the two letters \<open>SE\<close>, the start of a record, at the end of the file.\<close>

lemma getlines_SE: "getlines ''SE'' = [''SE'']"
  by code_simp

lemma getlines_glued:
  "getlines (''SE'' @ aof_line (req_op (request_of (CSet k v))) (body_json (request_of (CSet k v)))) = [''SESET '' @ set_body k v]"
proof -
  have "CHR 0x0A \<notin> set (''SESET '' @ set_body k v)" using body_no_newline [of "CSet k v"] by simp
  from getlines_line [OF this, of "[]"] show ?thesis by (simp add: aof_line_def)
qed

lemma load_glued:
  assumes "d_commands d = registrations" "d_aof d = None"
  shows "snd (snd (load_line env os (''SESET '' @ set_body k v) (r, s, d))) = d"
proof -
  have "parse_line (''SESET'' @ CHR 0x20 # set_body k v) = Aof_command ''SESET'' (set_body k v)"
    by (rule parse_line_record) simp_all
  moreover have "map_of registrations (NormalizeName ''SESET'') = None"
    unfolding map_of_eq_None_iff set_map [symmetric] registration_names by code_simp
  ultimately show ?thesis using assms by (simp add: load_line_def Dispatch_def)
qed

lemma start_skipped:
  assumes "getlines txt = [l]" "\<And>env d. d_commands d = registrations \<Longrightarrow> d_aof d = None \<Longrightarrow> snd (snd (load_line env [] l (0, 0, d))) = d"
  shows "server_start envs (Some txt) pol = Some \<lparr>p_store = MemoryStore_default, p_aof = Some (new_AofWriter True txt pol)\<rparr>"
  using assms(2) [of "\<lparr>d_store = MemoryStore_default, d_aof = None, d_commands = registrations\<rparr>" "envs 0"]
  by (simp add: server_start_def new_Dispatcher_eq AofLoader_Load_def assms(1) SetAofWriter_def case_prod_beta)

text \<open>C34: A record torn by a crash swallows the first record written after the restart. On a file that
  ends in the first two letters of a record the server starts and skips them; it then acknowledges a SET,
  answers the GET that follows with its value, and the append succeeds in full; but the record is glued
  to the torn one, the next start rejects the line, and the key is gone.\<close>

theorem torn_record_swallows_next:
  assumes "sendable_cmd (CSet k v)" and "append_succeeds os (CSet k v)" and "clock env 0 \<le> clock env' 0"
    and "std_hash env = std_hash env'"
  shows "\<exists>p w. server_start envs (Some ''SE'') pol = Some p
    \<and> fst (Process env os (EncodeSet k v Set_Always 0) p) = Replied (encode_answer (A_Stored True))
    \<and> fst (Process env' [] (EncodeGet k) (snd (Process env os (EncodeSet k v Set_Always 0) p)))
        = Replied (encode_answer (A_Value (Some v)))
    \<and> p_aof (snd (Process env os (EncodeSet k v Set_Always 0) p)) = Some w
    \<and> (\<exists>p'. server_start envs' (Some (aw_data w)) pol = Some p'
         \<and> fst (Process env'' [] (EncodeGet k) p') = Replied (encode_answer (A_Value None)))"
proof -
  let ?p = "\<lparr>p_store = MemoryStore_default, p_aof = Some (new_AofWriter True ''SE'' pol)\<rparr>"
  let ?x = "bin_exec env (B_Set k v Set_Always 0) MemoryStore_default"
  have "snd (snd (load_line e [] ''SE'' (0, 0, d))) = d" for e d by (simp add: load_line_def parse_line_def)
  then have start: "server_start envs (Some ''SE'') pol = Some ?p" by (intro start_skipped [OF getlines_SE]) blast
  have fits: "call_fits (B_Set k v Set_Always 0)" "short k" using assms(1) by (simp_all add: sendable_cmd_def)
  have ref0: "kv_refines H t MemoryStore_default (plain Map.empty)" for H t
    by (simp add: plain_simps kv_refines_default)
  have x: "fst ?x = A_Stored True"
    and ref: "kv_refines (std_hash env') (clock env' 0) (snd ?x) (plain [k \<mapsto> v])"
    using Set_refines [OF ref0, of "std_hash env" "clock env 0" k v Always 0]
    by (auto simp: spec_set_def plain_simps assms(4) [symmetric] intro: kv_refines_later [OF _ assms(3)])
  define w where "w = snd (AofWriter_Append os ''SET'' (set_body k v) (new_AofWriter True ''SE'' pol))"
  have proc: "fst (Process env os (EncodeSet k v Set_Always 0) ?p) = Replied (encode_answer (A_Stored True))"
    "snd (Process env os (EncodeSet k v Set_Always 0) ?p) = \<lparr>p_store = snd ?x, p_aof = Some w\<rparr>"
    "aw_data w = ''SE'' @ aof_line (req_op (request_of (CSet k v))) (body_json (request_of (CSet k v)))"
    using Process_call [OF fits(1), of env os ?p] append_client [OF assms(2)] x
    by (simp_all add: append_dies_def append_record_def w_def set_record_body AofWriter_Append_def new_AofWriter_def Let_def)
  have restart: "server_start envs' (Some (aw_data w)) pol
      = Some \<lparr>p_store = MemoryStore_default, p_aof = Some (new_AofWriter True (aw_data w) pol)\<rparr>"
    unfolding proc(3) by (intro start_skipped [OF getlines_glued] load_glued)
  show ?thesis
    using start proc restart ref0 [of "std_hash env''" "clock env'' 0"]
      Process_get [of env'' "\<lparr>p_store = MemoryStore_default, p_aof = Some (new_AofWriter True (aw_data w) pol)\<rparr>" Map.empty k "[]"]
      Process_get [of env' "\<lparr>p_store = snd ?x, p_aof = Some w\<rparr>" "[k \<mapsto> v]" k "[]"] ref fits(2)
    by auto
qed

theorem torn_record_swallows_next_witness:
  "\<exists>p w. server_start (\<lambda>_. example_env 3) (Some ''SE'') Policy_Always = Some p
    \<and> p_aof (snd (Process (example_env 5) [Written 100] (EncodeSet ''a'' ''1'' Set_Always 0) p)) = Some w
    \<and> (\<exists>p'. server_start (\<lambda>_. example_env 8) (Some (aw_data w)) Policy_Always = Some p'
         \<and> fst (Process (example_env 9) [] (EncodeGet ''a'') p') = Replied (encode_answer (A_Value None)))"
  using torn_record_swallows_next [of "''a''" "''1''" "[Written 100]" "example_env 5" "example_env 6"
      "\<lambda>_. example_env 3" Policy_Always "\<lambda>_. example_env 8" "example_env 9"] example_appends(1)
  by (auto simp: sendable_cmd_def short_def)

section \<open>Reservations across a restart\<close>

definition quota_server :: Processor where
  "quota_server = process_all
     [(example_env 5, [Written 1000], Bin (EncodeQuotaInit ''k'' 10)),
      (example_env 6, [Written 1000], Bin (EncodeReserve ''k'' 10 60000))]
     \<lparr>p_store = MemoryStore_default, p_aof = Some (new_AofWriter True [] Policy_Always)\<rparr>"


definition http_quota_server :: Processor where
  "http_quota_server = process_all
     [(example_env 5, [Written 1000], Http 0 (example_post ''/v1/quota/init'' [(''key'', JStr ''k''), (''quota'', JNum 10)])),
      (example_env 6, [Written 1000], Http 0 (example_post ''/v1/quota/reserve''
         [(''key'', JStr ''k''), (''amount'', JNum 10), (''ttl_ms'', JNum 100)])),
      (example_env 7, [Written 1000], Http 0 (example_post ''/v1/quota/commit''
         [(''key'', JStr ''k''), (''reservation_id'', JStr (make_res_id 6 (next_reservation_seq MemoryStore_default))),
          (''actual_amount'', JNum 10)]))]
     \<lparr>p_store = MemoryStore_default, p_aof = Some (new_AofWriter True [] Policy_Always)\<rparr>"

text \<open>A commit over HTTP is forgotten by a restart. A quota of 10 is reserved and committed over HTTP and
  stays at 0 on the running server; the reservation was logged and the commit was not, so the restarted
  server holds the reservation again, and once it expires the sweep pays the spent quota back: the
  balance is 10.\<close>

theorem http_commit_lost_on_restart:
  "fst (Process (example_env 201) [] (EncodeQuotaGet ''k'') (snd (timer_tick length 200 http_quota_server)))
     = Replied (encode_answer (A_Number 0))
   \<and> map_option (\<lambda>p. fst (Process (example_env 201) [] (EncodeQuotaGet ''k'') (snd (timer_tick length 200 p))))
       (server_start (\<lambda>_. example_env 8) (map_option aw_data (p_aof http_quota_server)) Policy_Always)
     = Some (Replied (encode_answer (A_Number 10)))"
  by (rule conjI; code_simp)

section \<open>Whatever happens\<close>

datatype server_event = Serve CallEnv "write_outcome list" wire_request | Tick u64

fun server_does :: "hash_fn \<Rightarrow> server_event \<Rightarrow> Processor \<Rightarrow> Processor" where
  "server_does H (Serve env os r) p = serve env os r p"
| "server_does H (Tick now) p = snd (timer_tick H now p)"

fun uses_hash :: "hash_fn \<Rightarrow> server_event \<Rightarrow> bool" where
  "uses_hash H (Serve env os r) \<longleftrightarrow> std_hash env = H"
| "uses_hash H (Tick now) \<longleftrightarrow> True"

lemma server_does_inv:
  assumes "store_inv H (p_store p)" "uses_hash H ev"
  shows "store_inv H (p_store (server_does H ev p))"
proof (cases ev)
  case (Serve env os r)
  then show ?thesis using assms Process_inv [of env p os] http_process_inv [of env p "[os]"] by (cases r) auto
next
  case (Tick now)
  then show ?thesis using purge_store_inv [OF assms(1), of now 50] by (simp add: timer_tick_def case_prod_beta)
qed

lemma load_lines_inv:
  assumes "d_commands d = registrations" "store_inv H (d_store d)" "\<forall>j. std_hash (envs j) = H"
  shows "store_inv H (d_store (snd (snd (load_lines envs i ls (r, s, d)))))"
  using assms
proof (induction ls arbitrary: i r s d)
  case (Cons l ls)
  obtain r' s' d' where x: "load_line (envs i) [] l (r, s, d) = (r', s', d')" by (metis prod_cases3)
  have "store_inv H (d_store d') \<and> d_commands d' = registrations"
    using x Cons.prems Dispatch_inv [of d "envs i" "[]"]
    by (auto simp: load_line_def split: aof_entry.splits prod.splits option.splits if_splits)
  then show ?case using Cons x by simp
qed simp

lemma server_start_inv:
  assumes "server_start envs file pol = Some p" "\<forall>j. std_hash (envs j) = H"
  shows "store_inv H (p_store p)"
proof -
  let ?d = "\<lparr>d_store = MemoryStore_default, d_aof = None, d_commands = registrations\<rparr>"
  have "store_inv H (d_store (snd (AofLoader_Load envs f ?d)))" for f
    using load_lines_inv [of ?d H envs 0 _ 0 0] assms(2) store_inv_default
    by (simp add: AofLoader_Load_def case_prod_beta split: aof_file.split)
  then show ?thesis using assms(1)
    by (auto simp: server_start_def new_Dispatcher_eq SetAofWriter_def case_prod_beta Let_def)
qed

text \<open>Nothing a client or the file contains breaks the store. Started on any file whatsoever, valid or
  not, and then given any sequence of binary payloads, HTTP requests and timer ticks, with any bytes in
  them and any outcome of the writes, the server's store keeps its invariant.\<close>

theorem server_keeps_store_invariant:
  assumes "server_start envs file pol = Some p" and "\<forall>j. std_hash (envs j) = H" and "list_all (uses_hash H) evs"
  shows "store_inv H (p_store (fold (server_does H) evs p))"
proof -
  have "store_inv H (p_store p)" using assms by (intro server_start_inv)
  then show ?thesis using assms(3) by (induction evs arbitrary: p) (simp_all add: server_does_inv)
qed

theorem server_keeps_store_invariant_witness:
  "\<exists>p. server_start (\<lambda>_. example_env 3) (Some ''SE'') Policy_No = Some p \<and>
     store_inv length (p_store (fold (server_does length) [Tick 4, Serve (example_env 5) [] (Bin ''x'')] p))"
proof -
  obtain p where "server_start (\<lambda>_. example_env 3) (Some ''SE'') Policy_No = Some p"
    by (simp add: server_start_def new_Dispatcher_eq)
  with server_keeps_store_invariant [OF this, of length "[Tick 4, Serve (example_env 5) [] (Bin ''x'')]"]
  show ?thesis by simp
qed

end
