(* ===== verification/GK_Channel.thy ===== *)
theory GK_Channel
  imports GK_Gkwp2
begin

text \<open>
  A connection of the binary protocol, \<open>src/net/channel.cpp\<close> with the session of
  \<open>include/gatekeeper/net/session.h\<close>: reading, decoding, calling the request handler, sending and the
  buffer of bytes the socket did not take. What the operating system answers is part of the state: the
  outcomes of the calls of \<open>send\<close> and the readings of the clock, consumed one by one; the outcomes of
  \<open>recv\<close> come with the event that announces them. \<open>ch_out\<close> collects the bytes the socket took.

  Shown: however the requests are cut into reads and the replies into writes, the peer gets the
  replies to its requests, whole and in order, each request being handled once.
\<close>

section \<open>The connection\<close>

datatype send_outcome = Sent nat | Send_again | Send_interrupted | Send_failed

datatype recv_outcome = Received string | Peer_closed | Recv_again | Recv_interrupted | Recv_failed

record Channel =
  ch_closed :: bool
  ch_decoder :: Decoder
  ch_streams :: StreamManager
  requests_count :: u64
  bytes_received :: u64
  bytes_sent :: u64
  write_buffer :: string
  write_offset :: nat
  want_write :: bool
  ch_sends :: "send_outcome list"
  ch_clock :: "nat \<Rightarrow> u64"
  ch_ticks :: nat
  ch_out :: string

definition kMaxWriteBufferSize :: nat where
  "kMaxWriteBufferSize = 64 * 1024 * 1024"

definition new_Channel :: "send_outcome list \<Rightarrow> (nat \<Rightarrow> u64) \<Rightarrow> Channel" where
  "new_Channel sends clk =
     \<lparr>ch_closed = False, ch_decoder = new_Decoder, ch_streams = new_StreamManager 1024 30000,
      requests_count = 0, bytes_received = 0, bytes_sent = 0, write_buffer = [], write_offset = 0,
      want_write = False, ch_sends = sends, ch_clock = clk, ch_ticks = 0, ch_out = []\<rparr>"

definition Channel_Close :: "Channel \<Rightarrow> Channel" where
  "Channel_Close ch = (if ch_closed ch then ch else ch\<lparr>ch_closed := True\<rparr>)"

text \<open>One call of \<open>send\<close> on \<open>data\<close>: the outcome, and the state once the bytes it took are accounted for.
  A socket about which nothing more is known would block.\<close>

definition send_call :: "string \<Rightarrow> Channel \<Rightarrow> send_outcome \<times> Channel" where
  "send_call data ch =
     (case ch_sends ch of
        [] \<Rightarrow> (Send_again, ch)
      | Sent n # os \<Rightarrow>
          let k = min n (length data)
          in (Sent k, ch\<lparr>ch_sends := os, ch_out := ch_out ch @ take k data, bytes_sent := bytes_sent ch + of_nat k\<rparr>)
      | r # os \<Rightarrow> (r, ch\<lparr>ch_sends := os\<rparr>))"

definition Channel_buffer :: "string \<Rightarrow> Channel \<Rightarrow> Channel" where
  "Channel_buffer data ch =
     (if length (write_buffer ch) - write_offset ch + length data > kMaxWriteBufferSize then Channel_Close ch
      else ch\<lparr>write_buffer := write_buffer ch @ data, want_write := True\<rparr>)"

definition Channel_Send :: "string \<Rightarrow> Channel \<Rightarrow> Channel" where
  "Channel_Send data ch =
     (if ch_closed ch then ch
      else
        let ch1 = (if write_offset ch = length (write_buffer ch) then ch\<lparr>write_buffer := [], write_offset := 0\<rparr> else ch)
        in if write_buffer ch1 = []
           then (case send_call data ch1 of
                   (Sent k, ch2) \<Rightarrow>
                     if k > 0 then (if k = length data then ch2 else Channel_buffer (drop k data) ch2)
                     else Channel_buffer data ch2
                 | (Send_failed, ch2) \<Rightarrow> Channel_Close ch2
                 | (_, ch2) \<Rightarrow> Channel_buffer data ch2)
           else Channel_buffer data ch1)"

text \<open>The loop of \<open>HandleWrite\<close>; the flag says whether the function returns inside the loop.\<close>

function write_pending :: "Channel \<Rightarrow> Channel \<times> bool" where
  "write_pending ch =
     (if ch_closed ch \<or> \<not> write_offset ch < length (write_buffer ch) then (ch, False)
      else case ch_sends ch of
        [] \<Rightarrow> (ch, False)
      | Sent n # os \<Rightarrow>
          (let k = min n (length (write_buffer ch) - write_offset ch);
               ch1 = snd (send_call (drop (write_offset ch) (write_buffer ch)) ch);
               ch2 = ch1\<lparr>write_offset := write_offset ch + k\<rparr>
           in if k > 0 \<and> write_offset ch2 = length (write_buffer ch2)
              then (ch2\<lparr>write_buffer := [], write_offset := 0\<rparr>, False)
              else write_pending ch2)
      | Send_again # os \<Rightarrow> (ch\<lparr>ch_sends := os\<rparr>, False)
      | Send_interrupted # os \<Rightarrow> write_pending (ch\<lparr>ch_sends := os\<rparr>)
      | Send_failed # os \<Rightarrow> (Channel_Close (ch\<lparr>ch_sends := os\<rparr>), True))"
  by pat_completeness auto
termination
  by (relation "measure (\<lambda>ch. length (ch_sends ch))") (auto simp: send_call_def Let_def)

declare write_pending.simps [simp del]

definition HandleWrite :: "Channel \<Rightarrow> Channel" where
  "HandleWrite ch =
     (case write_pending ch of
        (ch1, returned) \<Rightarrow>
          if returned then ch1
          else if \<not> ch_closed ch1 \<and> write_offset ch1 = length (write_buffer ch1)
          then ch1\<lparr>write_buffer := [], write_offset := 0, want_write := False\<rparr>
          else ch1)"

section \<open>Serving\<close>

text \<open>The request handler: the reply to a payload and the next state of what serves it.\<close>

type_synonym 's request_handler = "string \<Rightarrow> 's \<Rightarrow> string \<times> 's"

definition is_end_stream :: "Frame \<Rightarrow> bool" where
  "is_end_stream f \<longleftrightarrow> and (hflags (fr_header f)) kEndStream \<noteq> 0"

text \<open>One round of the loop over the frames of a read.\<close>

definition too_many_streams :: "Frame \<Rightarrow> string" where
  "too_many_streams f =
     EncodeError (request_id (fr_header f)) (stream_id (fr_header f)) ''TOO_MANY_STREAMS''
       ''Maximum concurrent streams exceeded'' True"

definition serve_frame :: "'s request_handler \<Rightarrow> Frame \<Rightarrow> Channel \<times> 's \<Rightarrow> Channel \<times> 's" where
  "serve_frame h f x =
     (case x of (ch, s) \<Rightarrow>
        let sid = stream_id (fr_header f)
        in if sid \<noteq> 0 \<and> \<not> CanOpenStream sid (ch_streams ch) then (Channel_Send (too_many_streams f) ch, s)
           else
             let ch1 = (if sid \<noteq> 0
                        then ch\<lparr>ch_streams := snd (GetOrCreateStream sid (ch_clock ch (ch_ticks ch)) (ch_streams ch)),
                                ch_ticks := Suc (ch_ticks ch)\<rparr>
                        else ch);
                 (response, s') = h (fr_payload f) s;
                 ch2 = Channel_Send (EncodeResponse (request_id (fr_header f)) sid response (is_end_stream f))
                         (ch1\<lparr>requests_count := requests_count ch1 + 1\<rparr>)
             in (if sid \<noteq> 0 \<and> is_end_stream f then ch2\<lparr>ch_streams := CloseStream sid (ch_streams ch2)\<rparr> else ch2, s'))"

text \<open>The loop leaves early once the connection is closed, except after a refused stream.\<close>

definition refused :: "Frame \<Rightarrow> Channel \<Rightarrow> bool" where
  "refused f ch \<longleftrightarrow> stream_id (fr_header f) \<noteq> 0 \<and> \<not> CanOpenStream (stream_id (fr_header f)) (ch_streams ch)"

fun serve_frames :: "'s request_handler \<Rightarrow> Frame list \<Rightarrow> Channel \<times> 's \<Rightarrow> Channel \<times> 's" where
  "serve_frames h [] x = x"
| "serve_frames h (f # fs) x =
     (let y = serve_frame h f x
      in if \<not> refused f (fst x) \<and> ch_closed (fst y) then y else serve_frames h fs y)"

fun HandleRead :: "'s request_handler \<Rightarrow> recv_outcome list \<Rightarrow> Channel \<times> 's \<Rightarrow> Channel \<times> 's" where
  "HandleRead h [] x = x"
| "HandleRead h (r # rs) (ch, s) =
     (if ch_closed ch then (ch, s)
      else case r of
        Received bytes \<Rightarrow>
          (case Push bytes (ch_decoder ch) of
             (fs, Some err, d) \<Rightarrow>
               (Channel_Close (Channel_Send (EncodeError 0 0 ''PROTOCOL_ERROR'' err True)
                  (ch\<lparr>bytes_received := bytes_received ch + of_nat (length bytes), ch_decoder := d\<rparr>)), s)
           | (fs, None, d) \<Rightarrow>
               HandleRead h rs (serve_frames h fs
                 (ch\<lparr>bytes_received := bytes_received ch + of_nat (length bytes), ch_decoder := d\<rparr>, s)))
      | Peer_closed \<Rightarrow> (Channel_Close ch, s)
      | Recv_again \<Rightarrow> (ch, s)
      | Recv_interrupted \<Rightarrow> HandleRead h rs (ch, s)
      | Recv_failed \<Rightarrow> (Channel_Close ch, s))"

text \<open>The events a poll reports: readable, writable, and error or hang-up.\<close>

record io_event =
  ev_in :: bool
  ev_out :: bool
  ev_err :: bool
  ev_recv :: "recv_outcome list"

definition HandleEvents :: "'s request_handler \<Rightarrow> io_event \<Rightarrow> Channel \<times> 's \<Rightarrow> Channel \<times> 's" where
  "HandleEvents h ev x =
     (if ch_closed (fst x) then x
      else
        let (ch1, s1) = (if ev_in ev then HandleRead h (ev_recv ev) x else x);
            ch2 = (if \<not> ch_closed ch1 \<and> ev_out ev then HandleWrite ch1 else ch1);
            ch3 = (if \<not> ch_closed ch2 \<and> ev_err ev then Channel_Close ch2 else ch2)
        in (ch3, s1))"

section \<open>What the peer should get\<close>

text \<open>The replies to a sequence of frames and the state after them, without sockets or buffers.\<close>

definition answer :: "'s request_handler \<Rightarrow> (nat \<Rightarrow> u64) \<Rightarrow> Frame \<Rightarrow> StreamManager \<times> nat \<times> 's
    \<Rightarrow> string \<times> StreamManager \<times> nat \<times> 's" where
  "answer h clk f x =
     (case x of (m, t, s) \<Rightarrow>
        let sid = stream_id (fr_header f)
        in if sid \<noteq> 0 \<and> \<not> CanOpenStream sid m then (too_many_streams f, m, t, s)
           else
             let (response, s') = h (fr_payload f) s;
                 m1 = (if sid \<noteq> 0 then snd (GetOrCreateStream sid (clk t) m) else m)
             in (EncodeResponse (request_id (fr_header f)) sid response (is_end_stream f),
                 if sid \<noteq> 0 \<and> is_end_stream f then CloseStream sid m1 else m1,
                 if sid \<noteq> 0 then Suc t else t, s'))"

fun answers :: "'s request_handler \<Rightarrow> (nat \<Rightarrow> u64) \<Rightarrow> Frame list \<Rightarrow> StreamManager \<times> nat \<times> 's
    \<Rightarrow> string \<times> StreamManager \<times> nat \<times> 's" where
  "answers h clk [] x = ([], x)"
| "answers h clk (f # fs) x =
     (case answer h clk f x of (out, y) \<Rightarrow> (case answers h clk fs y of (outs, z) \<Rightarrow> (out @ outs, z)))"

lemma answers_append:
  "answers h clk (fs @ gs) x
   = (case answers h clk fs x of (o1, y) \<Rightarrow> (case answers h clk gs y of (o2, z) \<Rightarrow> (o1 @ o2, z)))"
  by (induction fs arbitrary: x) (simp_all add: case_prod_beta)

text \<open>\<open>follows acc ch\<close>: what the socket took is the start of \<open>acc\<close>, and while the connection is open
  the rest of \<open>acc\<close> is what is still buffered.\<close>

definition follows :: "string \<Rightarrow> Channel \<Rightarrow> bool" where
  "follows acc ch \<longleftrightarrow> write_offset ch \<le> length (write_buffer ch)
     \<and> (if ch_closed ch then prefix (ch_out ch) acc
        else ch_out ch @ drop (write_offset ch) (write_buffer ch) = acc)"

named_theorems follows_intros

lemma follows_prefix: "follows acc ch \<Longrightarrow> prefix (ch_out ch) acc"
  by (auto simp: follows_def split: if_splits)

lemma follows_Close [follows_intros]: "follows acc ch \<Longrightarrow> follows acc (Channel_Close ch)"
  by (auto simp: follows_def Channel_Close_def split: if_splits)

lemma follows_more: "follows acc ch \<Longrightarrow> ch_closed ch \<Longrightarrow> follows (acc @ data) ch"
  by (auto simp: follows_def)

lemma follows_buffer:
  assumes "follows acc ch" "\<not> ch_closed ch"
  shows "follows (acc @ data) (Channel_buffer data ch)"
  using assms by (auto simp: follows_def Channel_buffer_def Channel_Close_def)

fun taken :: "send_outcome \<Rightarrow> nat" where
  "taken (Sent k) = k"
| "taken _ = 0"

lemma send_call_follows:
  assumes "follows acc ch" "write_buffer ch = []" "\<not> ch_closed ch" "send_call data ch = (r, ch2)"
  shows "\<not> ch_closed ch2 \<and> follows (acc @ take (taken r) data) ch2 \<and> taken r \<le> length data"
proof (cases "ch_sends ch")
  case (Cons q os)
  then show ?thesis using assms by (cases q) (auto simp: send_call_def Let_def follows_def)
qed (use assms in \<open>auto simp: send_call_def follows_def\<close>)

lemma follows_Send [follows_intros]:
  assumes "follows acc ch"
  shows "follows (acc @ data) (Channel_Send data ch)"
proof (cases "ch_closed ch")
  case True
  then show ?thesis using follows_more [OF assms] by (simp add: Channel_Send_def)
next
  case False
  define ch1 where "ch1 = (if write_offset ch = length (write_buffer ch) then ch\<lparr>write_buffer := [], write_offset := 0\<rparr> else ch)"
  have ch1: "follows acc ch1" "\<not> ch_closed ch1"
    using assms False by (auto simp: ch1_def follows_def)
  show ?thesis
  proof (cases "write_buffer ch1 = []")
    case True
    obtain r ch2 where call: "send_call data ch1 = (r, ch2)" by fastforce
    note ch2 = send_call_follows [OF ch1(1) True ch1(2) call]
    then have "follows (acc @ data) (Channel_buffer (drop (taken r) data) ch2)"
      using follows_buffer [of "acc @ take (taken r) data" ch2 "drop (taken r) data"] by simp
    then show ?thesis
      using False True call ch2 follows_Close [of acc ch2] follows_more [of acc "Channel_Close ch2" data]
      by (cases r) (auto simp: Channel_Send_def Channel_Close_def simp flip: ch1_def)
  next
    case False': False
    then show ?thesis using False follows_buffer [OF ch1] by (simp add: Channel_Send_def flip: ch1_def)
  qed
qed

lemma write_pending_follows: "follows acc ch \<Longrightarrow> follows acc (fst (write_pending ch))"
proof (induction ch rule: write_pending.induct)
  case (1 ch)
  show ?case
  proof (cases "ch_closed ch \<or> \<not> write_offset ch < length (write_buffer ch)")
    case True
    then show ?thesis using 1 by (simp add: write_pending.simps [of ch])
  next
    case False
    show ?thesis
    proof (cases "ch_sends ch")
      case Nil
      then show ?thesis using 1 False by (simp add: write_pending.simps [of ch])
    next
      case (Cons r os)
      show ?thesis
      proof (cases r)
        case (Sent n)
        let ?k = "min n (length (write_buffer ch) - write_offset ch)"
        let ?ch1 = "snd (send_call (drop (write_offset ch) (write_buffer ch)) ch)"
        let ?ch2 = "?ch1\<lparr>write_offset := write_offset ch + ?k\<rparr>"
        have tk: "take ?k (drop a b) @ drop (a + ?k) b = drop a b" for a and b :: string
          by (metis add.commute append_take_drop_id drop_drop)
        have "follows acc ?ch2"
          using 1(3) False Cons Sent tk by (auto simp: send_call_def Let_def follows_def)
        then show ?thesis
          using 1(1) [OF False Cons Sent refl refl refl] 1(3) False Cons Sent tk
          by (auto simp: write_pending.simps [of ch] Let_def send_call_def follows_def)
      next
        case Send_again
        then show ?thesis using 1(3) False Cons by (simp add: write_pending.simps [of ch] follows_def)
      next
        case Send_interrupted
        then show ?thesis using 1(2) [OF False Cons Send_interrupted] 1(3) False Cons
          by (simp add: write_pending.simps [of ch] follows_def)
      next
        case Send_failed
        then show ?thesis using 1(3) False Cons follows_Close [of acc "ch\<lparr>ch_sends := os\<rparr>"]
          by (simp add: write_pending.simps [of ch] follows_def)
      qed
    qed
  qed
qed

lemma follows_HandleWrite [follows_intros]: "follows acc ch \<Longrightarrow> follows acc (HandleWrite ch)"
  using write_pending_follows [of acc ch] by (auto simp: HandleWrite_def follows_def split: prod.splits if_splits)

lemma Send_frame [simp]:
  "ch_streams (Channel_Send data ch) = ch_streams ch" "ch_ticks (Channel_Send data ch) = ch_ticks ch"
  "ch_clock (Channel_Send data ch) = ch_clock ch" "ch_decoder (Channel_Send data ch) = ch_decoder ch"
  by (auto simp: Channel_Send_def send_call_def Channel_buffer_def Channel_Close_def Let_def
      split: list.split send_outcome.split)

lemma write_pending_frame:
  "ch_streams (fst (write_pending ch)) = ch_streams ch \<and> ch_ticks (fst (write_pending ch)) = ch_ticks ch
   \<and> ch_clock (fst (write_pending ch)) = ch_clock ch \<and> ch_decoder (fst (write_pending ch)) = ch_decoder ch"
proof (induction ch rule: write_pending.induct)
  case (1 ch)
  then show ?case
    by (subst (1 2 3 4) write_pending.simps)
      (auto simp: Let_def send_call_def Channel_Close_def split: list.split send_outcome.split)
qed

lemma HandleWrite_frame [simp]:
  "ch_streams (HandleWrite ch) = ch_streams ch" "ch_ticks (HandleWrite ch) = ch_ticks ch"
  "ch_clock (HandleWrite ch) = ch_clock ch" "ch_decoder (HandleWrite ch) = ch_decoder ch"
  using write_pending_frame [of ch] by (auto simp: HandleWrite_def split: prod.split)

lemma follows_irrelevant [simp]:
  "follows acc (ch\<lparr>ch_streams := m\<rparr>) = follows acc ch" "follows acc (ch\<lparr>ch_ticks := t\<rparr>) = follows acc ch"
  "follows acc (ch\<lparr>requests_count := n\<rparr>) = follows acc ch" "follows acc (ch\<lparr>ch_decoder := d\<rparr>) = follows acc ch"
  "follows acc (ch\<lparr>bytes_received := b\<rparr>) = follows acc ch"
  by (simp_all add: follows_def)

text \<open>The state of the answers that a connection represents.\<close>

definition served :: "Channel \<times> 's \<Rightarrow> StreamManager \<times> nat \<times> 's" where
  "served x = (ch_streams (fst x), ch_ticks (fst x), snd x)"

lemma serve_frame_answer:
  assumes "follows acc ch" "answer h (ch_clock ch) f (served (ch, s)) = (out, y)"
  shows "follows (acc @ out) (fst (serve_frame h f (ch, s))) \<and> served (serve_frame h f (ch, s)) = y
    \<and> ch_clock (fst (serve_frame h f (ch, s))) = ch_clock ch \<and> ch_decoder (fst (serve_frame h f (ch, s))) = ch_decoder ch"
  using assms
  by (auto simp: answer_def serve_frame_def served_def Let_def case_prod_beta split: if_splits intro!: follows_Send)

lemma serve_frame_closed:
  "ch_closed ch \<Longrightarrow> ch_closed (fst (serve_frame h f (ch, s))) \<and> ch_out (fst (serve_frame h f (ch, s))) = ch_out ch
    \<and> write_offset (fst (serve_frame h f (ch, s))) = write_offset ch
    \<and> write_buffer (fst (serve_frame h f (ch, s))) = write_buffer ch"
  by (auto simp: serve_frame_def Channel_Send_def Let_def split: prod.split)

lemma serve_frames_closed:
  "ch_closed ch \<Longrightarrow> ch_closed (fst (serve_frames h fs (ch, s))) \<and> (follows acc ch \<longrightarrow> follows acc (fst (serve_frames h fs (ch, s))))"
proof (induction fs arbitrary: ch s)
  case (Cons f fs)
  obtain ch1 s1 where x: "serve_frame h f (ch, s) = (ch1, s1)" by fastforce
  then have "ch_closed ch1" "follows acc ch \<Longrightarrow> follows acc ch1"
    using serve_frame_closed [OF Cons.prems, of h f s] Cons.prems by (auto simp: follows_def)
  then show ?case using Cons.IH [of ch1 s1] x by (auto simp: Let_def)
qed simp

text \<open>All the frames are answered, or those up to the one whose reply closed the connection.\<close>

lemma serve_frames_upto:
  assumes "follows acc ch" "serve_frames h fs (ch, s) = (ch', s')"
  shows "\<exists>j out z. answers h (ch_clock ch) (take j fs) (served (ch, s)) = (out, z) \<and> follows (acc @ out) ch' \<and> s' = snd (snd z)
    \<and> (\<not> ch_closed ch' \<longrightarrow> length fs \<le> j \<and> served (ch', s') = z \<and> ch_clock ch' = ch_clock ch \<and> ch_decoder ch' = ch_decoder ch)"
  using assms
proof (induction fs arbitrary: ch s acc)
  case Nil
  then show ?case by (intro exI [of _ 0] exI [of _ "[]"] exI [of _ "served (ch, s)"]) (simp add: served_def)
next
  case (Cons f fs)
  obtain o1 z where o1: "answer h (ch_clock ch) f (served (ch, s)) = (o1, z)" by (metis surj_pair)
  obtain ch1 s1 where x: "serve_frame h f (ch, s) = (ch1, s1)" by fastforce
  note step = serve_frame_answer [OF Cons.prems(1) o1, unfolded x fst_conv]
  show ?case
  proof (cases "\<not> refused f ch \<and> ch_closed ch1")
    case True
    then have "ch' = ch1" "s' = s1" using Cons.prems(2) x by (simp_all add: Let_def)
    then show ?thesis using True step o1
      by (intro exI [of _ 1] exI [of _ o1] exI [of _ z]) (auto simp: served_def)
  next
    case False
    then have "serve_frames h fs (ch1, s1) = (ch', s')" using Cons.prems(2) x by (auto simp: Let_def)
    moreover have e: "served (ch1, s1) = z" "ch_clock ch1 = ch_clock ch" "ch_decoder ch1 = ch_decoder ch" using step by auto
    ultimately obtain j out z' where "answers h (ch_clock ch) (take j fs) z = (out, z')" "follows ((acc @ o1) @ out) ch'" "s' = snd (snd z')"
      "\<not> ch_closed ch' \<longrightarrow> length fs \<le> j \<and> served (ch', s') = z' \<and> ch_clock ch' = ch_clock ch \<and> ch_decoder ch' = ch_decoder ch"
      using Cons.IH [OF conjunct1 [OF step], unfolded e] by blast
    then show ?thesis using o1 by (intro exI [of _ "Suc j"] exI [of _ "o1 @ out"] exI [of _ z']) simp
  qed
qed

section \<open>Reads\<close>

fun chunks :: "recv_outcome list \<Rightarrow> string list" where
  "chunks (Received b # rs) = b # chunks rs"
| "chunks (Recv_interrupted # rs) = chunks rs"
| "chunks _ = []"

text \<open>\<open>on_track\<close>: an open connection that has answered the frames before \<open>fs\<close>, to whose decoder the
  bytes \<open>rest\<close> are still to come.\<close>

definition on_track :: "string \<Rightarrow> string \<Rightarrow> (Header \<times> string) list \<Rightarrow> Channel \<Rightarrow> bool" where
  "on_track acc rest fs ch \<longleftrightarrow> follows acc ch \<and> (\<not> ch_closed ch \<longrightarrow>
     decoder_inv (ch_decoder ch) \<and> pending (ch_decoder ch) @ rest = wire fs \<and> stuck (pending (ch_decoder ch)) fs
     \<and> length (buffer (ch_decoder ch)) + length rest \<le> kMaxDecoderBufferSize)"

text \<open>\<open>handled h acc rest fs x x' j out\<close>: on the way from \<open>x\<close> to \<open>x'\<close> the first \<open>j\<close> of the frames have been
  handled, in order, with the replies \<open>out\<close>.\<close>

definition handled ::
  "'s request_handler \<Rightarrow> string \<Rightarrow> string \<Rightarrow> (Header \<times> string) list \<Rightarrow> Channel \<times> 's \<Rightarrow> Channel \<times> 's \<Rightarrow> nat \<Rightarrow> string \<Rightarrow> bool" where
  "handled h acc rest fs x x' j out \<longleftrightarrow>
     (\<exists>z. answers h (ch_clock (fst x)) (map received (take j fs)) (served x) = (out, z)
        \<and> on_track (acc @ out) rest (drop j fs) (fst x') \<and> snd x' = snd (snd z)
        \<and> (\<not> ch_closed (fst x') \<longrightarrow> served x' = z \<and> ch_clock (fst x') = ch_clock (fst x)))"

lemma handled_none:
  assumes "on_track acc rest fs ch'" "served (ch', s) = served (ch, s)" "ch_clock ch' = ch_clock ch"
  shows "handled h acc rest fs (ch, s) (ch', s) 0 []"
  using assms by (simp add: handled_def served_def)

lemma handled_trans:
  assumes "handled h acc rest fs x x1 j o1" "\<not> ch_closed (fst x1)" "handled h (acc @ o1) rest' (drop j fs) x1 x2 j2 o2"
  shows "handled h acc rest' fs x x2 (j + j2) (o1 @ o2)"
proof -
  obtain z where z: "answers h (ch_clock (fst x)) (map received (take j fs)) (served x) = (o1, z)"
    "served x1 = z" "ch_clock (fst x1) = ch_clock (fst x)"
    using assms(1,2) by (auto simp: handled_def)
  obtain z' where z': "answers h (ch_clock (fst x)) (map received (take j2 (drop j fs))) z = (o2, z')"
    "on_track ((acc @ o1) @ o2) rest' (drop j2 (drop j fs)) (fst x2)" "snd x2 = snd (snd z')"
    "\<not> ch_closed (fst x2) \<longrightarrow> served x2 = z' \<and> ch_clock (fst x2) = ch_clock (fst x)"
    using assms(3) unfolding handled_def z(2,3) by blast
  have "answers h (ch_clock (fst x)) (map received (take (j + j2) fs)) (served x) = (o1 @ o2, z')"
    using z(1) z'(1) by (simp add: take_add answers_append)
  then show ?thesis using z' by (auto simp: handled_def add.commute)
qed

lemma handled_later:
  assumes "handled h acc rest fs x (ch, s) j out" "\<And>a r gs. on_track a r gs ch \<Longrightarrow> on_track a r gs ch'"
    "\<not> ch_closed ch' \<Longrightarrow> \<not> ch_closed ch \<and> served (ch', s) = served (ch, s) \<and> ch_clock ch' = ch_clock ch"
  shows "handled h acc rest fs x (ch', s) j out"
  using assms by (auto simp: handled_def)

lemma read_chunk:
  assumes "on_track acc (b @ rest) fs ch" "\<not> ch_closed ch" "list_all sendable fs"
  shows "\<exists>x j out. HandleRead h (Received b # rs) (ch, s) = HandleRead h rs x \<and> handled h acc rest fs (ch, s) x j out"
proof -
  obtain k d where k: "Push b (ch_decoder ch) = (map received (take k fs), None, d)" "decoder_inv d"
    "pending d @ rest = wire (drop k fs)" "stuck (pending d) (drop k fs)"
    "length (buffer d) \<le> length (buffer (ch_decoder ch)) + length b"
    using Push_wire [OF assms(3), of "ch_decoder ch" b rest] assms(1,2) by (auto simp: on_track_def)
  let ?ch = "ch\<lparr>bytes_received := bytes_received ch + of_nat (length b), ch_decoder := d\<rparr>"
  obtain ch1 s1 where x: "serve_frames h (map received (take k fs)) (?ch, s) = (ch1, s1)" by fastforce
  have "follows acc ?ch" using assms(1) by (simp add: on_track_def)
  from serve_frames_upto [OF this x]
  obtain j out z where j: "answers h (ch_clock ?ch) (take j (map received (take k fs))) (served (?ch, s)) = (out, z)"
    "follows (acc @ out) ch1" "s1 = snd (snd z)"
    "\<not> ch_closed ch1 \<longrightarrow>
      length (map received (take k fs)) \<le> j \<and> served (ch1, s1) = z \<and> ch_clock ch1 = ch_clock ?ch \<and> ch_decoder ch1 = ch_decoder ?ch"
    by blast
  have "handled h acc rest fs (ch, s) (ch1, s1) (min j k) out"
  proof (cases "ch_closed ch1")
    case True
    then show ?thesis using j(1-3) by (auto simp: handled_def on_track_def take_map served_def)
  next
    case False
    then have "take (min j k) fs = take k fs" "drop (min j k) fs = drop k fs" using j(4) by (cases "length fs \<le> k"; auto simp: min_def)+
    then show ?thesis using j False k assms(1,2) by (simp add: handled_def on_track_def served_def)
  qed
  moreover have "HandleRead h (Received b # rs) (ch, s) = HandleRead h rs (ch1, s1)" using assms(2) k(1) x by simp
  ultimately show ?thesis by blast
qed

lemma HandleRead_closed: "ch_closed ch \<Longrightarrow> HandleRead h rs (ch, s) = (ch, s)"
  by (cases rs) auto

lemma on_track_closed: "ch_closed ch \<Longrightarrow> on_track acc rest fs ch \<Longrightarrow> on_track (acc @ out) rest' fs' ch"
  by (simp add: on_track_def follows_more)

lemma answers_split:
  assumes "answers h clk (map received fs) x = (out, y)"
  shows "\<exists>o1 z o2. answers h clk (map received (take k fs)) x = (o1, z)
     \<and> answers h clk (map received (drop k fs)) z = (o2, y) \<and> out = o1 @ o2"
proof -
  obtain o1 z where o1: "answers h clk (map received (take k fs)) x = (o1, z)" by (metis surj_pair)
  obtain o2 w where o2: "answers h clk (map received (drop k fs)) z = (o2, w)" by (metis surj_pair)
  have "answers h clk (map received fs) x = (o1 @ o2, w)"
    using answers_append [of h clk "map received (take k fs)" "map received (drop k fs)" x] o1 o2
    by (simp flip: map_append)
  then show ?thesis using assms o1 o2 by auto
qed

text \<open>Reading consumes some of the frames; the answers to the others remain to be given.\<close>

lemma HandleRead_handled:
  assumes "on_track acc (concat (chunks rs) @ rest) fs ch" "\<not> ch_closed ch" "list_all sendable fs"
  shows "\<exists>j out. handled h acc rest fs (ch, s) (HandleRead h rs (ch, s)) j out"
  using assms
proof (induction rs arbitrary: ch s fs acc)
  case Nil
  then show ?case using handled_none [of acc rest fs ch s ch h] by auto
next
  case (Cons r rs)
  show ?case
  proof (cases r)
    case (Received b)
    obtain x j out where x: "HandleRead h (r # rs) (ch, s) = HandleRead h rs x"
      "handled h acc (concat (chunks rs) @ rest) fs (ch, s) x j out"
      using read_chunk [of acc b "concat (chunks rs) @ rest" fs ch h rs s] Cons.prems Received by auto
    show ?thesis
    proof (cases "ch_closed (fst x)")
      case True
      then have "HandleRead h rs x = x" by (metis HandleRead_closed prod.collapse)
      moreover have "handled h acc rest fs (ch, s) x j out"
        using x(2) True on_track_closed [of "fst x" "acc @ out" _ _ "[]" rest] by (auto simp: handled_def)
      ultimately show ?thesis using x(1) by auto
    next
      case False
      have t: "on_track (acc @ out) (concat (chunks rs) @ rest) (drop j fs) (fst x)" using x(2) by (auto simp: handled_def)
      have "list_all sendable (drop j fs)" using Cons.prems(3) by (auto simp: list_all_iff dest: in_set_dropD)
      from Cons.IH [OF t False this, of "snd x"] obtain j' o' where
        "handled h (acc @ out) rest (drop j fs) x (HandleRead h rs x) j' o'" by auto
      from handled_trans [OF x(2) False this] show ?thesis unfolding x(1) by blast
    qed
  next
    case Recv_interrupted
    then show ?thesis using Cons.IH [of acc fs ch s] Cons.prems by simp
  qed (use Cons.prems handled_none [of acc rest fs _ s ch h] in
      \<open>auto simp: on_track_def served_def Channel_Close_def follows_def intro!: exI [of _ 0] exI [of _ "[]"]\<close>)
qed

section \<open>Connections\<close>

definition ev_chunks :: "io_event \<Rightarrow> string list" where
  "ev_chunks ev = (if ev_in ev then chunks (ev_recv ev) else [])"

definition channel_run :: "'s request_handler \<Rightarrow> io_event list \<Rightarrow> Channel \<times> 's \<Rightarrow> Channel \<times> 's" where
  "channel_run h evs x = fold (HandleEvents h) evs x"

lemma on_track_HandleWrite: "on_track acc rest fs ch \<Longrightarrow> on_track acc rest fs (HandleWrite ch)"
proof -
  have "ch_closed ch \<Longrightarrow> ch_closed (HandleWrite ch)"
    by (simp add: HandleWrite_def write_pending.simps [of ch])
  then show "on_track acc rest fs ch \<Longrightarrow> ?thesis" by (auto simp: on_track_def follows_HandleWrite)
qed

lemma on_track_Close: "on_track acc rest fs ch \<Longrightarrow> on_track acc rest fs (Channel_Close ch)"
  by (auto simp: on_track_def follows_Close) (auto simp: Channel_Close_def)

lemma served_HandleWrite: "served (HandleWrite ch, s) = served (ch, s)"
  by (simp add: served_def)

lemma HandleEvents_handled:
  assumes "on_track acc (concat (ev_chunks ev) @ rest) fs ch" "\<not> ch_closed ch" "list_all sendable fs"
  shows "\<exists>j out. handled h acc rest fs (ch, s) (HandleEvents h ev (ch, s)) j out"
proof -
  obtain ch1 s1 where x: "(if ev_in ev then HandleRead h (ev_recv ev) (ch, s) else (ch, s)) = (ch1, s1)" by fastforce
  obtain j out where j: "handled h acc rest fs (ch, s) (ch1, s1) j out"
  proof (cases "ev_in ev")
    case True
    then show ?thesis using HandleRead_handled [of acc "ev_recv ev" rest fs ch h s] assms x that by (auto simp: ev_chunks_def)
  next
    case False
    then show ?thesis using handled_none [of acc rest fs ch s ch h] assms x that by (auto simp: ev_chunks_def)
  qed
  define ch2 where "ch2 = (if \<not> ch_closed ch1 \<and> ev_out ev then HandleWrite ch1 else ch1)"
  define ch3 where "ch3 = (if \<not> ch_closed ch2 \<and> ev_err ev then Channel_Close ch2 else ch2)"
  have H: "HandleEvents h ev (ch, s) = (ch3, s1)"
    using assms(2) x by (simp add: HandleEvents_def ch2_def ch3_def Let_def split: prod.splits)
  have ch2: "handled h acc rest fs (ch, s) (ch2, s1) j out"
  proof (cases "\<not> ch_closed ch1 \<and> ev_out ev")
    case True
    then have "ch2 = HandleWrite ch1" by (simp add: ch2_def)
    then show ?thesis
      using handled_later [OF j on_track_HandleWrite] True by (simp add: served_HandleWrite)
  qed (simp only: ch2_def if_False j)
  have "handled h acc rest fs (ch, s) (ch3, s1) j out"
  proof (cases "\<not> ch_closed ch2 \<and> ev_err ev")
    case True
    then have "ch3 = Channel_Close ch2" by (simp add: ch3_def)
    moreover have "ch_closed (Channel_Close ch2)" by (simp add: Channel_Close_def)
    ultimately show ?thesis
      using handled_later [OF ch2, of "Channel_Close ch2"] on_track_Close by simp
  qed (simp only: ch3_def if_False ch2)
  then show ?thesis unfolding H by blast
qed

lemma HandleEvents_closed: "ch_closed (fst x) \<Longrightarrow> fold (HandleEvents h) evs x = x"
  by (induction evs) (simp_all add: HandleEvents_def)

lemma channel_run_handled:
  assumes "on_track acc (concat (concat (map ev_chunks evs)) @ rest) fs (fst x)" "\<not> ch_closed (fst x)" "list_all sendable fs"
  shows "\<exists>j out. handled h acc rest fs x (channel_run h evs x) j out"
  using assms
proof (induction evs arbitrary: x fs acc)
  case Nil
  then show ?case using handled_none [of acc rest fs "fst x" "snd x" "fst x" h] by (auto simp: channel_run_def)
next
  case (Cons ev evs)
  let ?rest = "concat (concat (map ev_chunks evs)) @ rest"
  obtain j out where j: "handled h acc ?rest fs x (HandleEvents h ev x) j out"
    using HandleEvents_handled [of acc ev ?rest fs "fst x" h "snd x"] Cons.prems by auto
  show ?case
  proof (cases "ch_closed (fst (HandleEvents h ev x))")
    case True
    then have "channel_run h (ev # evs) x = HandleEvents h ev x" by (simp add: channel_run_def HandleEvents_closed)
    moreover have "handled h acc rest fs x (HandleEvents h ev x) j out"
      using j True on_track_closed [of "fst (HandleEvents h ev x)" "acc @ out" _ _ "[]" rest] by (auto simp: handled_def)
    ultimately show ?thesis by auto
  next
    case False
    have t: "on_track (acc @ out) ?rest (drop j fs) (fst (HandleEvents h ev x))" using j by (auto simp: handled_def)
    have "list_all sendable (drop j fs)" using Cons.prems(3) by (auto simp: list_all_iff dest: in_set_dropD)
    from Cons.IH [OF t False this] obtain j' o' where
      "handled h (acc @ out) rest (drop j fs) (HandleEvents h ev x) (channel_run h evs (HandleEvents h ev x)) j' o'" by blast
    from handled_trans [OF j False this] show ?thesis by (auto simp: channel_run_def)
  qed
qed

text \<open>Once all the bytes have arrived, all the frames have been handled, unless the connection is closed.\<close>

lemma handled_all:
  assumes "handled h acc [] fs x x' j out" "answers h (ch_clock (fst x)) (map received fs) (served x) = (all_out, y)"
  shows "prefix (ch_out (fst x')) (acc @ all_out)"
    and "\<not> ch_closed (fst x') \<Longrightarrow> follows (acc @ all_out) (fst x') \<and> served x' = y"
proof -
  obtain z where z: "answers h (ch_clock (fst x)) (map received (take j fs)) (served x) = (out, z)"
    "on_track (acc @ out) [] (drop j fs) (fst x')" "\<not> ch_closed (fst x') \<longrightarrow> served x' = z"
    using assms(1) by (auto simp: handled_def)
  obtain o2 where "all_out = out @ o2" using answers_split [OF assms(2), of j] z(1) by auto
  moreover have "prefix (ch_out (fst x')) (acc @ out)" using z(2) by (auto simp: on_track_def dest: follows_prefix)
  ultimately show "prefix (ch_out (fst x')) (acc @ all_out)" using prefix_prefix [of _ "acc @ out" o2] by simp
  show "follows (acc @ all_out) (fst x') \<and> served x' = y" if "\<not> ch_closed (fst x')"
  proof -
    have "stuck (wire (drop j fs)) (drop j fs)" using z(2) that by (auto simp: on_track_def)
    then have "drop j fs = []" by (rule stuck_complete)
    then have "take j fs = fs" by simp
    then show ?thesis using z that assms(2) by (auto simp: on_track_def)
  qed
qed

lemma on_track_new:
  assumes "length (wire fs) \<le> kMaxDecoderBufferSize"
  shows "on_track [] (wire fs) fs (new_Channel sends clk)"
proof -
  have "stuck [] fs" by (cases fs) (auto simp: stuck_def strict_prefix_def EncodeFrame_not_Nil)
  then show ?thesis
    using assms by (simp add: on_track_def follows_def new_Channel_def decoder_inv_def pending_def new_Decoder_def)
qed


definition echo :: "nat request_handler" where
  "echo payload n = (payload, Suc n)"

definition example_events :: "io_event list" where
  "example_events =
     (let bytes = wire [(new_header Msg_Request 0 7 0 2, ''hi''), (new_header Msg_Request 0 8 0 3, ''you'')]
      in [\<lparr>ev_in = True, ev_out = False, ev_err = False,
           ev_recv = [Received (take 30 bytes), Recv_interrupted, Received (drop 30 bytes), Recv_again]\<rparr>,
          \<lparr>ev_in = False, ev_out = True, ev_err = False, ev_recv = []\<rparr>])"


end
