(* ===== verification/GK_Client.thy ===== *)
theory GK_Client
  imports GK_Server GK_Channel
begin

text \<open>
  The client of the command-line tool, \<open>src/net/client.cpp\<close> with the error texts of
  \<open>src/net/error.cpp\<close>: opening a connection, sending a request frame, reading the reply, and the
  translation between the tool's operations and the binary protocol. What the operating system answers
  is part of the state: the outcome of every attempt to connect, and of the calls of \<open>send\<close> and
  \<open>recv\<close> on a connection, consumed one by one; once nothing more is known the socket times out, as
  its five-second timeouts make it do.

  Shown: whatever the network does, the client shows the text of the result of the store operation it
  asked for, or reports an error; it never shows anything else.
\<close>

section \<open>Error texts\<close>

datatype errno =
    EADDRINUSE | ECONNREFUSED | EACCES | EPERM | ETIMEDOUT | EAGAIN | ENETUNREACH | EHOSTUNREACH
  | ECONNRESET | EPIPE | EADDRNOTAVAIL | EINTR | Other_errno nat

definition error_hint :: "errno \<Rightarrow> string \<times> string" where
  "error_hint e =
     (case e of
        EADDRINUSE \<Rightarrow> (''ADDRESS_IN_USE'', ''Another process is using this address/port. Check it with ss -ltnp.'')
      | ECONNREFUSED \<Rightarrow>
          (''CONNECTION_REFUSED'', ''Check that gatekeeper is running and the host/port are correct.'')
      | EACCES \<Rightarrow> (''PERMISSION_DENIED'', ''Check socket permissions and firewall rules.'')
      | EPERM \<Rightarrow> (''PERMISSION_DENIED'', ''Check socket permissions and firewall rules.'')
      | ETIMEDOUT \<Rightarrow> (''TIMEOUT'', ''The operation timed out. Check the server and network.'')
      | EAGAIN \<Rightarrow> (''TIMEOUT'', ''The operation timed out. Check the server and network.'')
      | ENETUNREACH \<Rightarrow> (''UNREACHABLE'', ''Check the host address, network route and firewall.'')
      | EHOSTUNREACH \<Rightarrow> (''UNREACHABLE'', ''Check the host address, network route and firewall.'')
      | ECONNRESET \<Rightarrow> (''CONNECTION_LOST'', ''The peer closed or reset the connection.'')
      | EPIPE \<Rightarrow> (''CONNECTION_LOST'', ''The peer closed or reset the connection.'')
      | EADDRNOTAVAIL \<Rightarrow> (''ADDRESS_UNAVAILABLE'', ''Check that the address belongs to this machine.'')
      | _ \<Rightarrow> (''NETWORK_ERROR'', []))"

text \<open>The system's text for an error number is a parameter.\<close>

definition DescribeError :: "(errno \<Rightarrow> string) \<Rightarrow> string \<Rightarrow> string \<Rightarrow> errno \<Rightarrow> string" where
  "DescribeError strerror operation endpoint e =
     (case error_hint e of (category, hint) \<Rightarrow>
        category @ '': '' @ operation @ '' '' @ endpoint @ '': '' @ strerror e
        @ (if hint \<noteq> [] then ''. '' @ hint else []))"

section \<open>Connections\<close>

datatype client_send = Took nat | Write_error errno

text \<open>\<open>Arrived []\<close> is a \<open>recv\<close> that returns 0: the peer has closed.\<close>

datatype client_recv = Arrived string | Read_error errno

record connection =
  cn_sends :: "client_send list"
  cn_recvs :: "client_recv list"
  cn_sent :: string

text \<open>What \<open>connect\<close> answers on a socket that does not block, and one round of the wait for it: the
  milliseconds left of the five seconds, and the answer of \<open>poll\<close>, with the error of the socket once it is ready.\<close>

datatype connect_answer = Connect_done | Connect_in_progress | Connect_error errno

datatype poll_answer = Poll_timeout | Poll_error errno | Poll_ready "errno option"

record connecting =
  cg_nonblocking :: "errno option"
  cg_connect :: connect_answer
  cg_polls :: "(int \<times> poll_answer) list"
  cg_restore :: "errno option"

fun await_connect :: "(int \<times> poll_answer) list \<Rightarrow> errno option" where
  "await_connect [] = Some ETIMEDOUT"
| "await_connect ((remaining, ready) # rest) =
     (if remaining \<le> 0 then Some ETIMEDOUT
      else case ready of
        Poll_timeout \<Rightarrow> Some ETIMEDOUT
      | Poll_error e \<Rightarrow> if e = EINTR then await_connect rest else Some e
      | Poll_ready e \<Rightarrow> e)"

text \<open>The error, \<open>None\<close> for 0.\<close>

definition ConnectWithTimeout :: "connecting \<Rightarrow> errno option" where
  "ConnectWithTimeout cg =
     (case cg_nonblocking cg of
        Some e \<Rightarrow> Some e
      | None \<Rightarrow>
          (case (case cg_connect cg of
                   Connect_done \<Rightarrow> None
                 | Connect_in_progress \<Rightarrow> await_connect (cg_polls cg)
                 | Connect_error e \<Rightarrow> Some e) of
             Some e \<Rightarrow> Some e
           | None \<Rightarrow> cg_restore cg))"

text \<open>An attempt to connect: the name is not resolved, or each address gets a socket and is connected or not,
  until one is, and the timeouts of that socket are set or not.\<close>

datatype address_answer = No_socket errno | Socket connecting

datatype dial = Dns_error string | Dial "address_answer list" "errno option" "client_send list" "client_recv list"

record Client =
  cl_host :: string
  cl_port :: u16
  cl_strerror :: "errno \<Rightarrow> string"
  cl_dials :: "dial list"
  cl_socket :: "connection option"
  next_id :: u64

definition endpoint :: "Client \<Rightarrow> string" where
  "endpoint cl = cl_host cl @ '':'' @ to_dec (unat (cl_port cl))"

definition new_Client :: "string \<Rightarrow> u16 \<Rightarrow> (errno \<Rightarrow> string) \<Rightarrow> dial list \<Rightarrow> string + Client" where
  "new_Client host port strerror dials =
     (if host = [] then Inl ''INVALID_HOST: host cannot be empty''
      else if port = 0 then Inl ''INVALID_PORT: port must be between 1 and 65535''
      else Inr \<lparr>cl_host = host, cl_port = port, cl_strerror = strerror, cl_dials = dials, cl_socket = None, next_id = 1\<rparr>)"

definition Client_Close :: "Client \<Rightarrow> Client" where
  "Client_Close cl = cl\<lparr>cl_socket := None\<rparr>"

text \<open>The loop over the addresses of \<open>Open\<close>: the error of the last one that failed, or \<open>None\<close> once one
  is connected.\<close>

fun try_addresses :: "errno \<Rightarrow> address_answer list \<Rightarrow> errno option" where
  "try_addresses last_error [] = Some last_error"
| "try_addresses last_error (No_socket e # rest) = try_addresses e rest"
| "try_addresses last_error (Socket cg # rest) =
     (case ConnectWithTimeout cg of None \<Rightarrow> None | Some e \<Rightarrow> try_addresses e rest)"

definition Client_Open :: "Client \<Rightarrow> (string + unit) \<times> Client" where
  "Client_Open cl =
     (if cl_socket cl \<noteq> None then (Inr (), cl)
      else
        let cl1 = cl\<lparr>cl_dials := tl (cl_dials cl)\<rparr>
        in case (if cl_dials cl = [] then Dial [] None [] [] else hd (cl_dials cl)) of
             Dns_error reason \<Rightarrow>
               (Inl (''DNS_ERROR: cannot resolve '' @ endpoint cl @ '': '' @ reason
                     @ ''. Check the host name or use an IP address.''), cl1)
           | Dial addresses options sends recvs \<Rightarrow>
               (case try_addresses ECONNREFUSED addresses of
                  Some e \<Rightarrow> (Inl (DescribeError (cl_strerror cl) ''connect to'' (endpoint cl) e), cl1)
                | None \<Rightarrow>
                    (case options of
                       Some e \<Rightarrow> (Inl (DescribeError (cl_strerror cl) ''set timeout for'' (endpoint cl) e), Client_Close cl1)
                     | None \<Rightarrow>
                         (Inr (), cl1\<lparr>cl_socket := Some \<lparr>cn_sends = sends, cn_recvs = recvs, cn_sent = []\<rparr>\<rparr>))))"

fun read_bytes :: "nat \<Rightarrow> client_recv list \<Rightarrow> (errno option + string) \<times> client_recv list" where
  "read_bytes n [] = (if n = 0 then (Inr [], []) else (Inl (Some EAGAIN), []))"
| "read_bytes n (r # rs) =
     (if n = 0 then (Inr [], r # rs)
      else case r of
        Arrived b \<Rightarrow>
          (if b = [] then (Inl None, rs)
           else if n < length b then (Inr (take n b), Arrived (drop n b) # rs)
           else case read_bytes (n - length b) rs of
             (Inl e, rs') \<Rightarrow> (Inl e, rs')
           | (Inr s, rs') \<Rightarrow> (Inr (b @ s), rs'))
      | Read_error e \<Rightarrow> if e = EINTR then read_bytes n rs else (Inl (Some e), rs))"

fun send_bytes :: "string \<Rightarrow> client_send list \<Rightarrow> (errno + unit) \<times> string \<times> client_send list" where
  "send_bytes data [] = (if data = [] then (Inr (), [], []) else (Inl EAGAIN, [], []))"
| "send_bytes data (r # rs) =
     (if data = [] then (Inr (), [], r # rs)
      else case r of
        Took n \<Rightarrow>
          (if n = 0 then (Inl EPIPE, [], rs)
           else case send_bytes (drop n data) rs of (res, out, rs') \<Rightarrow> (res, take n data @ out, rs'))
      | Write_error e \<Rightarrow> if e = EINTR then send_bytes data rs else (Inl e, [], rs))"

text \<open>\<open>ReadAll\<close> and \<open>SendAll\<close> on an open connection.\<close>

definition ReadAll :: "Client \<Rightarrow> nat \<Rightarrow> connection \<Rightarrow> (string + string) \<times> connection" where
  "ReadAll cl n cn =
     (case read_bytes n (cn_recvs cn) of
        (Inr s, rs) \<Rightarrow> (Inr s, cn\<lparr>cn_recvs := rs\<rparr>)
      | (Inl None, rs) \<Rightarrow>
          (Inl (''CONNECTION_CLOSED: '' @ endpoint cl @ '' closed before the complete response was received.''),
           cn\<lparr>cn_recvs := rs\<rparr>)
      | (Inl (Some e), rs) \<Rightarrow> (Inl (DescribeError (cl_strerror cl) ''read from'' (endpoint cl) e), cn\<lparr>cn_recvs := rs\<rparr>))"

definition SendAll :: "Client \<Rightarrow> string \<Rightarrow> connection \<Rightarrow> (string + unit) \<times> connection" where
  "SendAll cl data cn =
     (case send_bytes data (cn_sends cn) of
        (res, out, rs) \<Rightarrow>
          ((case res of Inr u \<Rightarrow> Inr u | Inl e \<Rightarrow> Inl (DescribeError (cl_strerror cl) ''write to'' (endpoint cl) e)),
           cn\<lparr>cn_sends := rs, cn_sent := cn_sent cn @ out\<rparr>))"

section \<open>A request and its reply\<close>

definition kBinaryPayload :: u8 where "kBinaryPayload = 0x20"

definition request_frame :: "u64 \<Rightarrow> string \<Rightarrow> string" where
  "request_frame rid payload =
     EncodeFrame (new_header Msg_Request (or kEndStream kBinaryPayload) rid 1 (length payload)) payload"

text \<open>Everything between the opening and the reply: the bytes of the reply's payload, or the text of the
  exception. The header is 24 bytes long, so both of its fields are there.\<close>

definition exchange :: "Client \<Rightarrow> u64 \<Rightarrow> string \<Rightarrow> connection \<Rightarrow> (string + string) \<times> connection" where
  "exchange cl req_num payload cn =
     (case SendAll cl (request_frame req_num payload) cn of
        (Inl e, cn1) \<Rightarrow> (Inl e, cn1)
      | (Inr _, cn1) \<Rightarrow>
          (case ReadAll cl kHeaderSize cn1 of
             (Inl e, cn2) \<Rightarrow> (Inl e, cn2)
           | (Inr header_buf, cn2) \<Rightarrow>
               (case (get16 header_buf, get32 (drop 20 header_buf)) of
                  (Some (m, _), Some (len, _)) \<Rightarrow>
                    if m \<noteq> kMagic then (Inl (''INVALID_MAGIC: expected GKWP/2 magic from '' @ endpoint cl), cn2)
                    else if unat len > kMaxPayloadLength
                    then (Inl (''INVALID_FRAME: response from '' @ endpoint cl @ '' declares '' @ to_dec (unat len)
                               @ '' bytes; exceeds limit.''), cn2)
                    else ReadAll cl (unat len) cn2
                | _ \<Rightarrow> (Inl [], cn2))))"

definition ExecuteBinary :: "string \<Rightarrow> Client \<Rightarrow> (string + string) \<times> Client" where
  "ExecuteBinary payload cl =
     (case Client_Open cl of
        (Inl e, cl1) \<Rightarrow> (Inl e, cl1)
      | (Inr _, cl1) \<Rightarrow>
          (case cl_socket cl1 of
             None \<Rightarrow> (Inl [], cl1)
           | Some cn \<Rightarrow>
               let cl2 = cl1\<lparr>next_id := next_id cl1 + 1\<rparr>
               in case exchange cl2 (next_id cl1) payload cn of
                    (Inl e, cn') \<Rightarrow> (Inl e, Client_Close cl2)
                  | (Inr response, cn') \<Rightarrow> (Inr response, cl2\<lparr>cl_socket := Some cn'\<rparr>)))"

section \<open>From operations to requests\<close>

text \<open>A field of the JSON body of an operation, found by its text: a quoted value ends at the next quote,
  another one at the next comma or brace.\<close>

definition is_blank :: "char \<Rightarrow> bool" where
  "is_blank c \<longleftrightarrow> c = CHR '' '' \<or> c = CHR 0x09"

definition ExtractField :: "string \<Rightarrow> string \<Rightarrow> string" where
  "ExtractField json field =
     (let search = [CHR 0x22] @ field @ [CHR 0x22] @ '':''
      in case str_find search json 0 of
           None \<Rightarrow> []
         | Some pos \<Rightarrow>
             (case dropWhile is_blank (drop (pos + length search) json) of
                [] \<Rightarrow> []
              | c # rest \<Rightarrow>
                  if c = CHR 0x22
                  then (if CHR 0x22 \<in> set rest then takeWhile (\<lambda>d. d \<noteq> CHR 0x22) rest else [])
                  else takeWhile (\<lambda>d. d \<noteq> CHR '','' \<and> d \<noteq> CHR ''}'') (c # rest)))"

text \<open>The conversions of numbers throw; \<open>std::stoi\<close> also rejects what does not fit 32 bits.\<close>

definition with_stoull :: "string \<Rightarrow> (u64 \<Rightarrow> string + 'a) \<Rightarrow> string + 'a" where
  "with_stoull s k = (case stoull s of None \<Rightarrow> Inl ''stoull'' | Some (n, _) \<Rightarrow> k n)"

definition with_stoll :: "string \<Rightarrow> (i64 \<Rightarrow> string + 'a) \<Rightarrow> string + 'a" where
  "with_stoll s k = (case stoll s of None \<Rightarrow> Inl ''stoll'' | Some (n, _) \<Rightarrow> k n)"

definition with_stoi :: "string \<Rightarrow> (32 word \<Rightarrow> string + 'a) \<Rightarrow> string + 'a" where
  "with_stoi s k =
     (case stoll s of
        None \<Rightarrow> Inl ''stoi''
      | Some (n, _) \<Rightarrow> if sint n < - (2 ^ 31) \<or> sint n \<ge> 2 ^ 31 then Inl ''stoi'' else k (ucast n))"

definition ttl_field :: "string \<Rightarrow> (u64 \<Rightarrow> string + 'a) \<Rightarrow> string + 'a" where
  "ttl_field body k =
     (let ttl_str = ExtractField body ''ttl_ms'' in if ttl_str = [] then k 0 else with_stoull ttl_str k)"

definition condition_field :: "string \<Rightarrow> SetCondition" where
  "condition_field body =
     (if str_find ([CHR 0x22] @ ''if_not_exists'' @ [CHR 0x22] @ '':true'') body 0 \<noteq> None then Set_IfAbsent
      else if str_find ([CHR 0x22] @ ''if_exists'' @ [CHR 0x22] @ '':true'') body 0 \<noteq> None then Set_IfPresent
      else Set_Always)"

text \<open>The request of an operation, with the opcode that selects how its reply is shown.\<close>

definition binary_request :: "string \<Rightarrow> string \<Rightarrow> string + BinaryOpcode \<times> string" where
  "binary_request operation body =
     (let field = ExtractField body; key = ExtractField body ''key''
      in if operation = ''PING'' then Inr (Op_Ping, EncodePing)
         else if operation = ''GET'' then Inr (Op_Get, EncodeGet key)
         else if operation = ''SET'' then
           ttl_field body (\<lambda>ttl. Inr (Op_Set, EncodeSet key (field ''value'') (condition_field body) ttl))
         else if operation = ''DEL'' then Inr (Op_Del, EncodeDel key)
         else if operation = ''EXISTS'' then Inr (Op_Exists, EncodeExists key)
         else if operation = ''TYPE'' then Inr (Op_Type, EncodeType key)
         else if operation = ''EXPIRE'' \<or> operation = ''PEXPIRE'' then
           ttl_field body (\<lambda>ttl. Inr (Op_Expire, EncodeExpire key ttl))
         else if operation = ''TTL'' \<or> operation = ''PTTL'' then Inr (Op_Ttl, EncodeTtl key)
         else if operation = ''INCR'' then Inr (Op_Incr, EncodeIncrBy key 1 0)
         else if operation = ''DECR'' then Inr (Op_Incr, EncodeIncrBy key (- 1) 0)
         else if operation = ''INCRBY'' then
           (if field ''delta'' = [] then ttl_field body (\<lambda>ttl. Inr (Op_Incr, EncodeIncrBy key 1 ttl))
            else with_stoll (field ''delta'') (\<lambda>delta. ttl_field body (\<lambda>ttl. Inr (Op_Incr, EncodeIncrBy key delta ttl))))
         else if operation = ''GK.RATE_LIMIT'' then
           with_stoull (field ''limit'') (\<lambda>limit. with_stoull (field ''window_ms'') (\<lambda>win.
             Inr (Op_RateLimit, EncodeRateLimit key limit win 1)))
         else if operation = ''GK.QUOTA_INIT'' then
           with_stoull (field ''amount'') (\<lambda>amt. Inr (Op_QuotaInit, EncodeQuotaInit key amt))
         else if operation = ''GK.QUOTA_GET'' then Inr (Op_QuotaGet, EncodeQuotaGet key)
         else if operation = ''GK.RESERVE'' then
           with_stoull (field ''amount'') (\<lambda>amt. with_stoull (field ''ttl_ms'') (\<lambda>ttl.
             Inr (Op_Reserve, EncodeReserve key amt ttl)))
         else if operation = ''GK.COMMIT'' then
           with_stoull (field ''actual_amount'') (\<lambda>act.
             Inr (Op_Commit, EncodeCommit key (field ''reservation_id'') act))
         else if operation = ''GK.ROLLBACK'' then Inr (Op_Rollback, EncodeRollback key (field ''reservation_id''))
         else if operation = ''GK.IDEM_BEGIN'' then
           ttl_field body (\<lambda>ttl.
             Inr (Op_IdemBegin, EncodeIdemBegin key (field ''request_hash'') ttl (field ''owner_token'')))
         else if operation = ''GK.IDEM_COMPLETE'' then
           with_stoi (field ''response_code'') (\<lambda>rcode.
             Inr (Op_IdemComplete, EncodeIdemComplete key (field ''owner_token'') rcode (field ''response_body'')))
         else if operation = ''GK.IDEM_FAIL'' then
           Inr (Op_IdemFail, EncodeIdemFail key (field ''owner_token'') (field ''error_message''))
         else Inl (''unsupported operation for binary protocol: '' @ operation))"

section \<open>From replies to texts\<close>

definition integer_text :: "i64 \<Rightarrow> string" where
  "integer_text w = ''(integer) '' @ to_string_i64 w"

text \<open>A big-endian field of the reply at an offset, once the length has been tested.\<close>

definition u64_at :: "nat \<Rightarrow> string \<Rightarrow> u64" where
  "u64_at i resp = (case get64 (drop i resp) of None \<Rightarrow> 0 | Some (n, _) \<Rightarrow> n)"

definition u32_at :: "nat \<Rightarrow> string \<Rightarrow> u32" where
  "u32_at i resp = (case get32 (drop i resp) of None \<Rightarrow> 0 | Some (n, _) \<Rightarrow> n)"

definition u16_at :: "nat \<Rightarrow> string \<Rightarrow> u16" where
  "u16_at i resp = (case get16 (drop i resp) of None \<Rightarrow> 0 | Some (n, _) \<Rightarrow> n)"

definition substr :: "nat \<Rightarrow> nat \<Rightarrow> string \<Rightarrow> string" where
  "substr i n s = take n (drop i s)"

definition show_Get :: "string \<Rightarrow> string" where
  "show_Get resp =
     (if length resp < 5 then ''(nil)''
      else let val_len = u32_at 1 resp
           in if length resp < unat (5 + val_len) then ''(nil)'' else QuoteJson (substr 5 (unat val_len) resp))"

definition show_flag :: "string \<Rightarrow> string" where
  "show_flag resp =
     (if length resp < 2 then ''(integer) 0'' else if resp ! 1 \<noteq> CHR 0x00 then ''(integer) 1'' else ''(integer) 0'')"

definition show_Type :: "string \<Rightarrow> string" where
  "show_Type resp =
     (if length resp < 3 then ''none''
      else let tlen = unat (u16_at 1 resp) in if length resp < 3 + tlen then ''none'' else substr 3 tlen resp)"

definition show_RateLimit :: "string \<Rightarrow> string" where
  "show_RateLimit resp =
     (if length resp < 18 then ''(error) invalid rate limit response''
      else ''allowed='' @ (if resp ! 1 = CHR 0x01 then ''1'' else ''0'') @ '' remaining='' @ to_string_u64 (u64_at 2 resp)
           @ '' retry_after_ms='' @ to_string_u64 (u64_at 10 resp))"

definition show_Reserve :: "string \<Rightarrow> string" where
  "show_Reserve resp =
     (if length resp < 12 then ''(error) invalid reserve response''
      else let rlen = unat (u16_at 10 resp);
               res_id = (if length resp \<ge> 12 + rlen then substr 12 rlen resp else [])
           in ''reserved='' @ (if resp ! 1 = CHR 0x01 then ''1'' else ''0'') @ '' reservation_id='' @ QuoteJson res_id
              @ '' remaining='' @ to_string_u64 (u64_at 2 resp))"

definition show_settled :: "string \<Rightarrow> string \<Rightarrow> string \<Rightarrow> string" where
  "show_settled invalid settled resp =
     (if length resp < 18 then invalid
      else settled @ '' refunded='' @ to_string_u64 (u64_at 2 resp) @ '' remaining='' @ to_string_u64 (u64_at 10 resp))"

definition show_IdemBegin :: "string \<Rightarrow> string" where
  "show_IdemBegin resp =
     (if length resp < 4 then ''(error) invalid idem begin response''
      else let act = resp ! 1;
               act_str = (if act = CHR 0x00 then ''EXECUTE'' else if act = CHR 0x01 then ''PARK''
                          else if act = CHR 0x02 then ''REPLAY'' else ''CONFLICT'');
               olen = unat (u16_at 2 resp);
               token = (if length resp \<ge> 4 + olen then substr 4 olen resp else [])
           in ''action='' @ act_str @ '' owner_token='' @ QuoteJson token)"

definition DecodeBinaryResponseToText :: "BinaryOpcode \<Rightarrow> string \<Rightarrow> string" where
  "DecodeBinaryResponseToText opc resp =
     (case resp of
        [] \<Rightarrow> ''(error) empty response''
      | status_byte # _ \<Rightarrow>
          if status_byte = CHR 0x01 then ''(error) ERR_EXECUTION_FAILED''
          else if status_byte = CHR 0x02 then ''(nil)''
          else if status_byte = CHR 0x04 then ''(error) ERR_IDEMPOTENCY_CONFLICT''
          else (case opc of
            Op_Ping \<Rightarrow> ''PONG''
          | Op_Set \<Rightarrow> ''OK''
          | Op_QuotaInit \<Rightarrow> ''OK''
          | Op_Get \<Rightarrow> show_Get resp
          | Op_Del \<Rightarrow> show_flag resp
          | Op_Exists \<Rightarrow> show_flag resp
          | Op_Expire \<Rightarrow> show_flag resp
          | Op_Type \<Rightarrow> show_Type resp
          | Op_Ttl \<Rightarrow> if length resp < 9 then ''(integer) -2'' else integer_text (u64_at 1 resp)
          | Op_Incr \<Rightarrow> if length resp < 9 then ''(integer) 0'' else integer_text (u64_at 1 resp)
          | Op_QuotaGet \<Rightarrow>
              if length resp < 9 then ''(integer) 0'' else ''(integer) '' @ to_string_u64 (u64_at 1 resp)
          | Op_RateLimit \<Rightarrow> show_RateLimit resp
          | Op_Reserve \<Rightarrow> show_Reserve resp
          | Op_Commit \<Rightarrow> show_settled ''(error) invalid commit response'' ''committed=1'' resp
          | Op_Rollback \<Rightarrow> show_settled ''(error) invalid rollback response'' ''rolled_back=1'' resp
          | Op_IdemBegin \<Rightarrow> show_IdemBegin resp
          | Op_IdemComplete \<Rightarrow> ''completed=1''
          | Op_IdemFail \<Rightarrow> ''failed=1''
          | _ \<Rightarrow> ''OK''))"

definition Client_Execute :: "string \<Rightarrow> string \<Rightarrow> Client \<Rightarrow> (string + string) \<times> Client" where
  "Client_Execute operation body cl =
     (case binary_request operation body of
        Inl e \<Rightarrow> (Inl e, cl)
      | Inr (opc, bin_req) \<Rightarrow>
          (case ExecuteBinary bin_req cl of
             (Inl e, cl') \<Rightarrow> (Inl e, cl')
           | (Inr raw_resp, cl') \<Rightarrow> (Inr (DecodeBinaryResponseToText opc raw_resp), cl')))"

section \<open>What the user should see\<close>

fun call_op :: "bin_call \<Rightarrow> BinaryOpcode" where
  "call_op B_Ping = Op_Ping"
| "call_op (B_Get k) = Op_Get"
| "call_op (B_Set k v c ttl) = Op_Set"
| "call_op (B_Del k) = Op_Del"
| "call_op (B_Exists k) = Op_Exists"
| "call_op (B_Type k) = Op_Type"
| "call_op (B_Expire k ttl) = Op_Expire"
| "call_op (B_Ttl k) = Op_Ttl"
| "call_op (B_IncrBy k d ttl) = Op_Incr"
| "call_op (B_RateLimit k l w c) = Op_RateLimit"
| "call_op (B_QuotaInit k a) = Op_QuotaInit"
| "call_op (B_QuotaGet k) = Op_QuotaGet"
| "call_op (B_Reserve k a ttl) = Op_Reserve"
| "call_op (B_Commit k r a) = Op_Commit"
| "call_op (B_Rollback k r) = Op_Rollback"
| "call_op (B_IdemBegin k h ttl tok) = Op_IdemBegin"
| "call_op (B_IdemComplete k tok c b) = Op_IdemComplete"
| "call_op (B_IdemFail k tok m) = Op_IdemFail"

definition failed_text :: string where
  "failed_text = ''(error) ERR_EXECUTION_FAILED''"

definition bit_text :: "bool \<Rightarrow> string" where
  "bit_text b = (if b then ''1'' else ''0'')"

fun action_text :: "IdempotencyAction \<Rightarrow> string" where
  "action_text Execute = ''EXECUTE''"
| "action_text Park = ''PARK''"
| "action_text Replay = ''REPLAY''"
| "action_text Conflict = ''CONFLICT''"

text \<open>The text of a result, without reference to how it travels.\<close>

fun shown :: "bin_call \<Rightarrow> bin_answer \<Rightarrow> string" where
  "shown c A_Pong = ''PONG''"
| "shown c (A_Value v) = (case v of None \<Rightarrow> ''(nil)'' | Some s \<Rightarrow> QuoteJson s)"
| "shown c (A_Stored b) = (if b then ''OK'' else ''(nil)'')"
| "shown c (A_Flag b) = ''(integer) '' @ bit_text b"
| "shown c (A_Type t) = (if t = DataType_String then ''string'' else ''none'')"
| "shown c (A_Number n) = ''(integer) '' @ (if call_op c = Op_Ttl then to_string_i64 n else to_string_u64 n)"
| "shown c A_Done = ''OK''"
| "shown c (A_Incr r) = (if incr_ok r then ''(integer) '' @ to_string_i64 (incr_value r) else failed_text)"
| "shown c (A_Rate r) =
     (if rl_ok r
      then ''allowed='' @ bit_text (allowed r) @ '' remaining='' @ to_string_u64 (rl_remaining r)
           @ '' retry_after_ms='' @ to_string_u64 (retry_after_ms r)
      else failed_text)"
| "shown c (A_Reserve r) =
     (if rv_ok r
      then ''reserved='' @ bit_text (reserved r) @ '' reservation_id='' @ QuoteJson (reservation_id r)
           @ '' remaining='' @ to_string_u64 (rv_remaining r)
      else failed_text)"
| "shown c (A_Commit r) =
     (if cm_ok r
      then ''committed=1 refunded='' @ to_string_u64 (cm_refunded r) @ '' remaining='' @ to_string_u64 (cm_remaining r)
      else failed_text)"
| "shown c (A_Rollback r) =
     (if rb_ok r
      then ''rolled_back=1 refunded='' @ to_string_u64 (rb_refunded r) @ '' remaining='' @ to_string_u64 (rb_remaining r)
      else failed_text)"
| "shown c (A_Begin r) =
     (if ib_ok r then ''action='' @ action_text (ib_action r) @ '' owner_token='' @ QuoteJson (ib_owner_token r)
      else if ib_action r = Conflict then ''(error) ERR_IDEMPOTENCY_CONFLICT'' else failed_text)"
| "shown c (A_Settled b) =
     (if b then (if call_op c = Op_IdemComplete then ''completed=1'' else ''failed=1'') else failed_text)"

text \<open>The strings of an answer whose lengths the reply can express.\<close>

fun answer_fits :: "bin_answer \<Rightarrow> bool" where
  "answer_fits (A_Value (Some v)) \<longleftrightarrow> length v < 2 ^ 32 - 5"
| "answer_fits (A_Reserve r) \<longleftrightarrow> short (reservation_id r)"
| "answer_fits (A_Begin r) \<longleftrightarrow> short (ib_owner_token r)"
| "answer_fits _ \<longleftrightarrow> True"

lemma small_chars [simp]:
  "char_of (0::nat) = CHR 0x00" "char_of (Suc 0) = CHR 0x01" "char_of (2::nat) = CHR 0x02" "char_of (3::nat) = CHR 0x03"
  "char_of (4::nat) = CHR 0x04"
  by code_simp+

lemma status_bytes [simp]:
  "status_only St_Ok = [CHR 0x00]" "status_only St_Error = [CHR 0x01]" "status_only St_NotFound = [CHR 0x02]"
  "status_only St_Conflict = [CHR 0x04]"
  by (simp_all add: status_only_def put8_def)

lemma flag_byte [simp]: "put_flag b = [if b then CHR 0x01 else CHR 0x00]"
  by (simp add: put_flag_def put8_def)

lemma action_byte_put [simp]:
  "put8 (action_byte a)
   = [case a of Execute \<Rightarrow> CHR 0x00 | Park \<Rightarrow> CHR 0x01 | Replay \<Rightarrow> CHR 0x02 | Conflict \<Rightarrow> CHR 0x03]"
  by (cases a) (simp_all add: put8_def)

lemmas shown_simps = DecodeBinaryResponseToText_def show_Get_def show_flag_def show_Type_def show_RateLimit_def
  show_Reserve_def show_settled_def show_IdemBegin_def integer_text_def failed_text_def bit_text_def substr_def
  u64_at_def u32_at_def u16_at_def put_str16_def put_str32_def length_put get_put get_end short_def

lemma DecodeBinaryResponseToText_answer:
  assumes "answer_fits (fst (bin_exec env c st))"
  shows "DecodeBinaryResponseToText (call_op c) (encode_answer (fst (bin_exec env c st)))
    = shown c (fst (bin_exec env c st))"
proof (cases c)
  case (B_Get k)
  obtain v where v: "fst (bin_exec env c st) = A_Value v" using B_Get by simp
  show ?thesis
  proof (cases v)
    case (Some x)
    have "unat (5 + of_nat (length x) :: u32) = length x + 5" if "length x < 4294967291"
      using that by (simp add: unat_word_ariths unat_of_nat take_bit_nat_def)
    then show ?thesis using assms B_Get v Some by (simp add: shown_simps unat_of_nat_32)
  qed (use B_Get v in \<open>simp add: shown_simps\<close>)
next
  case (B_IdemBegin k h ttl tok)
  then show ?thesis using assms
    by (auto simp: shown_simps unat_of_nat_16 split: IdempotencyAction.splits)
qed (use assms in \<open>auto simp: shown_simps unat_of_nat_16\<close>)

section \<open>Over the network\<close>

text \<open>The bytes a connection delivers, and a connection that delivers and takes without failing.\<close>

definition arrivals :: "client_recv list \<Rightarrow> string" where
  "arrivals rs = concat (map (\<lambda>r. case r of Arrived b \<Rightarrow> b | Read_error _ \<Rightarrow> []) rs)"

definition reads_well :: "client_recv list \<Rightarrow> bool" where
  "reads_well rs \<longleftrightarrow> list_all (\<lambda>r. case r of Arrived b \<Rightarrow> b \<noteq> [] | Read_error e \<Rightarrow> e = EINTR) rs"

text \<open>Every call of \<open>send\<close> takes something or is interrupted, and there are enough of them for \<open>n\<close> bytes.\<close>

definition sends_well :: "nat \<Rightarrow> client_send list \<Rightarrow> bool" where
  "sends_well n rs \<longleftrightarrow>
     list_all (\<lambda>r. case r of Took k \<Rightarrow> 0 < k | Write_error e \<Rightarrow> e = EINTR) rs
     \<and> n \<le> length (filter (\<lambda>r. case r of Took _ \<Rightarrow> True | Write_error _ \<Rightarrow> False) rs)"

lemma arrivals_simps [simp]:
  "arrivals [] = []" "arrivals (Arrived b # rs) = b @ arrivals rs" "arrivals (Read_error e # rs) = arrivals rs"
  by (simp_all add: arrivals_def)

lemma reads_well_simps [simp]:
  "reads_well []" "reads_well (Arrived b # rs) \<longleftrightarrow> b \<noteq> [] \<and> reads_well rs"
  "reads_well (Read_error e # rs) \<longleftrightarrow> e = EINTR \<and> reads_well rs"
  by (simp_all add: reads_well_def)

lemma read_bytes_Cons:
  "read_bytes 0 rs = (Inr [], rs)"
  "0 < n \<Longrightarrow> read_bytes n (Read_error e # rs) = (if e = EINTR then read_bytes n rs else (Inl (Some e), rs))"
  "0 < n \<Longrightarrow> read_bytes n (Arrived [] # rs) = (Inl None, rs)"
  "n < length b \<Longrightarrow> 0 < n \<Longrightarrow> read_bytes n (Arrived b # rs) = (Inr (take n b), Arrived (drop n b) # rs)"
  "length b \<le> n \<Longrightarrow> b \<noteq> [] \<Longrightarrow> read_bytes n (Arrived b # rs) =
     (case read_bytes (n - length b) rs of (Inl e, rs') \<Rightarrow> (Inl e, rs') | (Inr s, rs') \<Rightarrow> (Inr (b @ s), rs'))"
  by (cases rs) (auto simp: not_less)

lemma read_bytes_arrivals:
  "read_bytes n rs = (Inr s, rs') \<Longrightarrow> length s = n \<and> arrivals rs = s @ arrivals rs' \<and> (reads_well rs \<longrightarrow> reads_well rs')"
proof (induction rs arbitrary: n s rs')
  case (Cons r rs)
  show ?case
  proof (cases "n = 0")
    case False
    then show ?thesis
    proof (cases r)
      case (Arrived b)
      consider "b = []" | "n < length b" | "length b \<le> n" "b \<noteq> []" by fastforce
      then show ?thesis
      proof cases
        case 3
        obtain s' where "read_bytes (n - length b) rs = (Inr s', rs')" "s = b @ s'"
          using Cons.prems 3 Arrived by (auto simp del: read_bytes.simps simp: read_bytes_Cons split: prod.splits sum.splits)
        then show ?thesis using Cons.IH 3 Arrived by fastforce
      qed (use Cons.prems False Arrived in \<open>auto simp del: read_bytes.simps simp: read_bytes_Cons\<close>)
    qed (use Cons.prems Cons.IH in \<open>auto simp del: read_bytes.simps simp: read_bytes_Cons split: if_splits\<close>)
  qed (use Cons.prems in \<open>simp add: read_bytes_Cons\<close>)
qed (auto split: if_splits)

lemma read_bytes_complete: "reads_well rs \<Longrightarrow> n \<le> length (arrivals rs) \<Longrightarrow> \<exists>s rs'. read_bytes n rs = (Inr s, rs')"
proof (induction rs arbitrary: n)
  case (Cons r rs)
  show ?case
  proof (cases "n = 0")
    case False
    then show ?thesis
    proof (cases r)
      case (Arrived b)
      then have "n < length b \<or> length b \<le> n \<and> b \<noteq> [] \<and> (\<exists>s rs'. read_bytes (n - length b) rs = (Inr s, rs'))"
        using Cons.prems Cons.IH [of "n - length b"] by fastforce
      then show ?thesis using Arrived False by (auto simp del: read_bytes.simps simp: read_bytes_Cons)
    qed (use Cons in \<open>auto simp del: read_bytes.simps simp: read_bytes_Cons\<close>)
  qed (simp add: read_bytes_Cons)
qed (simp add: read_bytes_Cons)

lemma send_bytes_Cons:
  "send_bytes [] rs = (Inr (), [], rs)"
  "data \<noteq> [] \<Longrightarrow> send_bytes data (Write_error e # rs) = (if e = EINTR then send_bytes data rs else (Inl e, [], rs))"
  "data \<noteq> [] \<Longrightarrow> send_bytes data (Took 0 # rs) = (Inl EPIPE, [], rs)"
  "data \<noteq> [] \<Longrightarrow> 0 < n \<Longrightarrow> send_bytes data (Took n # rs) =
     (case send_bytes (drop n data) rs of (res, out, rs') \<Rightarrow> (res, take n data @ out, rs'))"
  by (cases rs) auto

lemma send_bytes_prefix: "send_bytes data rs = (res, out, rs') \<Longrightarrow> prefix out data \<and> (\<not> isl res \<longrightarrow> out = data)"
proof (induction rs arbitrary: data res out rs')
  case (Cons r rs)
  show ?case
  proof (cases "data = []")
    case False
    then show ?thesis
    proof (cases r)
      case (Took n)
      show ?thesis
      proof (cases "n = 0")
        case n: False
        obtain out' where out: "send_bytes (drop n data) rs = (res, out', rs')" "out = take n data @ out'"
          using Cons.prems False n Took
          by (auto simp del: send_bytes.simps simp: send_bytes_Cons split: prod.splits)
        have "prefix (take n data @ out') (take n data @ drop n data)"
          unfolding same_prefix_prefix using Cons.IH [OF out(1)] by blast
        then show ?thesis using Cons.IH [OF out(1)] out(2) by auto
      qed (use Cons.prems False Took in \<open>auto simp del: send_bytes.simps simp: send_bytes_Cons\<close>)
    qed (use Cons in \<open>auto simp del: send_bytes.simps simp: send_bytes_Cons split: if_splits\<close>)
  qed (use Cons.prems in \<open>simp add: send_bytes_Cons\<close>)
qed (auto split: if_splits)

lemma send_bytes_complete:
  "sends_well (length data + n) rs \<Longrightarrow> \<exists>rs'. send_bytes data rs = (Inr (), data, rs') \<and> sends_well n rs'"
proof (induction rs arbitrary: data)
  case (Cons r rs)
  show ?case
  proof (cases "data = []")
    case False
    then show ?thesis
    proof (cases r)
      case (Took k)
      then have "sends_well (length (drop k data) + n) rs" "0 < k"
        using Cons.prems False by (auto simp: sends_well_def diff_le_mono2 Suc_le_eq neq_Nil_conv)
      then show ?thesis using Cons.IH [of "drop k data"] False Took
        by (auto simp del: send_bytes.simps simp: send_bytes_Cons case_prod_beta)
    qed (use Cons in \<open>auto simp del: send_bytes.simps simp: send_bytes_Cons sends_well_def\<close>)
  qed (use Cons.prems in \<open>auto simp: send_bytes_Cons\<close>)
qed (auto simp: sends_well_def)

declare read_bytes.simps [simp del] send_bytes.simps [simp del]

subsection \<open>One exchange\<close>

lemma header_of_EncodeFrame:
  assumes "length p \<le> kMaxPayloadLength"
  shows "take kHeaderSize (EncodeFrame h p) = put_header (h\<lparr>payload_len := of_nat (length p)\<rparr>)"
    and "get16 (put_header h @ r) = Some (magic h, drop 2 (put_header h @ r))"
    and "get32 (drop 20 (put_header h)) = Some (payload_len h, [])"
proof -
  show "take kHeaderSize (EncodeFrame h p) = put_header (h\<lparr>payload_len := of_nat (length p)\<rparr>)"
    by (simp add: EncodeFrame_def length_put_header)
  show "get16 (put_header h @ r) = Some (magic h, drop 2 (put_header h @ r))"
    by (simp add: put_header_def get_put length_put)
  show "get32 (drop 20 (put_header h)) = Some (payload_len h, [])"
    by (cases "reserved_bytes h") (simp add: put_header_def get_end length_put)
qed

lemma ReadAll_Inr:
  assumes "ReadAll cl n cn = (Inr s, cn')"
  shows "length s = n" and "arrivals (cn_recvs cn) = s @ arrivals (cn_recvs cn')"
    and "reads_well (cn_recvs cn) \<Longrightarrow> reads_well (cn_recvs cn')" and "cn_sends cn' = cn_sends cn"
  using assms read_bytes_arrivals [of n "cn_recvs cn"]
  by (auto simp: ReadAll_def split: prod.splits sum.splits option.splits)

lemma ReadAll_complete:
  assumes "reads_well (cn_recvs cn)" and "n \<le> length (arrivals (cn_recvs cn))"
  shows "\<exists>s cn'. ReadAll cl n cn = (Inr s, cn')"
  using read_bytes_complete [OF assms] by (auto simp: ReadAll_def)

lemma SendAll_simps:
  assumes "SendAll cl data cn = (r, cn')"
  shows "cn_recvs cn' = cn_recvs cn"
    and "sends_well (length data + n) (cn_sends cn) \<Longrightarrow> r = Inr () \<and> sends_well n (cn_sends cn')"
  using assms send_bytes_complete [of data n "cn_sends cn"]
  by (auto simp: SendAll_def split: prod.splits)

text \<open>The next bytes to arrive are a whole reply, or what there is of it.\<close>

lemma reply_parts:
  assumes "prefix (arrivals rs) (EncodeResponse rid sid payload es @ rest)" and "length payload \<le> kMaxPayloadLength"
    and "arrivals rs = hd_bytes @ tl_bytes" and "length hd_bytes = kHeaderSize"
  shows "get16 hd_bytes = Some (kMagic, drop 2 hd_bytes)" and "get32 (drop 20 hd_bytes) = Some (of_nat (length payload), [])"
    and "EncodeResponse rid sid payload es = hd_bytes @ payload" and "prefix tl_bytes (payload @ rest)"
proof -
  let ?h = "new_header Msg_Response (if es then kEndStream else 0) rid sid (length payload)"
  have e: "EncodeResponse rid sid payload es = put_header ?h @ payload"
    by (simp add: EncodeResponse_def EncodeFrame_def new_header_def)
  have "prefix (hd_bytes @ tl_bytes) (put_header ?h @ payload @ rest)" using assms(1,3) e by simp
  then have p: "hd_bytes = put_header ?h \<and> prefix tl_bytes (payload @ rest)"
    using assms(4) by (auto simp: prefix_def append_eq_append_conv length_put_header)
  show "EncodeResponse rid sid payload es = hd_bytes @ payload" "prefix tl_bytes (payload @ rest)"
    using p e by simp_all
  show "get16 hd_bytes = Some (kMagic, drop 2 hd_bytes)" "get32 (drop 20 hd_bytes) = Some (of_nat (length payload), [])"
    using p header_of_EncodeFrame(2) [OF assms(2), of ?h "[]"] header_of_EncodeFrame(3) [OF assms(2), of ?h]
    by (simp_all add: new_header_def)
qed

lemma exchange_reply:
  assumes "prefix (arrivals (cn_recvs cn)) (EncodeResponse rid sid payload es @ rest)" "length payload \<le> kMaxPayloadLength"
    and "exchange cl n req cn = (r, cn')"
  shows "r = Inr x \<Longrightarrow> x = payload \<and> arrivals (cn_recvs cn) = EncodeResponse rid sid payload es @ arrivals (cn_recvs cn')"
    and "reads_well (cn_recvs cn) \<Longrightarrow> length (EncodeResponse rid sid payload es) \<le> length (arrivals (cn_recvs cn)) \<Longrightarrow>
         sends_well (length (request_frame n req) + m) (cn_sends cn) \<Longrightarrow>
         r = Inr payload \<and> reads_well (cn_recvs cn') \<and> sends_well m (cn_sends cn')"
proof -
  obtain r1 cn1 where s: "SendAll cl (request_frame n req) cn = (r1, cn1)" by fastforce
  note s1 = SendAll_simps [OF s]
  obtain r2 cn2 where h: "ReadAll cl kHeaderSize cn1 = (r2, cn2)" by fastforce
  obtain r3 cn3 where b: "ReadAll cl (length payload) cn2 = (r3, cn3)" by fastforce
  have ex: "exchange cl n req cn = (r3, cn3) \<and> arrivals (cn_recvs cn) = hb @ arrivals (cn_recvs cn2)
      \<and> EncodeResponse rid sid payload es = hb @ payload \<and> prefix (arrivals (cn_recvs cn2)) (payload @ rest)"
    if "r1 = Inr u" "r2 = Inr hb" for u hb
  proof -
    note h1 = ReadAll_Inr [OF h [unfolded that(2)], unfolded s1]
    note q = reply_parts [OF assms(1,2) h1(2,1)]
    then show ?thesis using s h b that h1 payload_len_fits [OF assms(2)] assms(2) by (simp add: exchange_def)
  qed
  have err: "r1 = Inl e \<Longrightarrow> isl r" "r1 = Inr u \<Longrightarrow> r2 = Inl e \<Longrightarrow> isl r" for e u
    using s h assms(3) by (auto simp: exchange_def)
  show "x = payload \<and> arrivals (cn_recvs cn) = EncodeResponse rid sid payload es @ arrivals (cn_recvs cn')" if rx: "r = Inr x"
  proof -
    obtain u hb where o: "r1 = Inr u" "r2 = Inr hb" using err rx by (cases r1; cases r2) auto
    note e = ex [OF o]
    then have b': "ReadAll cl (length payload) cn2 = (Inr x, cn')" using b rx assms(3) by simp
    note d = ReadAll_Inr [OF b']
    then have "x = payload" using e by (auto simp: prefix_def append_eq_append_conv)
    then show ?thesis using d e by simp
  qed
  show "r = Inr payload \<and> reads_well (cn_recvs cn') \<and> sends_well m (cn_sends cn')"
    if well: "reads_well (cn_recvs cn)" "length (EncodeResponse rid sid payload es) \<le> length (arrivals (cn_recvs cn))"
      "sends_well (length (request_frame n req) + m) (cn_sends cn)"
  proof -
    have r1: "r1 = Inr ()" "sends_well m (cn_sends cn1)" using s1(2) well(3) by blast+
    have "kHeaderSize \<le> length (arrivals (cn_recvs cn1))"
      using well(2) s1(1) by (simp add: EncodeResponse_def length_EncodeFrame)
    then obtain hb where r2: "r2 = Inr hb" using ReadAll_complete [of cn1 kHeaderSize cl] well(1) s1(1) h by auto
    note e = ex [OF r1(1) r2] and h1 = ReadAll_Inr [OF h [unfolded r2]]
    have "length payload \<le> length (arrivals (cn_recvs cn2))" using well(2) e by simp
    then obtain y where r3: "r3 = Inr y" using ReadAll_complete [of cn2 "length payload" cl] h1(3) well(1) s1(1) b by auto
    note d = ReadAll_Inr [OF b [unfolded r3]]
    have "y = payload" using d e by (auto simp: prefix_def append_eq_append_conv)
    then show ?thesis using e r3 d h1 r1(2) well(1) s1(1) assms(3) by simp
  qed
qed

lemma ExecuteBinary_open:
  "Client_Open cl = (Inr u, cl') \<Longrightarrow> ExecuteBinary req cl = ExecuteBinary req cl'"
  by (auto simp: ExecuteBinary_def Client_Open_def Let_def split: if_splits dial.splits option.splits)

lemma ExecuteBinary_reply:
  assumes "cl_socket cl = Some cn" "ExecuteBinary req cl = (r, cl')"
    and "prefix (arrivals (cn_recvs cn)) (EncodeResponse rid sid payload es @ rest)" "length payload \<le> kMaxPayloadLength"
  shows "r = Inr x \<Longrightarrow> x = payload \<and> next_id cl' = next_id cl + 1 \<and>
      (\<exists>cn'. cl_socket cl' = Some cn' \<and> prefix (arrivals (cn_recvs cn')) rest)"
    and "reads_well (cn_recvs cn) \<Longrightarrow> length (EncodeResponse rid sid payload es) \<le> length (arrivals (cn_recvs cn)) \<Longrightarrow>
         sends_well (length (request_frame (next_id cl) req) + m) (cn_sends cn) \<Longrightarrow>
         r = Inr payload \<and> next_id cl' = next_id cl + 1 \<and>
         (\<exists>cn'. cl_socket cl' = Some cn' \<and> arrivals (cn_recvs cn) = EncodeResponse rid sid payload es @ arrivals (cn_recvs cn')
           \<and> reads_well (cn_recvs cn') \<and> sends_well m (cn_sends cn'))"
proof -
  let ?cl = "cl\<lparr>next_id := next_id cl + 1\<rparr>"
  obtain r1 cn1 where e: "exchange ?cl (next_id cl) req cn = (r1, cn1)" by fastforce
  have r: "r = r1" "\<not> isl r1 \<Longrightarrow> cl' = ?cl\<lparr>cl_socket := Some cn1\<rparr>"
    using assms(1,2) e by (auto simp: ExecuteBinary_def Client_Open_def Let_def split: sum.splits)
  note q = exchange_reply [OF assms(3,4) e]
  show "x = payload \<and> next_id cl' = next_id cl + 1 \<and> (\<exists>cn'. cl_socket cl' = Some cn' \<and> prefix (arrivals (cn_recvs cn')) rest)"
    if "r = Inr x"
  proof -
    have "r1 = Inr x" using r(1) that by simp
    note e = q(1) [OF this]
    then have "prefix (arrivals (cn_recvs cn1)) rest" using assms(3) by simp
    then show ?thesis using e r(2) \<open>r1 = Inr x\<close> by simp
  qed
  show "r = Inr payload \<and> next_id cl' = next_id cl + 1 \<and>
         (\<exists>cn'. cl_socket cl' = Some cn' \<and> arrivals (cn_recvs cn) = EncodeResponse rid sid payload es @ arrivals (cn_recvs cn')
           \<and> reads_well (cn_recvs cn') \<and> sends_well m (cn_sends cn'))"
    if "reads_well (cn_recvs cn)" "length (EncodeResponse rid sid payload es) \<le> length (arrivals (cn_recvs cn))"
      "sends_well (length (request_frame (next_id cl) req) + m) (cn_sends cn)"
  proof -
    note w = q(2) [OF that]
    then have "r1 = Inr payload" by blast
    then show ?thesis using w q(1) [of payload] r by simp
  qed
qed

subsection \<open>A session\<close>

text \<open>The operations of a user, one after the other; the calls they ask for; and the server that runs
  them, given for each of them the environment of the call and the outcomes of the writes to the file.
  The process that is killed while it writes has no state any more.\<close>

fun client_session :: "(string \<times> string) list \<Rightarrow> Client \<Rightarrow> (string + string) list" where
  "client_session [] cl = []"
| "client_session ((operation, body) # ops) cl =
     (case Client_Execute operation body cl of (r, cl') \<Rightarrow> r # client_session ops cl')"

definition requests_call :: "string \<times> string \<Rightarrow> bin_call \<Rightarrow> bool" where
  "requests_call x c \<longleftrightarrow> binary_request (fst x) (snd x) = Inr (call_op c, encode_call c)"

type_synonym call_input = "CallEnv \<times> write_outcome list"

fun running_server :: "(call_input list \<times> Processor option) request_handler" where
  "running_server payload ((env, os) # xs, Some p) =
     (case Process env os payload p of
        (Replied r, p') \<Rightarrow> (r, xs, Some p')
      | (_, p') \<Rightarrow> ([], xs, None))"
| "running_server payload (xs, p) = ([], xs, None)"

fun exec_calls :: "call_input list \<Rightarrow> bin_call list \<Rightarrow> MemoryStore \<Rightarrow> bin_answer list" where
  "exec_calls ((env, os) # xs) (c # cs) st = (case bin_exec env c st of (a, st') \<Rightarrow> a # exec_calls xs cs st')"
| "exec_calls _ _ st = []"

fun session_frames :: "u64 \<Rightarrow> bin_call list \<Rightarrow> (Header \<times> string) list" where
  "session_frames rid [] = []"
| "session_frames rid (c # cs) =
     (new_header Msg_Request (or kEndStream kBinaryPayload) rid 1 (length (encode_call c)), encode_call c)
     # session_frames (rid + 1) cs"

fun session_replies :: "u64 \<Rightarrow> bin_answer list \<Rightarrow> string" where
  "session_replies rid [] = []"
| "session_replies rid (a # as) = EncodeResponse rid 1 (encode_answer a) True @ session_replies (rid + 1) as"

lemma wire_session: "wire (session_frames rid cs) = concat (map2 (\<lambda>i c. request_frame (rid + of_nat i) (encode_call c)) [0..<length cs] cs)"
proof (induction cs arbitrary: rid)
  case (Cons c cs)
  have "map2 (\<lambda>i c. request_frame (rid + of_nat i) (encode_call c)) [Suc 0..<Suc (length cs)] cs
      = map2 (\<lambda>i c. request_frame (rid + 1 + of_nat i) (encode_call c)) [0..<length cs] cs"
    unfolding map_Suc_upt [symmetric] by (simp add: zip_map1 comp_def case_prod_beta add.assoc)
  then show ?case using Cons by (simp add: wire_Cons request_frame_def upt_conv_Cons del: upt_Suc)
qed (simp add: wire_def)

lemma running_server_None: "running_server payload (xs, None) = ([], xs, None)"
  by (cases xs) auto

lemma answers_stopped:
  "answers running_server clk fs (m, t, xs, None) = (out, m', t', xs', Some p) \<Longrightarrow> False"
  by (induction fs arbitrary: m t out)
    (auto simp: answer_def running_server_None Let_def split: prod.splits if_splits)

lemma answer_free_stream:
  assumes "streams m = []" "0 < unat (max_concurrent_streams m)" "stream_id (fr_header f) = 1" "is_end_stream f"
    and "h (fr_payload f) s = (response, s')"
  shows "answer h clk f (m, t, s) = (EncodeResponse (request_id (fr_header f)) 1 response True, m, Suc t, s')"
  using assms by (simp add: answer_def CanOpenStream_def GetOrCreateStream_def CloseStream_def Let_def)

lemma answers_session:
  assumes "answers running_server clk (map received (session_frames rid cs)) (m, t, xs, Some p) = (out, m', t', xs', Some p')"
    and "streams m = []" "0 < unat (max_concurrent_streams m)" "list_all call_fits cs"
  shows "out = session_replies rid (exec_calls xs cs (p_store p)) \<and> length cs \<le> length xs"
  using assms
proof (induction cs arbitrary: rid t xs p out)
  case (Cons c cs)
  let ?f = "received (new_header Msg_Request (or kEndStream kBinaryPayload) rid 1 (length (encode_call c)), encode_call c)"
  have f: "stream_id (fr_header ?f) = 1" "is_end_stream ?f" "request_id (fr_header ?f) = rid" "fr_payload ?f = encode_call c"
    by (simp_all add: received_def new_header_def is_end_stream_def kEndStream_def kBinaryPayload_def)
  obtain response xs1 p1 where h: "running_server (encode_call c) (xs, Some p) = (response, xs1, p1)" by (metis prod_cases3)
  obtain outs where o: "answers running_server clk (map received (session_frames (rid + 1) cs)) (m, Suc t, xs1, p1)
      = (outs, m', t', xs', Some p')" "out = EncodeResponse rid 1 response True @ outs"
    using Cons.prems(1) answer_free_stream [OF Cons.prems(2,3) f(1,2), of running_server] f(3,4) h
    by (auto split: prod.splits)
  obtain q where q: "p1 = Some q" using o(1) answers_stopped by (cases p1) blast+
  obtain env os ys where xs: "xs = (env, os) # ys" using h q by (cases xs) auto
  have "call_fits c" using Cons.prems(4) by simp
  then have "xs1 = ys" "p_store q = snd (bin_exec env c (p_store p))" "response = encode_answer (fst (bin_exec env c (p_store p)))"
    using h q xs Process_call [of c env os p] by (auto split: outcome.splits prod.splits if_splits)
  then show ?case using Cons.IH [OF o(1) [unfolded q]] o(2) xs Cons.prems(2-4) by (simp add: case_prod_beta)
qed simp

definition deliverable :: "bin_answer \<Rightarrow> bool" where
  "deliverable a \<longleftrightarrow> answer_fits a \<and> length (encode_answer a) \<le> kMaxPayloadLength"

definition succeeded :: "(string + string) list \<Rightarrow> (string + string) list" where
  "succeeded rs = takeWhile (\<lambda>r. \<not> isl r) rs"

definition expected :: "bin_call list \<Rightarrow> bin_answer list \<Rightarrow> (string + string) list" where
  "expected cs as = map2 (\<lambda>c a. Inr (shown c a)) cs as"

lemma Client_Execute_call:
  "requests_call (operation, body) c \<Longrightarrow> Client_Execute operation body cl =
     (case ExecuteBinary (encode_call c) cl of
        (Inl e, cl') \<Rightarrow> (Inl e, cl') | (Inr raw, cl') \<Rightarrow> (Inr (DecodeBinaryResponseToText (call_op c) raw), cl'))"
  by (simp add: Client_Execute_def requests_call_def)

lemma client_session_open:
  assumes "Client_Open cl = (Inr u, cl')" "list_all2 requests_call ops cs"
  shows "client_session ops cl = client_session ops cl'"
proof (cases ops)
  case (Cons x ops')
  then obtain c where "requests_call x c" using assms(2) by (auto simp: list_all2_Cons1)
  then show ?thesis using Cons ExecuteBinary_open [OF assms(1), of "encode_call c"]
    by (cases x) (simp add: Client_Execute_call)
qed simp

lemma client_session_results:
  assumes "list_all2 requests_call ops cs" "cl_socket cl = Some cn" "length cs \<le> length xs"
    and "prefix (arrivals (cn_recvs cn)) (session_replies (next_id cl) (exec_calls xs cs st))"
    and "list_all deliverable (exec_calls xs cs st)"
  shows "prefix (succeeded (client_session ops cl)) (expected cs (exec_calls xs cs st)) \<and>
    (arrivals (cn_recvs cn) = session_replies (next_id cl) (exec_calls xs cs st) \<and> reads_well (cn_recvs cn)
      \<and> sends_well (length (wire (session_frames (next_id cl) cs))) (cn_sends cn) \<longrightarrow>
      client_session ops cl = expected cs (exec_calls xs cs st))"
  using assms
proof (induction cs arbitrary: ops cl cn xs st rule: list.induct)
  case (Cons c cs)
  obtain operation body ops' where ops: "ops = (operation, body) # ops'" "requests_call (operation, body) c"
      "list_all2 requests_call ops' cs"
    using Cons.prems(1) by (auto simp: list_all2_Cons2)
  obtain env os ys where xs: "xs = (env, os) # ys" using Cons.prems(3) by (cases xs) auto
  obtain a st' where a: "bin_exec env c st = (a, st')" by fastforce
  obtain r cl' where e: "ExecuteBinary (encode_call c) cl = (r, cl')" by fastforce
  let ?rest = "session_replies (next_id cl + 1) (exec_calls ys cs st')"
  have del: "answer_fits a" "length (encode_answer a) \<le> kMaxPayloadLength"
    using Cons.prems(5) xs a by (simp_all add: deliverable_def)
  have pre: "prefix (arrivals (cn_recvs cn)) (EncodeResponse (next_id cl) 1 (encode_answer a) True @ ?rest)"
    using Cons.prems(4) xs a by simp
  note q = ExecuteBinary_reply [OF Cons.prems(2) e pre del(2)]
  have dec: "DecodeBinaryResponseToText (call_op c) (encode_answer a) = shown c a"
    using DecodeBinaryResponseToText_answer [of env c st] del(1) a by simp
  have IH: "prefix (succeeded (client_session ops' cl')) (expected cs (exec_calls ys cs st')) \<and>
    (arrivals (cn_recvs cn') = ?rest \<and> reads_well (cn_recvs cn')
      \<and> sends_well (length (wire (session_frames (next_id cl + 1) cs))) (cn_sends cn') \<longrightarrow>
      client_session ops' cl' = expected cs (exec_calls ys cs st'))"
    if "cl_socket cl' = Some cn'" "next_id cl' = next_id cl + 1" "prefix (arrivals (cn_recvs cn')) ?rest" for cn'
    using Cons.IH [OF ops(3) that(1), of ys st'] Cons.prems(3,5) that(2,3) xs a by simp
  have run: "client_session ops cl = (case r of Inl err \<Rightarrow> Inl err | Inr raw \<Rightarrow> Inr (DecodeBinaryResponseToText (call_op c) raw))
      # client_session ops' cl'"
    using ops e by (auto simp: Client_Execute_call split: sum.splits)
  have len: "length (wire (session_frames (next_id cl) (c # cs)))
      = length (request_frame (next_id cl) (encode_call c)) + length (wire (session_frames (next_id cl + 1) cs))"
    by (simp add: wire_Cons request_frame_def)
  have "prefix (succeeded (client_session ops cl)) (expected (c # cs) (exec_calls xs (c # cs) st))"
  proof (cases r)
    case (Inr x)
    then show ?thesis using q(1) [OF Inr] IH run dec xs a by (auto simp: succeeded_def expected_def)
  qed (simp add: run succeeded_def)
  moreover have "client_session ops cl = expected (c # cs) (exec_calls xs (c # cs) st)"
    if well: "arrivals (cn_recvs cn) = session_replies (next_id cl) (exec_calls xs (c # cs) st)" "reads_well (cn_recvs cn)"
      "sends_well (length (wire (session_frames (next_id cl) (c # cs)))) (cn_sends cn)"
  proof -
    have arr: "arrivals (cn_recvs cn) = EncodeResponse (next_id cl) 1 (encode_answer a) True @ ?rest" using well(1) xs a by simp
    obtain cn' where cn': "r = Inr (encode_answer a)" "next_id cl' = next_id cl + 1" "cl_socket cl' = Some cn'"
      "arrivals (cn_recvs cn) = EncodeResponse (next_id cl) 1 (encode_answer a) True @ arrivals (cn_recvs cn')"
      "reads_well (cn_recvs cn')" "sends_well (length (wire (session_frames (next_id cl + 1) cs))) (cn_sends cn')"
      using q(2) [OF well(2) _ well(3) [unfolded len]] arr by auto
    then have "arrivals (cn_recvs cn') = ?rest" using arr by simp
    then show ?thesis using IH [of cn'] cn' run dec xs a by (simp add: expected_def)
  qed
  ultimately show ?case by blast
qed (auto simp: succeeded_def expected_def list_all2_conv_all_nth)

lemma Client_Open_next_id: "Client_Open cl = (r, cl') \<Longrightarrow> next_id cl' = next_id cl"
  by (auto simp: Client_Open_def Client_Close_def Let_def split: if_splits dial.splits option.splits)

lemma client_session_shows:
  assumes "list_all2 requests_call ops cs" "list_all call_fits cs"
    and "Client_Open cl = (Inr (), cl')" "cl_socket cl' = Some cn"
    and "answers running_server clk (map received (session_frames (next_id cl) cs))
           (new_StreamManager 1024 30000, 0, xs, Some p) = (out, m, t, xs', Some p')"
    and "prefix (arrivals (cn_recvs cn)) out"
    and "list_all deliverable (exec_calls xs cs (p_store p))"
  shows "prefix (succeeded (client_session ops cl)) (expected cs (exec_calls xs cs (p_store p))) \<and>
    (arrivals (cn_recvs cn) = out \<and> reads_well (cn_recvs cn)
      \<and> sends_well (length (wire (session_frames (next_id cl) cs))) (cn_sends cn) \<longrightarrow>
      client_session ops cl = expected cs (exec_calls xs cs (p_store p)))"
proof -
  have out: "out = session_replies (next_id cl) (exec_calls xs cs (p_store p))" "length cs \<le> length xs"
    using answers_session [OF assms(5)] assms(2) by (simp_all add: new_StreamManager_def)
  show ?thesis
    using client_session_results [OF assms(1,4) out(2), of "p_store p"] assms(6,7) out(1)
      client_session_open [OF assms(3,1)] Client_Open_next_id [OF assms(3)] by simp
qed

text \<open>C12: What the command-line client shows is the result of the store operation it asked for. A user
  runs operations over one connection of a running server. Whatever the network does with it (short reads and writes,
  interruptions, a connection lost in the middle of a reply), the texts shown up to the first error are the texts of the
  results of those operations, run on the store in that order; and when the replies arrive and the
  requests are taken, every operation is shown its result.\<close>

theorem client_shows_store_results:
  assumes "list_all2 requests_call ops cs" "list_all call_fits cs"
    and "Client_Open cl = (Inr (), cl')" "cl_socket cl' = Some cn"
    and "answers running_server clk (map received (session_frames (next_id cl) cs))
           (new_StreamManager 1024 30000, 0, xs, Some p) = (out, m, t, xs', Some p')"
    and "prefix (arrivals (cn_recvs cn)) out"
    and "list_all deliverable (exec_calls xs cs (p_store p))"
  shows "prefix (succeeded (client_session ops cl)) (expected cs (exec_calls xs cs (p_store p))) \<and>
    (arrivals (cn_recvs cn) = out \<and> reads_well (cn_recvs cn)
      \<and> sends_well (length (wire (session_frames (next_id cl) cs))) (cn_sends cn) \<longrightarrow>
      client_session ops cl = expected cs (exec_calls xs cs (p_store p)))"
  by (rule client_session_shows [OF assms])

lemma answers_unlogged:
  assumes "streams m = []" "0 < unat (max_concurrent_streams m)" "list_all call_fits cs" "length cs \<le> length xs" "p_aof p = None"
  shows "\<exists>t' xs' p'. answers running_server clk (map received (session_frames rid cs)) (m, t, xs, Some p)
    = (session_replies rid (exec_calls xs cs (p_store p)), m, t', xs', Some p')"
  using assms
proof (induction cs arbitrary: rid t xs p)
  case (Cons c cs)
  let ?f = "received (new_header Msg_Request (or kEndStream kBinaryPayload) rid 1 (length (encode_call c)), encode_call c)"
  have f: "stream_id (fr_header ?f) = 1" "is_end_stream ?f" "request_id (fr_header ?f) = rid" "fr_payload ?f = encode_call c"
    by (simp_all add: received_def new_header_def is_end_stream_def kEndStream_def kBinaryPayload_def)
  obtain env os ys where xs: "xs = (env, os) # ys" using Cons.prems(4) by (cases xs) auto
  obtain a st' where a: "bin_exec env c (p_store p) = (a, st')" by fastforce
  have "Process env os (encode_call c) p = (Replied (encode_answer a), p\<lparr>p_store := st'\<rparr>)"
    using Process_call [of c env os p] Cons.prems(3,5) a
    by (cases "Process env os (encode_call c) p") (auto simp: append_dies_def append_record_def split: option.splits)
  then have "running_server (encode_call c) (xs, Some p) = (encode_answer a, ys, Some (p\<lparr>p_store := st'\<rparr>))"
    using xs by simp
  then show ?case
    using Cons.IH [of ys "p\<lparr>p_store := st'\<rparr>" "rid + 1" "Suc t"] Cons.prems xs a
      answer_free_stream [OF Cons.prems(1,2) f(1,2), of running_server] f(3,4)
    by fastforce
qed simp

definition example_client :: "string \<Rightarrow> Client" where
  "example_client bytes =
     \<lparr>cl_host = ''localhost'', cl_port = 63779, cl_strerror = \<lambda>_. ''error'',
      cl_dials = [Dial [Socket \<lparr>cg_nonblocking = None, cg_connect = Connect_error ECONNREFUSED, cg_polls = [], cg_restore = None\<rparr>,
        Socket \<lparr>cg_nonblocking = None, cg_connect = Connect_in_progress, cg_polls = [(5000, Poll_error EINTR), (4990, Poll_ready None)],
          cg_restore = None\<rparr>] None (replicate 61 (Took 7))
        [Arrived (take 3 bytes), Read_error EINTR, Arrived (drop 3 bytes)]],
      cl_socket = None, next_id = 1\<rparr>"

definition example_operations :: "(string \<times> string) list" where
  "example_operations = [(''PING'', ''{}''), (''GET'', ''{'' @ json_quote @ ''key'' @ json_quote @ '':'' @ json_quote @ ''a'' @ json_quote @ ''}'')]"

definition example_replies :: string where
  "example_replies = session_replies 1 [A_Pong, A_Value None]"

lemma example_get: "fst (MemoryStore_Get (std_hash (example_env 5)) (clock (example_env 5) 0) ''a'' MemoryStore_default) = None"
  by code_simp

theorem client_shows_store_results_witness:
  "client_session example_operations (example_client example_replies) = [Inr ''PONG'', Inr ''(nil)'']"
proof -
  let ?xs = "[(example_env 5, []), (example_env 5, [])]" and ?cs = "[B_Ping, B_Get ''a'']"
    and ?p = "\<lparr>p_store = MemoryStore_default, p_aof = None\<rparr>"
  let ?cn = "\<lparr>cn_sends = replicate 61 (Took 7),
      cn_recvs = [Arrived (take 3 example_replies), Read_error EINTR, Arrived (drop 3 example_replies)], cn_sent = []\<rparr>"
  have as: "exec_calls ?xs ?cs MemoryStore_default = [A_Pong, A_Value None]"
    using example_get by (simp add: case_prod_beta)
  obtain t' xs' p' where "answers running_server (\<lambda>_. 0) (map received (session_frames 1 ?cs))
      (new_StreamManager 1024 30000, 0, ?xs, Some ?p)
      = (session_replies 1 (exec_calls ?xs ?cs (p_store ?p)), new_StreamManager 1024 30000, t', xs', Some p')"
    using answers_unlogged [of "new_StreamManager 1024 30000" ?cs ?xs ?p "\<lambda>_. 0" 1 0]
    by (auto simp: new_StreamManager_def short_def)
  then have s: "answers running_server (\<lambda>_. 0) (map received (session_frames (next_id (example_client example_replies)) ?cs))
      (new_StreamManager 1024 30000, 0, ?xs, Some ?p)
      = (example_replies, new_StreamManager 1024 30000, t', xs', Some p')"
    by (simp only: as example_replies_def example_client_def Client.select_convs Processor.select_convs)
  have r: "list_all2 requests_call example_operations ?cs" by code_simp
  have w: "sends_well (length (wire (session_frames 1 ?cs))) (cn_sends ?cn)" by code_simp
  have b: "take 3 example_replies \<noteq> []" "drop 3 example_replies \<noteq> []" by code_simp+
  have "client_session example_operations (example_client example_replies)
      = expected ?cs (exec_calls ?xs ?cs (p_store ?p))"
    using client_shows_store_results [OF r _ _ _ s, of "(example_client example_replies)\<lparr>cl_dials := [], cl_socket := Some ?cn\<rparr>" ?cn]
      w b by (simp add: as example_client_def Client_Open_def ConnectWithTimeout_def short_def deliverable_def length_put put_str16_def
        kMaxPayloadLength_def del: exec_calls.simps)
  then show ?thesis by (simp add: as expected_def del: exec_calls.simps)
qed

end
