(* ===== verification/GK_Connection.thy ===== *)
theory GK_Connection
  imports GK_Client
begin

text \<open>
  The blocking connection, \<open>src/net/connection.cpp\<close>: it reads, decodes, calls the handler and sends the whole
  reply before it goes on. The outcomes of \<open>send\<close> are part of the state, those of \<open>recv\<close> an argument; it writes
  as the client does, so the loop over the calls of \<open>send\<close> is the client's.

  Shown: the peer gets the replies to its frames, in order, up to the first error of a write.
\<close>

section \<open>The connection\<close>

record Connection =
  cx_decoder :: Decoder
  cx_requests :: u64
  cx_bytes_received :: u64
  cx_bytes_sent :: u64
  cx_sends :: "client_send list"
  cx_out :: string

definition new_Connection :: "client_send list \<Rightarrow> Connection" where
  "new_Connection sends =
     \<lparr>cx_decoder = new_Decoder, cx_requests = 0, cx_bytes_received = 0, cx_bytes_sent = 0, cx_sends = sends, cx_out = []\<rparr>"

definition Connection_SendAll :: "string \<Rightarrow> Connection \<Rightarrow> bool \<times> Connection" where
  "Connection_SendAll bytes c =
     (case send_bytes bytes (cx_sends c) of
        (res, out, os) \<Rightarrow>
          let c1 = c\<lparr>cx_sends := os, cx_out := cx_out c @ out\<rparr>
          in case res of
               Inl e \<Rightarrow> (False, c1)
             | Inr _ \<Rightarrow> (True, c1\<lparr>cx_bytes_sent := cx_bytes_sent c + of_nat (length bytes)\<rparr>))"

definition response_frame :: "Frame \<Rightarrow> string \<Rightarrow> string" where
  "response_frame f response =
     EncodeResponse (request_id (fr_header f)) (stream_id (fr_header f)) response (is_end_stream f)"

text \<open>The frames of a read; the flag says whether the loop goes on.\<close>

fun reply_all :: "'s request_handler \<Rightarrow> Frame list \<Rightarrow> Connection \<times> 's \<Rightarrow> bool \<times> Connection \<times> 's" where
  "reply_all h [] x = (True, x)"
| "reply_all h (f # fs) (c, s) =
     (let (response, s') = h (fr_payload f) s;
          (sent, c') = Connection_SendAll (response_frame f response) (c\<lparr>cx_requests := cx_requests c + 1\<rparr>)
      in if sent then reply_all h fs (c', s') else (False, c', s'))"

fun Connection_Serve :: "'s request_handler \<Rightarrow> client_recv list \<Rightarrow> Connection \<times> 's \<Rightarrow> Connection \<times> 's" where
  "Connection_Serve h [] x = x"
| "Connection_Serve h (r # rs) (c, s) =
     (case r of
        Read_error e \<Rightarrow> if e = EINTR then Connection_Serve h rs (c, s) else (c, s)
      | Arrived b \<Rightarrow>
          if b = [] then (c, s)
          else
            (case Push b (cx_decoder c) of
               (fs, Some err, d) \<Rightarrow>
                 (snd (Connection_SendAll (EncodeError 0 0 ''PROTOCOL_ERROR'' err True)
                    (c\<lparr>cx_bytes_received := cx_bytes_received c + of_nat (length b), cx_decoder := d\<rparr>)), s)
             | (fs, None, d) \<Rightarrow>
                 (case reply_all h fs (c\<lparr>cx_bytes_received := cx_bytes_received c + of_nat (length b), cx_decoder := d\<rparr>, s) of
                    (going_on, x) \<Rightarrow> if going_on then Connection_Serve h rs x else x)))"

section \<open>What the peer gets\<close>

fun replies :: "'s request_handler \<Rightarrow> Frame list \<Rightarrow> 's \<Rightarrow> string \<times> 's" where
  "replies h [] s = ([], s)"
| "replies h (f # fs) s =
     (case h (fr_payload f) s of (response, s1) \<Rightarrow>
        (case replies h fs s1 of (out, s2) \<Rightarrow> (response_frame f response @ out, s2)))"

lemma replies_append:
  "replies h (fs @ gs) s = (case replies h fs s of (o1, s1) \<Rightarrow> (case replies h gs s1 of (o2, s2) \<Rightarrow> (o1 @ o2, s2)))"
  by (induction fs arbitrary: s) (simp_all add: case_prod_beta)

lemma SendAll_out:
  assumes "Connection_SendAll bytes c = (sent, c')"
  shows "\<exists>out. prefix out bytes \<and> (sent \<longrightarrow> out = bytes) \<and> cx_out c' = cx_out c @ out \<and> cx_decoder c' = cx_decoder c"
proof -
  obtain res out os where b: "send_bytes bytes (cx_sends c) = (res, out, os)" by (metis prod_cases3)
  then show ?thesis using assms send_bytes_prefix [OF b]
    by (cases res) (auto simp: Connection_SendAll_def intro!: exI [of _ out])
qed

lemma SendAll_well:
  assumes "sends_well (length bytes + n) (cx_sends c)"
  shows "fst (Connection_SendAll bytes c) \<and> sends_well n (cx_sends (snd (Connection_SendAll bytes c)))"
  using send_bytes_complete [OF assms] by (auto simp: Connection_SendAll_def)

text \<open>The replies of a read go out whole, or up to the write that failed.\<close>

lemma reply_all_out:
  assumes "reply_all h fs (c, s) = (going_on, c', s')"
  shows "prefix (cx_out c') (cx_out c @ fst (replies h fs s))
    \<and> (going_on \<longrightarrow> cx_out c' = cx_out c @ fst (replies h fs s) \<and> s' = snd (replies h fs s) \<and> cx_decoder c' = cx_decoder c)"
  using assms
proof (induction fs arbitrary: c s)
  case (Cons f fs)
  obtain response s1 where h: "h (fr_payload f) s = (response, s1)" by fastforce
  obtain sent c1 where sent: "Connection_SendAll (response_frame f response) (c\<lparr>cx_requests := cx_requests c + 1\<rparr>) = (sent, c1)" by fastforce
  obtain out where out: "prefix out (response_frame f response)" "sent \<longrightarrow> out = response_frame f response"
    "cx_out c1 = cx_out c @ out" "cx_decoder c1 = cx_decoder c" using SendAll_out [OF sent] by auto
  show ?case
  proof (cases sent)
    case True
    then show ?thesis using Cons.IH [of c1 s1] Cons.prems h sent out by (simp add: Let_def case_prod_beta)
  next
    case False
    then show ?thesis using Cons.prems h sent out by (auto simp: Let_def case_prod_beta prefix_def)
  qed
qed simp

lemma reply_all_well:
  assumes "sends_well (length (fst (replies h fs s)) + n) (cx_sends c)"
  shows "fst (reply_all h fs (c, s)) \<and> sends_well n (cx_sends (fst (snd (reply_all h fs (c, s)))))"
  using assms
proof (induction fs arbitrary: c s)
  case (Cons f fs)
  obtain response s1 where h: "h (fr_payload f) s = (response, s1)" by fastforce
  let ?c = "c\<lparr>cx_requests := cx_requests c + 1\<rparr>"
  have "sends_well (length (response_frame f response) + (length (fst (replies h fs s1)) + n)) (cx_sends ?c)"
    using Cons.prems h by (simp add: case_prod_beta add.assoc)
  from SendAll_well [OF this] show ?case using Cons.IH h by (simp add: Let_def case_prod_beta)
qed simp

text \<open>The decoder of a connection to which the bytes \<open>rest\<close> are still to come.\<close>

definition expects :: "string \<Rightarrow> (Header \<times> string) list \<Rightarrow> Decoder \<Rightarrow> bool" where
  "expects rest fs d \<longleftrightarrow> decoder_inv d \<and> pending d @ rest = wire fs \<and> stuck (pending d) fs
     \<and> length (buffer d) + length rest \<le> kMaxDecoderBufferSize"

lemma expects_Push:
  assumes "expects (b @ rest) fs d" "list_all sendable fs"
  shows "\<exists>k d'. Push b d = (map received (take k fs), None, d') \<and> expects rest (drop k fs) d'"
  using Push_wire [OF assms(2), of d b rest] assms(1) by (fastforce simp: expects_def)

lemma replies_split:
  "replies h (map received fs) s = (case replies h (map received (take k fs)) s of (o1, s1) \<Rightarrow>
     (case replies h (map received (drop k fs)) s1 of (o2, s2) \<Rightarrow> (o1 @ o2, s2)))"
  using replies_append [of h "map received (take k fs)" "map received (drop k fs)" s] by (simp flip: map_append)

lemma Serve_out:
  assumes "expects (arrivals rs @ rest) fs (cx_decoder c)" "list_all sendable fs"
  shows "prefix (cx_out (fst (Connection_Serve h rs (c, s)))) (cx_out c @ fst (replies h (map received fs) s))"
  using assms
proof (induction rs arbitrary: c s fs)
  case (Cons r rs)
  show ?case
  proof (cases r)
    case (Read_error e)
    then show ?thesis using Cons by simp
  next
    case (Arrived b)
    show ?thesis
    proof (cases "b = []")
      case False
      obtain k d where k: "Push b (cx_decoder c) = (map received (take k fs), None, d)" "expects (arrivals rs @ rest) (drop k fs) d"
        using expects_Push [of b "arrivals rs @ rest" fs "cx_decoder c"] Cons.prems Arrived by auto
      let ?c = "c\<lparr>cx_bytes_received := cx_bytes_received c + of_nat (length b), cx_decoder := d\<rparr>"
      obtain going_on c1 s1 where x: "reply_all h (map received (take k fs)) (?c, s) = (going_on, c1, s1)" by (metis prod_cases3)
      obtain o1 s2 where o1: "replies h (map received (take k fs)) s = (o1, s2)" by fastforce
      obtain o2 s3 where o2: "replies h (map received (drop k fs)) s2 = (o2, s3)" by fastforce
      have all: "fst (replies h (map received fs) s) = o1 @ o2" by (simp add: replies_split [of h fs s k] o1 o2)
      show ?thesis
      proof (cases going_on)
        case True
        then have c1: "cx_out c1 = cx_out c @ o1" "s1 = s2" "cx_decoder c1 = d" using reply_all_out [OF x] o1 by simp_all
        have "list_all sendable (drop k fs)" using Cons.prems(2) by (auto simp: list_all_iff dest: in_set_dropD)
        then have "prefix (cx_out (fst (Connection_Serve h rs (c1, s2)))) (cx_out c1 @ o2)"
          using Cons.IH [of "drop k fs" c1 s2] k(2) c1(3) o2 by simp
        then show ?thesis using Arrived False k(1) x True c1 all by simp
      next
        case going_off: False
        have "prefix (cx_out c1) (cx_out c @ o1)" using reply_all_out [OF x] o1 by simp
        then show ?thesis using Arrived False k(1) x going_off all prefix_prefix [of _ "cx_out c @ o1" o2] by simp
      qed
    qed (use Arrived in simp)
  qed
qed simp

lemma Serve_complete:
  assumes "expects (arrivals rs) fs (cx_decoder c)" "list_all sendable fs" "reads_well rs"
    and "sends_well (length (fst (replies h (map received fs) s))) (cx_sends c)"
  shows "cx_out (fst (Connection_Serve h rs (c, s))) = cx_out c @ fst (replies h (map received fs) s)
    \<and> snd (Connection_Serve h rs (c, s)) = snd (replies h (map received fs) s)"
  using assms
proof (induction rs arbitrary: c s fs)
  case Nil
  then have "stuck (wire fs) fs" by (auto simp: expects_def)
  then show ?case using stuck_complete by fastforce
next
  case (Cons r rs)
  show ?case
  proof (cases r)
    case (Read_error e)
    then show ?thesis using Cons by (simp add: reads_well_def)
  next
    case (Arrived b)
    then have b: "b \<noteq> []" "reads_well rs" using Cons.prems(3) by (auto simp: reads_well_def)
    obtain k d where k: "Push b (cx_decoder c) = (map received (take k fs), None, d)" "expects (arrivals rs) (drop k fs) d"
      using expects_Push [of b "arrivals rs" fs "cx_decoder c"] Cons.prems(1,2) Arrived by auto
    let ?c = "c\<lparr>cx_bytes_received := cx_bytes_received c + of_nat (length b), cx_decoder := d\<rparr>"
    obtain going_on c1 s1 where x: "reply_all h (map received (take k fs)) (?c, s) = (going_on, c1, s1)" by (metis prod_cases3)
    obtain o1 s2 where o1: "replies h (map received (take k fs)) s = (o1, s2)" by fastforce
    obtain o2 s3 where o2: "replies h (map received (drop k fs)) s2 = (o2, s3)" by fastforce
    have all: "replies h (map received fs) s = (o1 @ o2, s3)" by (simp add: replies_split [of h fs s k] o1 o2)
    have "going_on" and w: "sends_well (length o2) (cx_sends c1)"
      using reply_all_well [of h "map received (take k fs)" s "length o2" ?c] Cons.prems(4) o1 all x by simp_all
    then have c1: "cx_out c1 = cx_out c @ o1" "s1 = s2" "cx_decoder c1 = d" using reply_all_out [OF x] o1 by simp_all
    have "list_all sendable (drop k fs)" using Cons.prems(2) by (auto simp: list_all_iff dest: in_set_dropD)
    then show ?thesis
      using Cons.IH [of "drop k fs" c1 s2] k c1 o2 b w x \<open>going_on\<close> all Arrived by simp
  qed
qed



end
