(* ===== verification/GK_Config.thy ===== *)
theory GK_Config
  imports GK_Prelude
begin

text \<open>
  The command lines of the server and of the tool, \<open>src/core/config/arguments.cpp\<close>,
  \<open>server_config.cpp\<close> and \<open>cli_config.cpp\<close>. The arguments are the list after the name of the program; an option
  that takes a value takes the next one. An \<open>Inl\<close> is the text of the exception. The options seen so far are
  kept as the list of their names, one for each of the flags of the code.

  Shown: every configuration that is accepted is valid, and a port is accepted exactly when it is one.
\<close>

section \<open>Numbers\<close>

text \<open>\<open>std::from_chars\<close> on a 32-bit integer, together with the test that the whole text was read: an optional
  minus sign, digits, no other sign and no blanks.\<close>

definition from_chars :: "string \<Rightarrow> int option" where
  "from_chars s =
     (let neg = (s \<noteq> [] \<and> hd s = CHR ''-'');
          ds = (if neg then tl s else s);
          v = (if neg then - int (dec_value ds) else int (dec_value ds))
      in if ds = [] \<or> \<not> list_all isdigit ds then None
         else if v < - (2 ^ 31) \<or> v \<ge> 2 ^ 31 then None
         else Some v)"

definition ParsePort :: "string \<Rightarrow> string + int" where
  "ParsePort value =
     (case from_chars value of
        None \<Rightarrow> Inl ''INVALID_PORT: port must be between 1 and 65535''
      | Some port \<Rightarrow>
          if port < 1 \<or> port > 65535 then Inl ''INVALID_PORT: port must be between 1 and 65535'' else Inr port)"

text \<open>The value of the option at the head of the arguments, the arguments after it, and the options seen.\<close>

definition ReadOptionValue :: "string \<Rightarrow> string list \<Rightarrow> string \<Rightarrow> string list \<Rightarrow> string + string \<times> string list \<times> string list" where
  "ReadOptionValue option rest name seen =
     (if name \<in> set seen then Inl (''INVALID_OPTION: '' @ name @ '' may only be specified once'')
      else case rest of
             [] \<Rightarrow> Inl (''INVALID_OPTION: missing value for '' @ option)
           | value # rest' \<Rightarrow> Inr (value, rest', name # seen))"

section \<open>The server\<close>

datatype log_mode = Log_None | Log_Terminal | Log_File

record ServerConfig =
  sc_port :: int
  http_port :: int
  sc_show_help :: bool
  sc_log_mode :: log_mode
  log_dir :: string
  timer_interval_ms :: int
  persistence :: string
  data_dir :: string
  fsync_policy :: string
  workers :: nat

definition kDefaultPort :: int where
  "kDefaultPort = 63779"

definition default_ServerConfig :: ServerConfig where
  "default_ServerConfig =
     \<lparr>sc_port = kDefaultPort, http_port = 0, sc_show_help = False, sc_log_mode = Log_None, log_dir = [],
      timer_interval_ms = - 1, persistence = ''none'', data_dir = ''./data'', fsync_policy = ''everysec'', workers = 0\<rparr>"

definition parse_log_mode :: "string \<Rightarrow> string + log_mode" where
  "parse_log_mode value =
     (if value = ''terminal'' \<or> value = ''console'' then Inr Log_Terminal
      else if value = ''file'' then Inr Log_File
      else if value = ''none'' then Inr Log_None
      else Inl (''INVALID_OPTION: invalid log mode: '' @ value @ ''. Expected terminal, file, or none.''))"

definition parse_timer :: "string \<Rightarrow> string + int" where
  "parse_timer value =
     (case from_chars value of
        None \<Rightarrow> Inl (''INVALID_OPTION: invalid timer interval: '' @ value)
      | Some interval \<Rightarrow>
          if interval < - 1 then Inl (''INVALID_OPTION: invalid timer interval: '' @ value) else Inr interval)"

definition parse_workers :: "string \<Rightarrow> string + nat" where
  "parse_workers value =
     (if value = ''all'' \<or> value = ''auto'' then Inr 0
      else case from_chars value of
             None \<Rightarrow> Inl (''INVALID_OPTION: invalid workers count: '' @ value @ ''. Expected positive integer or 'all'.'')
           | Some w \<Rightarrow>
               if w < 1
               then Inl (''INVALID_OPTION: invalid workers count: '' @ value @ ''. Expected positive integer or 'all'.'')
               else Inr (nat w))"

definition parse_choice :: "string \<Rightarrow> string list \<Rightarrow> string \<Rightarrow> string \<Rightarrow> string + string" where
  "parse_choice what choices expected value =
     (if value \<in> set choices then Inr value
      else Inl (''INVALID_OPTION: invalid '' @ what @ '': '' @ value @ ''. Expected '' @ expected @ ''.''))"

text \<open>An option with its value: how the value changes the configuration, given the options seen before.\<close>

type_synonym option_setter = "string \<Rightarrow> string list \<Rightarrow> ServerConfig \<Rightarrow> string + ServerConfig"

definition set_port :: option_setter where
  "set_port v seen c = map_sum id (\<lambda>p. c\<lparr>sc_port := p\<rparr>) (ParsePort v)"

definition set_http_port :: option_setter where
  "set_http_port v seen c = map_sum id (\<lambda>p. c\<lparr>http_port := p\<rparr>) (ParsePort v)"

definition set_log :: option_setter where
  "set_log v seen c = map_sum id (\<lambda>m. c\<lparr>sc_log_mode := m\<rparr>) (parse_log_mode v)"

definition set_log_dir :: option_setter where
  "set_log_dir v seen c =
     Inr (let c' = c\<lparr>log_dir := v\<rparr> in if ''log'' \<notin> set seen then c'\<lparr>sc_log_mode := Log_File\<rparr> else c')"

definition set_timer :: option_setter where
  "set_timer v seen c = map_sum id (\<lambda>i. c\<lparr>timer_interval_ms := i\<rparr>) (parse_timer v)"

definition set_persistence :: option_setter where
  "set_persistence v seen c =
     map_sum id (\<lambda>x. c\<lparr>persistence := x\<rparr>) (parse_choice ''persistence'' [''none'', ''aof''] ''none or aof'' v)"

definition set_data_dir :: option_setter where
  "set_data_dir v seen c = Inr (c\<lparr>data_dir := v\<rparr>)"

definition set_workers :: option_setter where
  "set_workers v seen c = map_sum id (\<lambda>w. c\<lparr>workers := w\<rparr>) (parse_workers v)"

definition set_fsync :: option_setter where
  "set_fsync v seen c =
     map_sum id (\<lambda>x. c\<lparr>fsync_policy := x\<rparr>)
       (parse_choice ''fsync policy'' [''always'', ''everysec'', ''no''] ''always, everysec, or no'' v)"

definition server_options :: "(string \<times> string \<times> option_setter) list" where
  "server_options =
     [(''--port'', ''port'', set_port), (''-p'', ''port'', set_port), (''--http-port'', ''http-port'', set_http_port),
      (''--log'', ''log'', set_log), (''-l'', ''log'', set_log), (''--log-dir'', ''log-dir'', set_log_dir),
      (''-d'', ''log-dir'', set_log_dir), (''--timer'', ''timer'', set_timer), (''-t'', ''timer'', set_timer),
      (''--cron'', ''timer'', set_timer), (''--persistence'', ''persistence'', set_persistence),
      (''--data-dir'', ''data-dir'', set_data_dir), (''--workers'', ''workers'', set_workers), (''-w'', ''workers'', set_workers),
      (''--fsync'', ''fsync'', set_fsync)]"

function server_loop :: "string list \<Rightarrow> string list \<Rightarrow> ServerConfig \<Rightarrow> string + ServerConfig" where
  "server_loop [] seen c = Inr c"
| "server_loop (argument # rest) seen c =
     (if argument = ''--help'' \<or> argument = ''-h'' then server_loop rest seen (c\<lparr>sc_show_help := True\<rparr>)
      else case map_of server_options argument of
             None \<Rightarrow> Inl (''INVALID_OPTION: unknown option: '' @ argument @ ''. Use gatekeeper --help.'')
           | Some (name, apply_value) \<Rightarrow>
               (case ReadOptionValue argument rest name seen of
                  Inl e \<Rightarrow> Inl e
                | Inr (value, rest', seen') \<Rightarrow>
                    (case apply_value value seen c of Inl e \<Rightarrow> Inl e | Inr c' \<Rightarrow> server_loop rest' seen' c')))"
  by pat_completeness auto
termination
  by (relation "measure (\<lambda>(args, _). length args)") (auto simp: ReadOptionValue_def split: if_splits list.splits)

definition ServerConfig_Parse :: "string list \<Rightarrow> string + ServerConfig" where
  "ServerConfig_Parse args = server_loop args [] default_ServerConfig"

text \<open>The usage text, with the line breaks the code has.\<close>

definition ServerConfig_Usage :: string where
  "ServerConfig_Usage =
     concat (map (\<lambda>l. l @ [CHR 0x0A])
       [''Usage: gatekeeper [-p port | --port port] [--http-port port] [-l mode | --log mode] [-d dir | --log-dir dir] [-t ms | --timer ms] [--help]'',
        ''  -p, --port       TCP listening port (default: 63779, range: 1..65535)'',
        ''      --http-port  HTTP API listening port (default: 0 disabled, range: 1..65535)'',
        ''  -l, --log        Logging mode: none, terminal, file (default: none)'',
        ''  -d, --log-dir    Directory to write log file (<dir>/log)'',
        ''  -t, --timer      Periodic timer interval in milliseconds (-1 to disable, default: -1)'',
        ''  -w, --workers    Number of worker threads/cores (default: all, or positive integer)'',
        ''  -h, --help       Show this help''])"

section \<open>The tool\<close>

record CliConfig =
  cc_host :: string
  cc_port :: int
  cc_show_help :: bool
  cc_log_mode :: log_mode
  cc_command :: "string option"

definition default_CliConfig :: CliConfig where
  "default_CliConfig =
     \<lparr>cc_host = ''127.0.0.1'', cc_port = kDefaultPort, cc_show_help = False, cc_log_mode = Log_None, cc_command = None\<rparr>"

function cli_loop :: "string list \<Rightarrow> string list \<Rightarrow> CliConfig \<Rightarrow> string + CliConfig" where
  "cli_loop [] seen c = Inr c"
| "cli_loop (argument # rest) seen c =
     (case cc_command c of
        Some command \<Rightarrow> cli_loop rest seen (c\<lparr>cc_command := Some (command @ '' '' @ argument)\<rparr>)
      | None \<Rightarrow>
          if argument = ''--help'' then cli_loop rest seen (c\<lparr>cc_show_help := True\<rparr>)
          else if argument = ''-h'' \<or> argument = ''--host''
          then (case ReadOptionValue argument rest ''host'' seen of
                  Inl e \<Rightarrow> Inl e
                | Inr (host, rest', seen') \<Rightarrow>
                    if host = [] then Inl ''INVALID_HOST: host cannot be empty''
                    else cli_loop rest' seen' (c\<lparr>cc_host := host\<rparr>))
          else if argument = ''-p'' \<or> argument = ''--port''
          then (case ReadOptionValue argument rest ''port'' seen of
                  Inl e \<Rightarrow> Inl e
                | Inr (value, rest', seen') \<Rightarrow>
                    (case ParsePort value of Inl e \<Rightarrow> Inl e | Inr port \<Rightarrow> cli_loop rest' seen' (c\<lparr>cc_port := port\<rparr>)))
          else if argument = ''--log'' \<or> argument = ''-v'' \<or> argument = ''--verbose''
          then (if ''log'' \<in> set seen then Inl ''INVALID_OPTION: log option may only be specified once''
                else cli_loop rest (''log'' # seen) (c\<lparr>cc_log_mode := Log_Terminal\<rparr>))
          else if argument \<noteq> [] \<and> hd argument = CHR ''-''
          then Inl (''INVALID_OPTION: unknown option: '' @ argument @ ''. Use gate --help.'')
          else cli_loop rest seen (c\<lparr>cc_command := Some argument\<rparr>))"
  by pat_completeness auto
termination
  by (relation "measure (\<lambda>(args, _). length args)") (auto simp: ReadOptionValue_def split: if_splits list.splits)

definition CliConfig_Parse :: "string list \<Rightarrow> string + CliConfig" where
  "CliConfig_Parse args = cli_loop args [] default_CliConfig"

definition CliConfig_Usage :: string where
  "CliConfig_Usage =
     concat (map (\<lambda>l. l @ [CHR 0x0A])
       [''Usage: gate [-h host | --host host] [-p port | --port port] [--log] [command]'',
        ''  -h, --host     Server host (default: 127.0.0.1)'',
        ''  -p, --port     TCP port (default: 63779, range: 1..65535)'',
        ''  --log, -v      Enable terminal logging'',
        ''  --help         Show this help''])"

section \<open>What is accepted\<close>

lemma from_chars_to_dec: "n < 2 ^ 31 \<Longrightarrow> from_chars (to_dec n) = Some (int n)"
  using isdigit_not_sign [OF hd_to_dec_isdigit [of n]] by (simp add: from_chars_def Let_def list_all_iff)

lemma ParsePort_range: "ParsePort value = Inr port \<Longrightarrow> 1 \<le> port \<and> port \<le> 65535"
  by (auto simp: ParsePort_def split: option.splits if_splits)

lemma ParsePort_to_dec: "1 \<le> n \<Longrightarrow> n \<le> 65535 \<Longrightarrow> ParsePort (to_dec n) = Inr (int n)"
  by (simp add: ParsePort_def from_chars_to_dec)

definition valid_ServerConfig :: "ServerConfig \<Rightarrow> bool" where
  "valid_ServerConfig c \<longleftrightarrow>
     1 \<le> sc_port c \<and> sc_port c \<le> 65535 \<and> 0 \<le> http_port c \<and> http_port c \<le> 65535 \<and> - 1 \<le> timer_interval_ms c
     \<and> persistence c \<in> {''none'', ''aof''} \<and> fsync_policy c \<in> {''always'', ''everysec'', ''no''} \<and> workers c < 2 ^ 31"

lemma from_chars_range: "from_chars s = Some v \<Longrightarrow> v < 2 ^ 31"
  by (auto simp: from_chars_def Let_def split: if_splits)

lemma parse_timer_range: "parse_timer s = Inr i \<Longrightarrow> - 1 \<le> i"
  by (auto simp: parse_timer_def split: option.splits if_splits)

lemma parse_workers_range: "parse_workers s = Inr w \<Longrightarrow> w < 2 ^ 31"
  using from_chars_range [of s] by (auto simp: parse_workers_def split: option.splits if_splits)

lemma parse_choice_member: "parse_choice what choices expected v = Inr x \<Longrightarrow> x \<in> set choices"
  by (auto simp: parse_choice_def split: if_splits)

lemma map_sum_eq_Inr: "map_sum f g x = Inr y \<longleftrightarrow> (\<exists>z. x = Inr z \<and> y = g z)"
  by (cases x) auto

lemma setters_valid:
  assumes "valid_ServerConfig c"
  shows "set_port v seen c = Inr c' \<Longrightarrow> valid_ServerConfig c'" and "set_http_port v seen c = Inr c' \<Longrightarrow> valid_ServerConfig c'"
    and "set_log v seen c = Inr c' \<Longrightarrow> valid_ServerConfig c'" and "set_log_dir v seen c = Inr c' \<Longrightarrow> valid_ServerConfig c'"
    and "set_timer v seen c = Inr c' \<Longrightarrow> valid_ServerConfig c'" and "set_persistence v seen c = Inr c' \<Longrightarrow> valid_ServerConfig c'"
    and "set_data_dir v seen c = Inr c' \<Longrightarrow> valid_ServerConfig c'" and "set_workers v seen c = Inr c' \<Longrightarrow> valid_ServerConfig c'"
    and "set_fsync v seen c = Inr c' \<Longrightarrow> valid_ServerConfig c'"
proof -
  note v = assms [unfolded valid_ServerConfig_def]
  show "valid_ServerConfig c'" if "set_port v seen c = Inr c'"
    using that v ParsePort_range [of v] by (auto simp: set_port_def map_sum_eq_Inr valid_ServerConfig_def)
  show "valid_ServerConfig c'" if "set_http_port v seen c = Inr c'"
    using that v ParsePort_range [of v] by (force simp: set_http_port_def map_sum_eq_Inr valid_ServerConfig_def)
  show "valid_ServerConfig c'" if "set_log v seen c = Inr c'"
    using that v by (auto simp: set_log_def map_sum_eq_Inr valid_ServerConfig_def)
  show "valid_ServerConfig c'" if "set_log_dir v seen c = Inr c'"
    using that v by (auto simp: set_log_dir_def Let_def valid_ServerConfig_def split: if_splits)
  show "valid_ServerConfig c'" if "set_timer v seen c = Inr c'"
    using that v parse_timer_range [of v] by (auto simp: set_timer_def map_sum_eq_Inr valid_ServerConfig_def)
  show "valid_ServerConfig c'" if "set_persistence v seen c = Inr c'"
    using that v by (auto simp: set_persistence_def map_sum_eq_Inr valid_ServerConfig_def dest!: parse_choice_member)
  show "valid_ServerConfig c'" if "set_data_dir v seen c = Inr c'"
    using that v by (auto simp: set_data_dir_def valid_ServerConfig_def)
  show "valid_ServerConfig c'" if "set_workers v seen c = Inr c'"
    using that v parse_workers_range [of v] by (auto simp: set_workers_def map_sum_eq_Inr valid_ServerConfig_def)
  show "valid_ServerConfig c'" if "set_fsync v seen c = Inr c'"
    using that v by (auto simp: set_fsync_def map_sum_eq_Inr valid_ServerConfig_def dest!: parse_choice_member)
qed

lemma server_option_valid:
  assumes "map_of server_options argument = Some (name, apply_value)" "apply_value v seen c = Inr c'" "valid_ServerConfig c"
  shows "valid_ServerConfig c'"
proof -
  have "apply_value \<in> {set_port, set_http_port, set_log, set_log_dir, set_timer, set_persistence, set_data_dir, set_workers, set_fsync}"
    using map_of_SomeD [OF assms(1)] by (auto simp: server_options_def)
  then show ?thesis using assms(2) by (auto dest: setters_valid [OF assms(3)])
qed

lemma server_loop_valid: "server_loop args seen c = Inr c' \<Longrightarrow> valid_ServerConfig c \<Longrightarrow> valid_ServerConfig c'"
proof (induction args seen c arbitrary: c' rule: server_loop.induct)
  case (2 argument rest seen c)
  show ?case
  proof (cases "argument = ''--help'' \<or> argument = ''-h''")
    case True
    moreover have "valid_ServerConfig (c\<lparr>sc_show_help := True\<rparr>)" using "2.prems"(2) by (simp add: valid_ServerConfig_def)
    ultimately show ?thesis using "2.IH"(1) [OF True] "2.prems"(1) by simp
  next
    case False
    then obtain name apply_value v rest' seen' c1 where o: "map_of server_options argument = Some (name, apply_value)"
      "ReadOptionValue argument rest name seen = Inr (v, rest', seen')" "apply_value v seen c = Inr c1"
      "server_loop rest' seen' c1 = Inr c'"
      using "2.prems"(1) by (auto split: option.splits sum.splits)
    then show ?thesis
      using "2.IH"(2) [OF False o(1) refl o(2) refl refl o(3,4)] server_option_valid [OF o(1,3) "2.prems"(2)] by simp
  qed
qed simp

text \<open>C31: Every command line the server accepts gives a well-formed configuration: ports in range, a timer interval
  that is off or not negative, a known persistence mode and fsync policy, and a count of workers that fits.\<close>

theorem accepted_configuration_valid:
  "ServerConfig_Parse args = Inr c \<Longrightarrow> valid_ServerConfig c"
  unfolding ServerConfig_Parse_def
  by (erule server_loop_valid) (simp add: valid_ServerConfig_def default_ServerConfig_def kDefaultPort_def)

theorem accepted_configuration_valid_witness:
  "valid_ServerConfig (default_ServerConfig\<lparr>sc_port := 7000, persistence := ''aof''\<rparr>)"
proof -
  have "ServerConfig_Parse [''--port'', ''7000'', ''--persistence'', ''aof'']
      = Inr (default_ServerConfig\<lparr>sc_port := 7000, persistence := ''aof''\<rparr>)"
    by code_simp
  then show ?thesis by (rule accepted_configuration_valid)
qed

end
