(* ===== verification/GK_Log.thy ===== *)
theory GK_Log
  imports GK_Config
begin

text \<open>
  The logger, \<open>src/core/log/logger.cpp\<close> and \<open>sink.cpp\<close> with \<open>level.h\<close>. Levels are ordered as the enumeration
  orders them. A sink is where the text goes: nowhere, to the terminal or to a file that could be opened or
  not; the text written so far is part of it. The time stamp is an argument.

  Shown: a logger writes exactly the messages of at least its level, one line each and in order, and no
  message at all when it is off.
\<close>

datatype Level = Level_Debug | Level_Info | Level_Warn | Level_Error | Level_None

fun level_rank :: "Level \<Rightarrow> nat" where
  "level_rank Level_Debug = 0"
| "level_rank Level_Info = 1"
| "level_rank Level_Warn = 2"
| "level_rank Level_Error = 3"
| "level_rank Level_None = 4"

lemma level_rank_inject [simp]: "level_rank a = level_rank b \<longleftrightarrow> a = b"
  by (cases a; cases b) simp_all

instantiation Level :: linorder
begin

definition less_eq_Level :: "Level \<Rightarrow> Level \<Rightarrow> bool" where
  "less_eq_Level a b \<longleftrightarrow> level_rank a \<le> level_rank b"

definition less_Level :: "Level \<Rightarrow> Level \<Rightarrow> bool" where
  "less_Level a b \<longleftrightarrow> level_rank a < level_rank b"

instance
  by standard (auto simp: less_eq_Level_def less_Level_def)

end

fun Level_ToString :: "Level \<Rightarrow> string" where
  "Level_ToString Level_Debug = ''DEBUG''"
| "Level_ToString Level_Info = ''INFO''"
| "Level_ToString Level_Warn = ''WARN''"
| "Level_ToString Level_Error = ''ERROR''"
| "Level_ToString Level_None = ''NONE''"

text \<open>\<open>File_sink path opened written\<close>: the stream is open or not.\<close>

datatype Sink = Null_sink | Console_sink string | File_sink string bool string

fun Sink_Write :: "string \<Rightarrow> Sink \<Rightarrow> Sink" where
  "Sink_Write message Null_sink = Null_sink"
| "Sink_Write message (Console_sink written) = Console_sink (written @ message)"
| "Sink_Write message (File_sink path opened written) =
     File_sink path opened (if opened then written @ message else written)"

record Logger =
  lg_sink :: Sink
  min_level :: Level

definition new_Logger :: "Sink option \<Rightarrow> Level \<Rightarrow> Logger" where
  "new_Logger sink level = \<lparr>lg_sink = (case sink of None \<Rightarrow> Null_sink | Some s \<Rightarrow> s), min_level = level\<rparr>"

definition IsEnabled :: "Level \<Rightarrow> Logger \<Rightarrow> bool" where
  "IsEnabled level lg \<longleftrightarrow> min_level lg \<noteq> Level_None \<and> min_level lg \<le> level"

definition log_line :: "string \<Rightarrow> Level \<Rightarrow> string \<Rightarrow> string" where
  "log_line timestamp level message =
     ''['' @ timestamp @ ''] ['' @ Level_ToString level @ ''] '' @ message @ [CHR 0x0A]"

definition Logger_Log :: "string \<Rightarrow> Level \<Rightarrow> string \<Rightarrow> Logger \<Rightarrow> Logger" where
  "Logger_Log timestamp level message lg =
     (if \<not> IsEnabled level lg then lg
      else lg\<lparr>lg_sink := Sink_Write (log_line timestamp level message) (lg_sink lg)\<rparr>)"

definition Logger_Null :: Logger where
  "Logger_Null = new_Logger (Some Null_sink) Level_None"

text \<open>The file is the one named \<open>log\<close> in the directory; whether it can be opened and what it holds already are
  arguments.\<close>

definition Logger_Create :: "bool \<Rightarrow> string \<Rightarrow> log_mode \<Rightarrow> string \<Rightarrow> Logger" where
  "Logger_Create opened before mode directory =
     (case mode of
        Log_None \<Rightarrow> new_Logger (Some Null_sink) Level_None
      | Log_Terminal \<Rightarrow> new_Logger (Some (Console_sink [])) Level_Debug
      | Log_File \<Rightarrow>
          let dir = (if directory = [] then ''./logs'' else directory)
          in new_Logger (Some (File_sink (dir @ ''/log'') opened before)) Level_Debug)"

fun written :: "Sink \<Rightarrow> string" where
  "written Null_sink = []"
| "written (Console_sink text) = text"
| "written (File_sink path opened text) = text"

definition log_all :: "(string \<times> Level \<times> string) list \<Rightarrow> Logger \<Rightarrow> Logger" where
  "log_all ms lg = fold (\<lambda>(timestamp, level, message). Logger_Log timestamp level message) ms lg"

lemma log_all_level [simp]: "min_level (log_all ms lg) = min_level lg"
  by (induction ms arbitrary: lg) (auto simp: log_all_def Logger_Log_def)

text \<open>An open sink holds what it held and then the lines of the enabled messages, in order.\<close>

lemma log_all_written:
  assumes "lg_sink lg = Console_sink t \<or> lg_sink lg = File_sink path True t"
  shows "written (lg_sink (log_all ms lg))
    = t @ concat (map (\<lambda>(timestamp, level, message). log_line timestamp level message)
            (filter (\<lambda>(timestamp, level, message). IsEnabled level lg) ms))"
  using assms
proof (induction ms arbitrary: lg t)
  case Nil
  then show ?case by (auto simp: log_all_def)
next
  case (Cons m ms)
  obtain ts l x where m: "m = (ts, l, x)" by (metis prod_cases3)
  let ?lg = "Logger_Log ts l x lg" and ?t = "if IsEnabled l lg then t @ log_line ts l x else t"
  have e: "IsEnabled k ?lg = IsEnabled k lg" for k by (simp add: Logger_Log_def IsEnabled_def)
  have "lg_sink ?lg = Console_sink ?t \<or> lg_sink ?lg = File_sink path True ?t"
    using Cons.prems by (auto simp: Logger_Log_def)
  from Cons.IH [OF this] show ?case by (simp add: log_all_def m e)
qed

text \<open>The null logger never changes, whatever is logged.\<close>

lemma log_all_null: "log_all ms (Logger_Create opened before Log_None dir) = Logger_Create opened before Log_None dir"
  by (induction ms)
    (auto simp: log_all_def Logger_Log_def Logger_Create_def new_Logger_def IsEnabled_def)

end
