(* ===== verification/GK_Http_Channel.thy ===== *)
theory GK_Http_Channel
  imports GK_Http GK_Channel "HOL-Library.Monad_Syntax"
begin

text \<open>
  A connection of the HTTP service, \<open>src/protocol/http/http_channel.cpp\<close>: collecting bytes until a request
  is complete, parsing its request line and headers, calling the handler, completing and sending its
  response. As for the binary connection, the outcomes of \<open>send\<close> are part of the state and the outcomes of
  \<open>recv\<close> come with the event.

  The length of a request is a sum of 64-bit numbers, one of which the client chooses: the loop over the
  requests of the buffer is a partial function, \<open>None\<close> when it does not end.

  Shown: however well-formed requests are cut into reads and the responses into writes, every request is
  answered once and in order; and a request whose announced length wraps the sum to zero is served
  for ever.
\<close>

section \<open>Parsing\<close>

definition tolower :: "char \<Rightarrow> char" where
  "tolower c = (if 65 \<le> byte_val c \<and> byte_val c \<le> 90 then char_of (byte_val c + 32) else c)"

definition trim :: "string \<Rightarrow> string" where
  "trim s = rev (dropWhile isspace (rev (dropWhile isspace s)))"

definition parse_length :: "string \<Rightarrow> u64" where
  "parse_length v = (case stoull v of Some (n, idx) \<Rightarrow> n | None \<Rightarrow> 0)"

text \<open>One header line: the table of headers and the length of the body.\<close>

definition header_line :: "string \<Rightarrow> (string \<times> string) list \<times> u64 \<Rightarrow> (string \<times> string) list \<times> u64" where
  "header_line line x =
     (case x of (hs, content_length) \<Rightarrow>
        (case str_find [CHR 0x3A] line 0 of
           None \<Rightarrow> (hs, content_length)
         | Some colon \<Rightarrow>
             let header_name = map tolower (take colon line);
                 header_val = trim (drop (colon + 1) line)
             in (emplace_header header_name header_val hs,
                 if header_name = ''content-length'' then parse_length header_val else content_length)))"

function header_lines :: "string \<Rightarrow> nat \<Rightarrow> (string \<times> string) list \<times> u64 \<Rightarrow> (string \<times> string) list \<times> u64" where
  "header_lines headers_sv line_start x =
     (if line_start < length headers_sv
      then let line_end = (case str_find crlf headers_sv line_start of Some e \<Rightarrow> e | None \<Rightarrow> length headers_sv)
           in header_lines headers_sv (line_end + 2)
                (header_line (take (line_end - line_start) (drop line_start headers_sv)) x)
      else x)"
  by pat_completeness auto
termination
proof (relation "measure (\<lambda>(h, s, x). length h - s)")
  fix h s x e assume "s < length (h :: string)" "e = (case str_find crlf h s of Some e \<Rightarrow> e | None \<Rightarrow> length h)"
  then have "s \<le> e" using str_find_bounds [of crlf h s] by (auto simp: crlf_def split: option.splits)
  then show "((h, e + 2, header_line (take (e - s) (drop s h)) x), h, s, x) \<in> measure (\<lambda>(h, s, x). length h - s)"
    using \<open>s < length h\<close> by simp
qed simp

declare header_lines.simps [simp del]

text \<open>The request line: method, target and version, or nothing when a space is missing.\<close>

definition request_line :: "string \<Rightarrow> (string \<times> string \<times> string) option" where
  "request_line line = do {
     first_space \<leftarrow> str_find [CHR 0x20] line 0;
     second_space \<leftarrow> str_find [CHR 0x20] line (first_space + 1);
     Some (take first_space line, take (second_space - first_space - 1) (drop (first_space + 1) line),
           drop (second_space + 1) line)
   }"

text \<open>The request up to its body, and the length of the body.\<close>

definition parse_head :: "string \<Rightarrow> (HttpRequest \<times> u64) option" where
  "parse_head headers_sv = do {
     first_line_end \<leftarrow> str_find crlf headers_sv 0;
     (meth, uri, version) \<leftarrow> request_line (take first_line_end headers_sv);
     let (path, query) = (case str_find [CHR 0x3F] uri 0 of
           Some q_pos \<Rightarrow> (take q_pos uri, drop (q_pos + 1) uri)
         | None \<Rightarrow> (uri, []));
     let (hs, content_length) = header_lines headers_sv (first_line_end + 2) ([], 0);
     Some (\<lparr>rq_method = meth, rq_uri = uri, rq_path = path, rq_query = query, rq_version = version,
            rq_headers = hs, rq_body = []\<rparr>, content_length)
   }"

datatype http_parse = Incomplete | Too_large | Malformed | Parsed HttpRequest string

text \<open>One round of the loop up to the handler; the sum is computed in 64 bits.\<close>

definition http_parse1 :: "string \<Rightarrow> http_parse" where
  "http_parse1 buf =
     (case str_find (crlf @ crlf) buf 0 of
        None \<Rightarrow> if length buf > 16384 then Too_large else Incomplete
      | Some header_end \<Rightarrow>
          (case parse_head (take header_end buf) of
             None \<Rightarrow> Malformed
           | Some (req, content_length) \<Rightarrow>
               let total_request_len = of_nat header_end + 4 + content_length
               in if length buf < unat total_request_len then Incomplete
                  else Parsed (req\<lparr>rq_body := take (unat content_length) (drop (header_end + 4) buf)\<rparr>)
                         (drop (unat total_request_len) buf)))"

section \<open>The connection\<close>

record HttpChannel =
  hc_closed :: bool
  read_buffer :: string
  hc_write_buffer :: string
  close_after_write :: bool
  hc_want_write :: bool
  hc_sends :: "send_outcome list"
  hc_out :: string

definition new_HttpChannel :: "send_outcome list \<Rightarrow> HttpChannel" where
  "new_HttpChannel sends =
     \<lparr>hc_closed = False, read_buffer = [], hc_write_buffer = [], close_after_write = False, hc_want_write = False,
      hc_sends = sends, hc_out = []\<rparr>"

definition HttpChannel_Close :: "HttpChannel \<Rightarrow> HttpChannel" where
  "HttpChannel_Close ch = (if hc_closed ch then ch else ch\<lparr>hc_closed := True\<rparr>)"

definition hc_send_call :: "string \<Rightarrow> HttpChannel \<Rightarrow> send_outcome \<times> HttpChannel" where
  "hc_send_call data ch =
     (case hc_sends ch of
        [] \<Rightarrow> (Send_again, ch)
      | Sent n # os \<Rightarrow>
          let k = min n (length data)
          in (Sent k, ch\<lparr>hc_sends := os, hc_out := hc_out ch @ take k data\<rparr>)
      | r # os \<Rightarrow> (r, ch\<lparr>hc_sends := os\<rparr>))"

definition hc_buffer :: "string \<Rightarrow> HttpChannel \<Rightarrow> HttpChannel" where
  "hc_buffer data ch = ch\<lparr>hc_write_buffer := hc_write_buffer ch @ data, hc_want_write := True\<rparr>"

definition HttpChannel_Send :: "string \<Rightarrow> HttpChannel \<Rightarrow> HttpChannel" where
  "HttpChannel_Send data ch =
     (if hc_closed ch then ch
      else if hc_write_buffer ch = []
      then (case hc_send_call data ch of
              (Sent k, ch1) \<Rightarrow>
                if k > 0
                then (if k = length data then (if close_after_write ch1 then HttpChannel_Close ch1 else ch1)
                      else hc_buffer (drop k data) ch1)
                else hc_buffer data ch1
            | (Send_failed, ch1) \<Rightarrow> HttpChannel_Close ch1
            | (_, ch1) \<Rightarrow> hc_buffer data ch1)
      else hc_buffer data ch)"

text \<open>The loop of \<open>HandleWrite\<close>; the flag says whether the function returns inside the loop.\<close>

function hc_write_pending :: "HttpChannel \<Rightarrow> HttpChannel \<times> bool" where
  "hc_write_pending ch =
     (if hc_closed ch \<or> hc_write_buffer ch = [] then (ch, False)
      else case hc_sends ch of
        [] \<Rightarrow> (ch, False)
      | Sent n # os \<Rightarrow>
          (let k = min n (length (hc_write_buffer ch));
               ch1 = snd (hc_send_call (hc_write_buffer ch) ch)
           in hc_write_pending (ch1\<lparr>hc_write_buffer := drop k (hc_write_buffer ch)\<rparr>))
      | Send_again # os \<Rightarrow> (ch\<lparr>hc_sends := os\<rparr>, False)
      | Send_interrupted # os \<Rightarrow> hc_write_pending (ch\<lparr>hc_sends := os\<rparr>)
      | Send_failed # os \<Rightarrow> (HttpChannel_Close (ch\<lparr>hc_sends := os\<rparr>), True))"
  by pat_completeness auto
termination
  by (relation "measure (\<lambda>ch. length (hc_sends ch))") (auto simp: hc_send_call_def Let_def)

declare hc_write_pending.simps [simp del]

definition HttpChannel_HandleWrite :: "HttpChannel \<Rightarrow> HttpChannel" where
  "HttpChannel_HandleWrite ch =
     (case hc_write_pending ch of
        (ch1, returned) \<Rightarrow>
          if returned then ch1
          else if \<not> hc_closed ch1 \<and> hc_write_buffer ch1 = []
          then (if close_after_write ch1 then HttpChannel_Close ch1 else ch1\<lparr>hc_want_write := False\<rparr>)
          else ch1)"

section \<open>Serving\<close>

type_synonym 's http_handler = "HttpRequest \<Rightarrow> 's \<Rightarrow> HttpResponse \<times> 's"

definition keeps_alive :: "HttpRequest \<Rightarrow> bool" where
  "keeps_alive req \<longleftrightarrow>
     (if rq_version req = ''HTTP/1.0'' then GetHeader ''connection'' req = ''keep-alive''
      else GetHeader ''connection'' req \<noteq> ''close'')"

definition complete_response :: "bool \<Rightarrow> HttpResponse \<Rightarrow> HttpResponse" where
  "complete_response keep_alive res =
     (let res1 = SetHeader ''Connection'' (if keep_alive then ''keep-alive'' else ''close'')
                   (SetHeader ''Server'' ''GateKeeper/1.0'' res);
          res2 = (if \<not> HasHeader ''Content-Type'' res1 then SetHeader ''Content-Type'' ''application/json'' res1 else res1)
      in SetHeader ''Content-Length'' (to_dec (length (resp_body res2))) res2)"

definition too_large_response :: HttpResponse where
  "too_large_response =
     (let body = ''{'' @ json_key ''error'' @ json_raw ''HEADER_TOO_LARGE'' @ ''}''
      in SetHeader ''Content-Length'' (to_dec (length body))
           (SetHeader ''Content-Type'' ''application/json''
             (SetHeader ''Connection'' ''close''
               \<lparr>resp_status = 431, resp_text = ''Request Header Fields Too Large'', resp_headers = [], resp_body = body\<rparr>)))"

text \<open>Serving one parsed request: the handler, the response and the closing of the connection.\<close>

definition serve_request :: "'s http_handler \<Rightarrow> HttpRequest \<Rightarrow> string \<Rightarrow> HttpChannel \<times> 's \<Rightarrow> HttpChannel \<times> 's" where
  "serve_request h req rest x =
     (case x of (ch, s) \<Rightarrow>
        let (res, s') = h req s;
            ch1 = ch\<lparr>read_buffer := rest, close_after_write := close_after_write ch \<or> \<not> keeps_alive req\<rparr>;
            ch2 = HttpChannel_Send (Serialize (complete_response (keeps_alive req) res)) ch1
        in (if close_after_write ch2 \<and> hc_write_buffer ch2 = [] then HttpChannel_Close ch2 else ch2, s'))"

partial_function (option) ProcessReadBuffer :: "'s http_handler \<Rightarrow> HttpChannel \<times> 's \<Rightarrow> (HttpChannel \<times> 's) option" where
  "ProcessReadBuffer h x =
     (if hc_closed (fst x) then Some x
      else case http_parse1 (read_buffer (fst x)) of
          Incomplete \<Rightarrow> Some x
        | Too_large \<Rightarrow>
            Some (HttpChannel_Send (Serialize too_large_response) ((fst x)\<lparr>close_after_write := True\<rparr>), snd x)
        | Malformed \<Rightarrow> Some (HttpChannel_Close (fst x), snd x)
        | Parsed req rest \<Rightarrow> ProcessReadBuffer h (serve_request h req rest x))"

fun HttpChannel_HandleRead :: "'s http_handler \<Rightarrow> recv_outcome list \<Rightarrow> HttpChannel \<times> 's \<Rightarrow> (HttpChannel \<times> 's) option" where
  "HttpChannel_HandleRead h [] x = Some x"
| "HttpChannel_HandleRead h (r # rs) x =
     (if hc_closed (fst x) then Some x
      else case r of
        Received bytes \<Rightarrow> do {
          y \<leftarrow> ProcessReadBuffer h ((fst x)\<lparr>read_buffer := read_buffer (fst x) @ bytes\<rparr>, snd x);
          HttpChannel_HandleRead h rs y
        }
      | Peer_closed \<Rightarrow> Some (HttpChannel_Close (fst x), snd x)
      | Recv_again \<Rightarrow> Some x
      | Recv_interrupted \<Rightarrow> HttpChannel_HandleRead h rs x
      | Recv_failed \<Rightarrow> Some (HttpChannel_Close (fst x), snd x))"

definition HttpChannel_HandleEvents :: "'s http_handler \<Rightarrow> io_event \<Rightarrow> HttpChannel \<times> 's \<Rightarrow> (HttpChannel \<times> 's) option" where
  "HttpChannel_HandleEvents h ev x =
     (if hc_closed (fst x) then Some x
      else do {
        (ch1, s1) \<leftarrow> (if ev_in ev then HttpChannel_HandleRead h (ev_recv ev) x else Some x);
        let ch2 = (if \<not> hc_closed ch1 \<and> ev_out ev then HttpChannel_HandleWrite ch1 else ch1);
        Some (if \<not> hc_closed ch2 \<and> ev_err ev then HttpChannel_Close ch2 else ch2, s1)
      })"

section \<open>Requests as clients print them\<close>

lemma find_from_append: "find_from pat i s = Some p \<Longrightarrow> find_from pat i (s @ q) = Some p"
proof (induction pat i s rule: find_from.induct)
  case (2 pat i c s)
  show ?case
  proof (cases "prefix pat (c # s)")
    case False
    then have f: "find_from pat (Suc i) s = Some p" using "2.prems" by simp
    then have "length pat \<le> length s" by (metis find_from_Some length_drop prefix_length_le diff_le_self le_trans)
    then have "\<not> prefix pat (c # s @ q)"
      using False prefix_length_prefix [of pat "c # s @ q" "c # s"] by auto
    then show ?thesis using "2.IH" [OF False f] False by simp
  qed (use "2.prems" prefix_prefix [of pat "c # s" q] in simp)
next
  case (1 pat i)
  then show ?case by (cases q) (auto split: if_splits)
qed

lemma find_from_shorten:
  "find_from pat i (s @ q) = Some p \<Longrightarrow> p + length pat \<le> i + length s \<Longrightarrow> pat \<noteq> [] \<Longrightarrow> find_from pat i s = Some p"
proof (induction s arbitrary: i)
  case Nil
  then show ?case using find_from_Some [of pat i q p] by (cases pat) auto
next
  case (Cons c s)
  show ?case
  proof (cases "prefix pat (c # s @ q)")
    case True
    then have "p = i" using Cons.prems(1) by simp
    then have "prefix pat (c # s)"
      using True Cons.prems(2) prefix_length_prefix [of pat "c # s @ q" "c # s"] by auto
    then show ?thesis using \<open>p = i\<close> by simp
  next
    case False
    then have "\<not> prefix pat (c # s)" using prefix_prefix [of pat "c # s" q] by auto
    then show ?thesis using False Cons by auto
  qed
qed

lemma find_from_none: "c \<notin> set s \<Longrightarrow> find_from (c # pat) i (s @ t) = find_from (c # pat) (i + length s) t"
  by (induction s arbitrary: i) auto

lemma find_from_absent: "c \<notin> set s \<Longrightarrow> find_from (c # pat) i s = None"
  using find_from_none [of c s pat i "[]"] by simp

lemma find_char: "c \<notin> set s \<Longrightarrow> find_from [c] i (s @ c # t) = Some (i + length s)"
  by (induction s arbitrary: i) auto

definition no_cr :: "string \<Rightarrow> bool" where
  "no_cr s \<longleftrightarrow> CHR 0x0D \<notin> set s"

lemma find_crlf: "no_cr l \<Longrightarrow> find_from crlf i (l @ crlf @ t) = Some (i + length l)"
  using find_from_none [of "CHR 0x0D" l "[CHR 0x0A]" i "crlf @ t"] by (simp add: no_cr_def crlf_def)

lemma find_no_crlf: "no_cr l \<Longrightarrow> find_from crlf i l = None"
  by (simp add: no_cr_def crlf_def find_from_absent)

lemma find_blank_line:
  assumes "list_all (\<lambda>l. no_cr l \<and> l \<noteq> []) ls" "ls \<noteq> []"
  shows "find_from (crlf @ crlf) i (join crlf ls @ crlf @ crlf @ t) = Some (i + length (join crlf ls))"
  using assms
proof (induction crlf ls arbitrary: i rule: join.induct)
  case (2 l)
  then show ?case
    using find_from_none [of "CHR 0x0D" l "[CHR 0x0A, CHR 0x0D, CHR 0x0A]" i "crlf @ crlf @ t"] by (simp add: no_cr_def crlf_def)
next
  case (3 l m ls)
  obtain c u where c: "join crlf (m # ls) @ crlf @ crlf @ t = c # u" "c \<noteq> CHR 0x0D"
    using 3(2) by (cases m; cases ls) (auto simp: no_cr_def)
  have "find_from (crlf @ crlf) i (join crlf (l # m # ls) @ crlf @ crlf @ t)
      = find_from (crlf @ crlf) (i + length l) (crlf @ c # u)"
    using find_from_none [of "CHR 0x0D" l "[CHR 0x0A, CHR 0x0D, CHR 0x0A]" i "crlf @ c # u"] 3(2) c(1)
    by (simp add: no_cr_def crlf_def)
  also have "\<dots> = find_from (crlf @ crlf) (i + length l + 2) (c # u)"
    using c(2) by (simp add: crlf_def)
  also have "\<dots> = Some (i + length l + 2 + length (join crlf (m # ls)))"
    unfolding c(1) [symmetric] using 3 by (intro 3(1)) auto
  finally show ?case by (simp add: crlf_def)
qed simp

lemma header_lines_join:
  assumes "list_all (\<lambda>l. no_cr l \<and> l \<noteq> []) ls"
  shows "header_lines (pre @ join crlf ls) (length pre) x = fold header_line ls x"
  using assms
proof (induction crlf ls arbitrary: pre x rule: join.induct)
  case 1
  then show ?case by (simp add: header_lines.simps)
next
  case (2 l)
  have "str_find crlf (pre @ l) (length pre) = None" using 2 find_no_crlf [of l "length pre"] by (simp add: str_find_def)
  then show ?case using 2
    by (simp add: header_lines.simps [of _ "length pre"] header_lines.simps [of _ "Suc (Suc (length pre + length l))"])
next
  case (3 l m ls)
  let ?h = "pre @ join crlf (l # m # ls)"
  have "str_find crlf ?h (length pre) = Some (length pre + length l)"
    using 3(2) find_crlf [of l "length pre" "join crlf (m # ls)"] by (simp add: str_find_def)
  then have "header_lines ?h (length pre) x = header_lines ((pre @ l @ crlf) @ join crlf (m # ls)) (length (pre @ l @ crlf)) (header_line l x)"
    using 3(2) by (subst header_lines.simps) (simp add: crlf_def)
  then show ?case using 3(1) [of "pre @ l @ crlf" "header_line l x"] 3(2) by simp
qed

record ClientRequest =
  cr_method :: string
  cr_path :: string
  cr_query :: "string option"
  cr_headers :: "(string \<times> string) list"
  cr_body :: string

definition target :: "ClientRequest \<Rightarrow> string" where
  "target r = cr_path r @ (case cr_query r of None \<Rightarrow> [] | Some q \<Rightarrow> CHR 0x3F # q)"

definition all_headers :: "ClientRequest \<Rightarrow> (string \<times> string) list" where
  "all_headers r = cr_headers r @ [(''Content-Length'', to_dec (length (cr_body r)))]"

definition request_lines :: "ClientRequest \<Rightarrow> string list" where
  "request_lines r =
     (cr_method r @ '' '' @ target r @ '' HTTP/1.1'') # map (\<lambda>(n, v). n @ '': '' @ v) (all_headers r)"

definition request_head :: "ClientRequest \<Rightarrow> string" where
  "request_head r = join crlf (request_lines r)"

definition print_request :: "ClientRequest \<Rightarrow> string" where
  "print_request r = request_head r @ crlf @ crlf @ cr_body r"

definition good_header :: "string \<times> string \<Rightarrow> bool" where
  "good_header h \<longleftrightarrow> no_cr (fst h) \<and> CHR 0x3A \<notin> set (fst h) \<and> map tolower (fst h) \<noteq> ''content-length''
     \<and> no_cr (snd h) \<and> trim (snd h) = snd h"

definition plain_text :: "string \<Rightarrow> bool" where
  "plain_text s \<longleftrightarrow> no_cr s \<and> CHR 0x20 \<notin> set s"

definition good_request :: "ClientRequest \<Rightarrow> bool" where
  "good_request r \<longleftrightarrow> plain_text (cr_method r) \<and> plain_text (cr_path r) \<and> CHR 0x3F \<notin> set (cr_path r)
     \<and> plain_text (case cr_query r of None \<Rightarrow> [] | Some q \<Rightarrow> q) \<and> list_all good_header (cr_headers r)
     \<and> length (request_head r) + 4 \<le> 16384 \<and> length (print_request r) < 2 ^ 64"

text \<open>The request the handler should get.\<close>

definition received_request :: "ClientRequest \<Rightarrow> HttpRequest" where
  "received_request r =
     \<lparr>rq_method = cr_method r, rq_uri = target r, rq_path = cr_path r,
      rq_query = (case cr_query r of None \<Rightarrow> [] | Some q \<Rightarrow> q), rq_version = ''HTTP/1.1'',
      rq_headers = fold (\<lambda>(n, v). emplace_header (map tolower n) v) (all_headers r) [], rq_body = cr_body r\<rparr>"

lemma header_line_print:
  assumes "CHR 0x3A \<notin> set n" "trim v = v"
  shows "header_line (n @ '': '' @ v) (hs, cl)
    = (emplace_header (map tolower n) v hs, if map tolower n = ''content-length'' then parse_length v else cl)"
proof -
  have "str_find [CHR 0x3A] (n @ '': '' @ v) 0 = Some (length n)"
    using find_char [OF assms(1), of 0] by (simp add: str_find_def)
  moreover have "trim (CHR 0x20 # v) = v" using assms(2) by (simp add: trim_def isspace_def byte_val_def)
  ultimately show ?thesis by (simp add: header_line_def Let_def)
qed

lemma header_lines_print:
  "list_all good_header hs \<Longrightarrow>
   fold header_line (map (\<lambda>(n, v). n @ '': '' @ v) hs) (acc, cl) = (fold (\<lambda>(n, v). emplace_header (map tolower n) v) hs acc, cl)"
proof (induction hs arbitrary: acc)
  case (Cons h hs)
  obtain n v where h: "h = (n, v)" by force
  have "header_line (n @ '': '' @ v) (acc, cl) = (emplace_header (map tolower n) v acc, cl)"
    using Cons.prems h header_line_print [of n v acc cl] unfolding good_header_def by simp
  then show ?case using Cons h unfolding good_header_def by simp
qed simp

lemma trim_to_dec: "trim (to_dec n) = to_dec n"
proof -
  have "\<not> isspace (hd (rev (to_dec n)))"
    using to_dec_digits [of "last (to_dec n)" n] isdigit_not_isspace by (simp add: hd_rev)
  then have "dropWhile isspace (rev (to_dec n)) = rev (to_dec n)" by (simp add: dropWhile_eq_self_iff)
  then show ?thesis by (simp add: trim_def)
qed

lemma parse_length_to_dec: "n < 2 ^ 64 \<Longrightarrow> parse_length (to_dec n) = of_nat n"
  by (simp add: parse_length_def stoull_def)

lemma no_cr_to_dec: "no_cr (to_dec n)"
  using to_dec_digits [of "CHR 0x0D" n] by (auto simp: no_cr_def isdigit_def byte_val_def)

lemma no_cr_simps [simp]:
  "no_cr []" "no_cr (s @ t) \<longleftrightarrow> no_cr s \<and> no_cr t" "no_cr (c # s) \<longleftrightarrow> c \<noteq> CHR 0x0D \<and> no_cr s"
  by (auto simp: no_cr_def)

lemma request_lines_ok:
  assumes "good_request r"
  shows "list_all (\<lambda>l. no_cr l \<and> l \<noteq> []) (request_lines r)"
proof -
  have "no_cr (target r)" using assms by (auto simp: good_request_def plain_text_def target_def split: option.splits)
  moreover have "list_all (\<lambda>l. no_cr l \<and> l \<noteq> []) (map (\<lambda>(n, v). n @ '': '' @ v) (cr_headers r))"
    using assms by (auto simp: good_request_def good_header_def list_all_iff)
  ultimately show ?thesis
    using assms by (simp add: request_lines_def all_headers_def no_cr_to_dec good_request_def plain_text_def)
qed

lemma request_line_print:
  assumes "CHR 0x20 \<notin> set m" "CHR 0x20 \<notin> set u"
  shows "request_line (m @ '' '' @ u @ '' HTTP/1.1'') = Some (m, u, ''HTTP/1.1'')"
proof -
  have "str_find [CHR 0x20] (m @ '' '' @ u @ '' HTTP/1.1'') 0 = Some (length m)"
    using find_char [OF assms(1), of 0] by (simp add: str_find_def)
  moreover have "str_find [CHR 0x20] (m @ '' '' @ u @ '' HTTP/1.1'') (length m + 1) = Some (length m + 1 + length u)"
    using find_char [OF assms(2), of "length m + 1" "''HTTP/1.1''"] by (simp add: str_find_def)
  ultimately show ?thesis by (simp add: request_line_def)
qed

lemma target_split:
  assumes "CHR 0x3F \<notin> set (cr_path r)"
  shows "(case str_find [CHR 0x3F] (target r) 0 of Some q \<Rightarrow> (take q (target r), drop (q + 1) (target r)) | None \<Rightarrow> (target r, []))
    = (cr_path r, case cr_query r of None \<Rightarrow> [] | Some q \<Rightarrow> q)"
  using find_char [OF assms, of 0] find_from_absent [OF assms, of "[]" 0]
  by (cases "cr_query r") (simp_all add: target_def str_find_def)

lemma content_length_lower: "map tolower ''Content-Length'' = ''content-length''"
  by code_simp

lemma parse_head_print:
  assumes "good_request r"
  shows "parse_head (request_head r) = Some ((received_request r)\<lparr>rq_body := []\<rparr>, of_nat (length (cr_body r)))"
proof -
  define l where "l = cr_method r @ '' '' @ target r @ '' HTTP/1.1''"
  define ls where "ls = map (\<lambda>(n, v). n @ '': '' @ v) (all_headers r)"
  have ok: "list_all (\<lambda>l. no_cr l \<and> l \<noteq> []) ls" "no_cr l"
    using request_lines_ok [OF assms] by (auto simp: request_lines_def l_def ls_def)
  have "ls \<noteq> []" by (simp add: all_headers_def ls_def)
  then have head: "request_head r = l @ crlf @ join crlf ls"
    unfolding request_head_def request_lines_def l_def [symmetric] ls_def [symmetric] by (cases ls) simp_all
  have f: "str_find crlf (request_head r) 0 = Some (length l)" "take (length l) (request_head r) = l"
    using find_crlf [OF ok(2), of 0 "join crlf ls"] by (simp_all add: str_find_def head)
  have sp: "CHR 0x20 \<notin> set (cr_method r)" "CHR 0x20 \<notin> set (target r)" "CHR 0x3F \<notin> set (cr_path r)"
    using assms by (auto simp: good_request_def plain_text_def target_def split: option.splits)
  have rl: "request_line l = Some (cr_method r, target r, ''HTTP/1.1'')"
    unfolding l_def by (rule request_line_print [OF sp(1,2)])
  have small: "length (cr_body r) < 2 ^ 64" using assms by (simp add: good_request_def print_request_def)
  have "fold header_line ls ([], 0) = (rq_headers (received_request r), of_nat (length (cr_body r)))"
    using assms header_lines_print [of "cr_headers r" "[]" 0] header_line_print [OF _ trim_to_dec, of "''Content-Length''"]
      parse_length_to_dec [OF small] content_length_lower
    by (simp add: ls_def all_headers_def good_request_def received_request_def del: append_Cons)
  then have hl: "header_lines (request_head r) (length l + 2) ([], 0)
      = (rq_headers (received_request r), of_nat (length (cr_body r)))"
    using header_lines_join [OF ok(1), of "l @ crlf"] by (simp add: head crlf_def)
  show ?thesis
    unfolding parse_head_def f Option.bind.simps rl prod.case target_split [OF sp(3)] hl Let_def
    by (simp add: received_request_def)
qed

lemma received_body: "(received_request r)\<lparr>rq_body := cr_body r\<rparr> = received_request r"
  by (simp add: received_request_def)

lemma unat_of_nat_64: "n < 2 ^ 64 \<Longrightarrow> unat (of_nat n :: u64) = n"
  by (simp add: unsigned_of_nat take_bit_nat_eq_self)

lemma parse_prefix:
  assumes "good_request r" and "b @ q = print_request r @ rest"
  shows "http_parse1 b =
    (if length b < length (print_request r) then Incomplete
     else Parsed (received_request r) (drop (length (print_request r)) b))"
proof -
  let ?n = "length (request_head r)" and ?pat = "crlf @ crlf"
  have ne: "request_lines r \<noteq> []" by (simp add: request_lines_def)
  have full: "find_from ?pat 0 (b @ q) = Some ?n"
    using find_blank_line [OF request_lines_ok [OF assms(1)] ne, of 0 "cr_body r @ rest"]
    by (simp add: assms(2) print_request_def request_head_def)
  have pat: "length ?pat = 4" "?pat \<noteq> []" by (simp_all add: crlf_def)
  have len: "length (print_request r) = ?n + 4 + length (cr_body r)" by (simp add: print_request_def crlf_def)
  have bound: "length (print_request r) < 2 ^ 64" "?n + 4 \<le> 16384" using assms(1) by (simp_all add: good_request_def)
  show ?thesis
  proof (cases "?n + 4 \<le> length b")
    case True
    then have f: "str_find ?pat b 0 = Some ?n"
      using find_from_shorten [OF full _ pat(2)] pat(1) by (simp add: str_find_def)
    have "take ?n b = request_head r" "drop (?n + 4) b @ q = cr_body r @ rest"
      using True arg_cong [OF assms(2), of "take ?n"] arg_cong [OF assms(2), of "drop (?n + 4)"]
      by (simp_all add: print_request_def crlf_def)
    moreover have "unat (of_nat ?n + 4 + of_nat (length (cr_body r)) :: u64) = length (print_request r)"
      using unat_of_nat_64 [OF bound(1)] unfolding len by simp
    moreover have "take (length (cr_body r)) (drop (?n + 4) b) = cr_body r" if "length (print_request r) \<le> length b"
      using that len arg_cong [OF calculation(2), of "take (length (cr_body r))"] by simp
    moreover have "unat (of_nat (length (cr_body r)) :: u64) = length (cr_body r)"
      using bound(1) len by (intro unat_of_nat_64) simp
    ultimately show ?thesis
      using parse_head_print [OF assms(1)] by (simp add: http_parse1_def f Let_def received_body)
  next
    case False
    have "str_find ?pat b 0 = None"
    proof (rule ccontr)
      assume "str_find ?pat b 0 \<noteq> None"
      then obtain p where p: "str_find ?pat b 0 = Some p" by blast
      then have "p = ?n" using full find_from_append [of ?pat 0 b p q] by (simp add: str_find_def)
      then show False using str_find_bounds [OF p pat(2)] pat(1) False by simp
    qed
    then show ?thesis using False len bound(2) by (simp add: http_parse1_def)
  qed
qed

section \<open>What the client should get\<close>

fun http_answers :: "'s http_handler \<Rightarrow> HttpRequest list \<Rightarrow> 's \<Rightarrow> string \<times> 's" where
  "http_answers h [] s = ([], s)"
| "http_answers h (req # reqs) s =
     (let (res, s1) = h req s; (out, s2) = http_answers h reqs s1
      in (Serialize (complete_response True res) @ out, s2))"

definition http_wire :: "ClientRequest list \<Rightarrow> string" where
  "http_wire rs = concat (map print_request rs)"

definition ok_request :: "ClientRequest \<Rightarrow> bool" where
  "ok_request r \<longleftrightarrow> good_request r \<and> keeps_alive (received_request r)"

definition hfollows :: "string \<Rightarrow> HttpChannel \<Rightarrow> bool" where
  "hfollows acc ch \<longleftrightarrow>
     (if hc_closed ch then prefix (hc_out ch) acc else hc_out ch @ hc_write_buffer ch = acc)"

lemma hfollows_prefix: "hfollows acc ch \<Longrightarrow> prefix (hc_out ch) (acc @ tail)"
  by (auto simp: hfollows_def split: if_splits)

lemma hfollows_Close: "hfollows acc ch \<Longrightarrow> hfollows acc (HttpChannel_Close ch)"
  by (auto simp: hfollows_def HttpChannel_Close_def split: if_splits)

lemma hfollows_Send: "hfollows acc ch \<Longrightarrow> hfollows (acc @ data) (HttpChannel_Send data ch)"
proof (cases "hc_sends ch")
  case (Cons q os)
  then show "hfollows acc ch \<Longrightarrow> ?thesis"
    by (cases q) (auto simp: HttpChannel_Send_def hc_send_call_def hc_buffer_def HttpChannel_Close_def hfollows_def Let_def
        min_def split: if_splits)
qed (auto simp: HttpChannel_Send_def hc_send_call_def hc_buffer_def hfollows_def split: if_splits)

lemma Send_keeps [simp]:
  "read_buffer (HttpChannel_Send data ch) = read_buffer ch"
  "close_after_write (HttpChannel_Send data ch) = close_after_write ch"
proof -
  have "read_buffer (HttpChannel_Send data ch) = read_buffer ch
      \<and> close_after_write (HttpChannel_Send data ch) = close_after_write ch"
  proof (cases "hc_sends ch")
    case (Cons q os)
    then show ?thesis
      by (cases q) (simp_all add: HttpChannel_Send_def hc_send_call_def hc_buffer_def HttpChannel_Close_def Let_def)
  qed (simp add: HttpChannel_Send_def hc_send_call_def hc_buffer_def)
  then show "read_buffer (HttpChannel_Send data ch) = read_buffer ch"
    "close_after_write (HttpChannel_Send data ch) = close_after_write ch" by simp_all
qed

lemma write_pending_keeps:
  "read_buffer (fst (hc_write_pending ch)) = read_buffer ch \<and> close_after_write (fst (hc_write_pending ch)) = close_after_write ch
   \<and> (hfollows acc ch \<longrightarrow> hfollows acc (fst (hc_write_pending ch)))"
proof (induction ch rule: hc_write_pending.induct)
  case (1 ch)
  show ?case
  proof (cases "hc_closed ch \<or> hc_write_buffer ch = []")
    case False
    show ?thesis
    proof (cases "hc_sends ch")
      case (Cons q os)
      then show ?thesis
      proof (cases q)
        case (Sent n)
        define k where "k = min n (length (hc_write_buffer ch))"
        let ?ch = "(snd (hc_send_call (hc_write_buffer ch) ch))\<lparr>hc_write_buffer := drop k (hc_write_buffer ch)\<rparr>"
        have "hc_write_pending ch = hc_write_pending ?ch"
          using False Cons Sent by (simp add: hc_write_pending.simps [of ch] Let_def k_def)
        moreover have "read_buffer ?ch = read_buffer ch" "close_after_write ?ch = close_after_write ch"
          "hfollows acc ch \<longrightarrow> hfollows acc ?ch"
          using False Cons Sent by (auto simp: hc_send_call_def Let_def hfollows_def k_def)
        ultimately show ?thesis using "1.IH"(1) [OF False Cons Sent k_def refl] by simp
      next
        case Send_interrupted
        then show ?thesis using "1.IH"(2) [OF False Cons] False Cons
          by (simp add: hc_write_pending.simps [of ch] hfollows_def)
      qed (use False in \<open>auto simp: hc_write_pending.simps [of ch] hfollows_def HttpChannel_Close_def\<close>)
    qed (simp add: hc_write_pending.simps [of ch])
  qed (auto simp: hc_write_pending.simps [of ch])
qed

lemma HandleWrite_keeps:
  assumes "\<not> close_after_write ch"
  shows "read_buffer (HttpChannel_HandleWrite ch) = read_buffer ch"
    and "\<not> close_after_write (HttpChannel_HandleWrite ch)"
    and "hfollows acc ch \<Longrightarrow> hfollows acc (HttpChannel_HandleWrite ch)"
    and "hc_closed ch \<Longrightarrow> hc_closed (HttpChannel_HandleWrite ch)"
proof -
  obtain ch1 r where w: "hc_write_pending ch = (ch1, r)" by fastforce
  then have k: "read_buffer ch1 = read_buffer ch" "close_after_write ch1 = close_after_write ch" "hfollows acc ch \<Longrightarrow> hfollows acc ch1"
    using write_pending_keeps [of ch acc] by auto
  show "read_buffer (HttpChannel_HandleWrite ch) = read_buffer ch" "\<not> close_after_write (HttpChannel_HandleWrite ch)"
    using k assms by (simp_all add: HttpChannel_HandleWrite_def w)
  show "hfollows acc ch \<Longrightarrow> hfollows acc (HttpChannel_HandleWrite ch)"
    using k assms by (auto simp: HttpChannel_HandleWrite_def w hfollows_def split: if_splits)
  show "hc_closed ch \<Longrightarrow> hc_closed (HttpChannel_HandleWrite ch)"
    by (simp add: HttpChannel_HandleWrite_def hc_write_pending.simps [of ch])
qed

text \<open>\<open>on_http\<close>: a connection that has answered the requests before \<open>rs\<close>, the first of which is not
  complete in its buffer, and to which the bytes \<open>rest\<close> are still to come.\<close>

definition on_http :: "string \<Rightarrow> string \<Rightarrow> ClientRequest list \<Rightarrow> HttpChannel \<Rightarrow> bool" where
  "on_http acc rest rs ch \<longleftrightarrow> hfollows acc ch \<and> \<not> close_after_write ch \<and>
     (\<not> hc_closed ch \<longrightarrow> read_buffer ch @ rest = http_wire rs
        \<and> (rs = [] \<or> length (read_buffer ch) < length (print_request (hd rs))))"

lemma http_wire_Nil [simp]: "http_wire [] = []"
  by (simp add: http_wire_def)

lemma http_wire_Cons [simp]: "http_wire (r # rs) = print_request r @ http_wire rs"
  by (simp add: http_wire_def)

lemma parse_nothing [simp]: "http_parse1 [] = Incomplete"
  by (simp add: http_parse1_def str_find_def crlf_def)

lemma serve_request_alive:
  assumes "keeps_alive req" "\<not> close_after_write ch" "h req s = (res, s')"
  shows "serve_request h req rest (ch, s)
    = (HttpChannel_Send (Serialize (complete_response True res)) (ch\<lparr>read_buffer := rest\<rparr>), s')"
proof -
  have "ch\<lparr>read_buffer := rest, close_after_write := False\<rparr> = ch\<lparr>read_buffer := rest\<rparr>"
    using assms(2) by (cases ch) simp
  then show ?thesis using assms by (simp add: serve_request_def Let_def)
qed

lemma http_answers_append:
  "http_answers h (rs @ rs') s
   = (case http_answers h rs s of (o1, s1) \<Rightarrow> (case http_answers h rs' s1 of (o2, s2) \<Rightarrow> (o1 @ o2, s2)))"
  by (induction rs arbitrary: s) (auto simp: Let_def split: prod.split)

text \<open>\<open>advance\<close>: from the state \<open>s\<close> with the requests \<open>rs\<close> to come, a run ends in a state that has answered the
  first of them and is on track for the others.\<close>

definition advance ::
  "'s http_handler \<Rightarrow> string \<Rightarrow> string \<Rightarrow> ClientRequest list \<Rightarrow> 's \<Rightarrow> (HttpChannel \<times> 's) option \<Rightarrow> bool" where
  "advance h acc rest rs s r \<longleftrightarrow>
     (\<exists>ch' s' k out. r = Some (ch', s') \<and> http_answers h (map received_request (take k rs)) s = (out, s')
        \<and> on_http (acc @ out) rest (drop k rs) ch')"

lemma advance_refl: "on_http acc rest rs ch \<Longrightarrow> advance h acc rest rs s (Some (ch, s))"
  unfolding advance_def by (intro exI [of _ ch] exI [of _ s] exI [of _ 0] exI [of _ "[]"]) simp

lemma advance_later:
  assumes "http_answers h (map received_request (take k rs)) s = (o1, s1)" "advance h (acc @ o1) rest (drop k rs) s1 r"
  shows "advance h acc rest rs s r"
proof -
  obtain ch' s' j o2 where j: "r = Some (ch', s')" "http_answers h (map received_request (take j (drop k rs))) s1 = (o2, s')"
    "on_http ((acc @ o1) @ o2) rest (drop j (drop k rs)) ch'"
    using assms(2) unfolding advance_def by blast
  moreover have "drop (k + j) rs = drop j (drop k rs)" by (simp add: add.commute)
  ultimately show ?thesis unfolding advance_def using assms(1)
    by (intro exI [of _ ch'] exI [of _ s'] exI [of _ "k + j"] exI [of _ "o1 @ o2"])
      (simp add: take_add http_answers_append del: drop_drop)
qed

lemma advance_bind:
  assumes "advance h acc rest' rs s r"
    and "\<And>ch s acc rs. on_http acc rest' rs ch \<Longrightarrow> list_all ok_request rs \<Longrightarrow> advance h acc rest rs s (f (ch, s))"
    and "list_all ok_request rs"
  shows "advance h acc rest rs s (Option.bind r f)"
proof -
  obtain ch s' k o1 where r: "r = Some (ch, s')" "http_answers h (map received_request (take k rs)) s = (o1, s')"
    "on_http (acc @ o1) rest' (drop k rs) ch"
    using assms(1) unfolding advance_def by blast
  have "list_all ok_request (drop k rs)" using assms(3) by (auto simp: list_all_iff dest: in_set_dropD)
  from advance_later [OF r(2) assms(2) [OF r(3) this]] show ?thesis by (simp add: r(1))
qed

lemma ProcessReadBuffer_track:
  assumes "list_all ok_request rs" "read_buffer ch @ rest = http_wire rs" "hfollows acc ch" "\<not> hc_closed ch"
    "\<not> close_after_write ch"
  shows "advance h acc rest rs s (ProcessReadBuffer h (ch, s))"
  using assms
proof (induction rs arbitrary: ch acc s)
  case Nil
  then have "ProcessReadBuffer h (ch, s) = Some (ch, s)" by (simp add: ProcessReadBuffer.simps)
  then show ?case using Nil advance_refl [of acc rest "[]" ch h s] by (simp add: on_http_def)
next
  case (Cons r rs)
  have ok: "good_request r" "keeps_alive (received_request r)" using Cons.prems(1) by (simp_all add: ok_request_def)
  have p: "http_parse1 (read_buffer ch) =
    (if length (read_buffer ch) < length (print_request r) then Incomplete
     else Parsed (received_request r) (drop (length (print_request r)) (read_buffer ch)))"
    using parse_prefix [OF ok(1), of "read_buffer ch" rest "http_wire rs"] Cons.prems(2) by simp
  show ?case
  proof (cases "length (read_buffer ch) < length (print_request r)")
    case True
    then have "ProcessReadBuffer h (ch, s) = Some (ch, s)" using Cons.prems(4) p by (simp add: ProcessReadBuffer.simps)
    then show ?thesis using Cons.prems True advance_refl [of acc rest "r # rs" ch h s] by (simp add: on_http_def)
  next
    case False
    let ?rest = "drop (length (print_request r)) (read_buffer ch)"
    obtain res s1 where h: "h (received_request r) s = (res, s1)" by fastforce
    let ?reply = "Serialize (complete_response True res)"
    let ?ch = "HttpChannel_Send ?reply (ch\<lparr>read_buffer := ?rest\<rparr>)"
    have step: "ProcessReadBuffer h (ch, s) = ProcessReadBuffer h (?ch, s1)"
      using Cons.prems(4) p False serve_request_alive [where h = h, OF ok(2) Cons.prems(5) h]
      by (simp add: ProcessReadBuffer.simps [of h "(ch, s)"])
    have fol: "hfollows (acc @ ?reply) ?ch"
      using Cons.prems(3) by (intro hfollows_Send) (simp add: hfollows_def)
    have "advance h (acc @ ?reply) rest rs s1 (ProcessReadBuffer h (?ch, s1))"
    proof (cases "hc_closed ?ch")
      case True
      then have "ProcessReadBuffer h (?ch, s1) = Some (?ch, s1)" by (simp add: ProcessReadBuffer.simps)
      moreover have "on_http (acc @ ?reply) rest rs ?ch" using fol True Cons.prems(5) by (simp add: on_http_def)
      ultimately show ?thesis using advance_refl by metis
    next
      case opn: False
      have "read_buffer ?ch @ rest = http_wire rs"
        using False arg_cong [OF Cons.prems(2), of "drop (length (print_request r))"] by simp
      then show ?thesis using Cons.IH [of ?ch "acc @ ?reply" s1] Cons.prems(1,5) fol opn by simp
    qed
    then show ?thesis using advance_later [of h 1 "r # rs" s ?reply s1 acc rest] h step by simp
  qed
qed

lemma on_http_closed: "on_http acc rest rs ch \<Longrightarrow> hc_closed ch \<Longrightarrow> on_http acc rest' rs' ch"
  by (simp add: on_http_def)

lemma on_http_Close: "on_http acc rest rs ch \<Longrightarrow> on_http acc rest' rs' (HttpChannel_Close ch)"
  by (auto simp: on_http_def HttpChannel_Close_def hfollows_def split: if_splits)

lemma on_http_HandleWrite: "on_http acc rest rs ch \<Longrightarrow> on_http acc rest rs (HttpChannel_HandleWrite ch)"
  using HandleWrite_keeps [of ch] by (auto simp: on_http_def)

lemma HandleRead_advance:
  assumes "on_http acc (concat (chunks ins) @ rest) rs ch" "list_all ok_request rs"
  shows "advance h acc rest rs s (HttpChannel_HandleRead h ins (ch, s))"
  using assms
proof (induction ins arbitrary: ch s acc rs)
  case Nil
  then show ?case using advance_refl [of acc rest rs ch h s] by simp
next
  case (Cons r ins)
  note close = on_http_Close [OF Cons.prems(1), of rest rs]
  show ?case
  proof (cases "hc_closed ch")
    case True
    then show ?thesis using advance_refl [OF on_http_closed [OF Cons.prems(1) True]] by simp
  next
    case False
    show ?thesis
    proof (cases r)
      case (Received b)
      let ?ch = "ch\<lparr>read_buffer := read_buffer ch @ b\<rparr>"
      have "advance h acc (concat (chunks ins) @ rest) rs s (ProcessReadBuffer h (?ch, s))"
      proof (rule ProcessReadBuffer_track [OF Cons.prems(2)])
        show "read_buffer ?ch @ concat (chunks ins) @ rest = http_wire rs" "hfollows acc ?ch" "\<not> hc_closed ?ch" "\<not> close_after_write ?ch"
          using Cons.prems(1) False Received by (simp_all add: on_http_def hfollows_def)
      qed
      then have "advance h acc rest rs s (Option.bind (ProcessReadBuffer h (?ch, s)) (HttpChannel_HandleRead h ins))"
        by (rule advance_bind [OF _ _ Cons.prems(2)]) (rule Cons.IH)
      moreover have "HttpChannel_HandleRead h (r # ins) (ch, s)
          = Option.bind (ProcessReadBuffer h (?ch, s)) (HttpChannel_HandleRead h ins)"
        using False Received by simp
      ultimately show ?thesis by (simp only:)
    next
      case Recv_interrupted
      then show ?thesis using Cons.IH [OF _ Cons.prems(2)] Cons.prems(1) False by simp
    next
      case Recv_again
      then show ?thesis using advance_refl [of acc rest rs ch] Cons.prems(1) False by simp
    qed (use False advance_refl [OF close] in simp_all)
  qed
qed

lemma HandleEvents_advance:
  assumes "on_http acc (concat (ev_chunks ev) @ rest) rs ch" "list_all ok_request rs"
  shows "advance h acc rest rs s (HttpChannel_HandleEvents h ev (ch, s))"
proof (cases "hc_closed ch")
  case True
  then show ?thesis
    using advance_refl [OF on_http_closed [OF assms(1) True]] by (simp add: HttpChannel_HandleEvents_def)
next
  case False
  define f where "f = (\<lambda>(ch1, s1).
    let ch2 = (if \<not> hc_closed ch1 \<and> ev_out ev then HttpChannel_HandleWrite ch1 else ch1)
    in Some (if \<not> hc_closed ch2 \<and> ev_err ev then HttpChannel_Close ch2 else ch2, s1 :: 'a))"
  have read: "advance h acc rest rs s (if ev_in ev then HttpChannel_HandleRead h (ev_recv ev) (ch, s) else Some (ch, s))"
    using HandleRead_advance [OF _ assms(2), of acc "ev_recv ev" rest ch] advance_refl [of acc rest rs ch] assms(1)
    by (simp add: ev_chunks_def split: if_splits)
  have "advance h acc rest rs s (f (ch, s))" if "on_http acc rest rs ch" for ch s acc rs
  proof -
    have "on_http acc rest rs (if \<not> hc_closed ch \<and> ev_out ev then HttpChannel_HandleWrite ch else ch)"
      using that on_http_HandleWrite by simp
    then show ?thesis using on_http_Close by (auto simp: f_def Let_def intro!: advance_refl)
  qed
  from advance_bind [where f = f, OF read this assms(2)] show ?thesis
    using False by (simp add: HttpChannel_HandleEvents_def f_def)
qed

fun http_channel_run :: "'s http_handler \<Rightarrow> io_event list \<Rightarrow> HttpChannel \<times> 's \<Rightarrow> (HttpChannel \<times> 's) option" where
  "http_channel_run h [] x = Some x"
| "http_channel_run h (ev # evs) x = Option.bind (HttpChannel_HandleEvents h ev x) (http_channel_run h evs)"

lemma http_channel_run_advance:
  assumes "on_http acc (concat (concat (map ev_chunks evs)) @ rest) rs ch" "list_all ok_request rs"
  shows "advance h acc rest rs s (http_channel_run h evs (ch, s))"
  using assms
proof (induction evs arbitrary: ch s acc rs)
  case Nil
  then show ?case using advance_refl [of acc rest rs ch h s] by simp
next
  case (Cons ev evs)
  have "advance h acc (concat (concat (map ev_chunks evs)) @ rest) rs s (HttpChannel_HandleEvents h ev (ch, s))"
    using Cons.prems by (intro HandleEvents_advance) simp_all
  then have "advance h acc rest rs s (Option.bind (HttpChannel_HandleEvents h ev (ch, s)) (http_channel_run h evs))"
    by (rule advance_bind [OF _ _ Cons.prems(2)]) (rule Cons.IH)
  then show ?case by (simp only: http_channel_run.simps)
qed

text \<open>Once all the bytes have arrived, an open connection has answered all the requests.\<close>

lemma on_http_complete: "on_http acc [] rs ch \<Longrightarrow> \<not> hc_closed ch \<Longrightarrow> rs = []"
  by (cases rs) (auto simp: on_http_def)

lemma on_http_new: "on_http [] (http_wire rs) rs (new_HttpChannel sends)"
  by (cases rs) (simp_all add: on_http_def hfollows_def new_HttpChannel_def print_request_def crlf_def)

text \<open>C6: An HTTP connection answers every request, once and in order. Well-formed requests that keep the
  connection open, with any bodies, arrive cut into reads in any way, several in one read or one in many,
  interleaved with interruptions and partial or blocked writes. Serving them always ends; what the
  socket took is a prefix of the responses in order, and as long as the connection is open the bytes sent
  and those still buffered are exactly the responses, each request having reached the handler once, with
  its method, path, query, headers and body.\<close>

theorem http_channel_answers_in_order:
  assumes "list_all ok_request rs" and "concat (concat (map ev_chunks evs)) = http_wire rs"
    and "http_answers h (map received_request rs) s = (out, s_end)"
  shows "\<exists>ch' s'. http_channel_run h evs (new_HttpChannel sends, s) = Some (ch', s') \<and> prefix (hc_out ch') out
    \<and> (\<not> hc_closed ch' \<longrightarrow> hc_out ch' @ hc_write_buffer ch' = out \<and> s' = s_end)"
proof -
  have "on_http [] (concat (concat (map ev_chunks evs)) @ []) rs (new_HttpChannel sends)"
    using assms(2) on_http_new by simp
  from http_channel_run_advance [OF this assms(1), of h s]
  obtain ch' s' k o1 where r: "http_channel_run h evs (new_HttpChannel sends, s) = Some (ch', s')"
    "http_answers h (map received_request (take k rs)) s = (o1, s')" "on_http o1 [] (drop k rs) ch'"
    unfolding advance_def append_Nil by blast
  obtain o2 s2 where o2: "http_answers h (map received_request (drop k rs)) s' = (o2, s2)" by fastforce
  then have out: "out = o1 @ o2" "s_end = s2"
    using assms(3) r(2) http_answers_append [of h "map received_request (take k rs)" "map received_request (drop k rs)" s]
    by (simp_all flip: map_append)
  have "drop k rs = []" if "\<not> hc_closed ch'" by (rule on_http_complete [OF r(3) that])
  then show ?thesis using r o2 out hfollows_prefix [of o1 ch' o2] by (auto simp: on_http_def hfollows_def)
qed

definition example_request :: ClientRequest where
  "example_request = \<lparr>cr_method = ''GET'', cr_path = ''/v1/kv/get'', cr_query = Some ''key=a'', cr_headers = [(''Host'', ''x'')], cr_body = ''hi''\<rparr>"

definition count_requests :: "nat http_handler" where
  "count_requests req n = (\<lparr>resp_status = 200, resp_text = ''OK'', resp_headers = [], resp_body = rq_body req\<rparr>, Suc n)"

lemma example_request_ok: "ok_request example_request"
proof -
  have "good_header (''Host'', ''x'')" by (simp add: good_header_def trim_def tolower_def isspace_def byte_val_def)
  moreover have "length (request_head example_request) + 4 \<le> 16384 \<and> length (print_request example_request) < 2 ^ 64"
    "keeps_alive (received_request example_request)"
    by code_simp+
  ultimately show ?thesis by (simp add: ok_request_def good_request_def plain_text_def) (simp add: example_request_def)
qed

theorem http_channel_answers_in_order_witness:
  "\<exists>ch s. http_channel_run count_requests
      [\<lparr>ev_in = True, ev_out = False, ev_err = False,
        ev_recv = [Received (take 20 (print_request example_request)), Received (drop 20 (print_request example_request))]\<rparr>]
      (new_HttpChannel [Sent 5], 0) = Some (ch, s)
    \<and> prefix (hc_out ch) (fst (http_answers count_requests [received_request example_request] 0))"
  using http_channel_answers_in_order [of "[example_request]" "[\<lparr>ev_in = True, ev_out = False, ev_err = False,
        ev_recv = [Received (take 20 (print_request example_request)), Received (drop 20 (print_request example_request))]\<rparr>]"
        count_requests 0 "fst (http_answers count_requests [received_request example_request] 0)"
        "snd (http_answers count_requests [received_request example_request] 0)" "[Sent 5]"]
  by (auto simp: example_request_ok ev_chunks_def)

section \<open>A length that wraps around\<close>

text \<open>52 bytes of head, the blank line, and a length of \<open>2 ^ 64 - 56\<close>: the request is \<open>0\<close> bytes long.\<close>

definition looping_request :: string where
  "looping_request = ''GET / HTTP/1.1'' @ crlf @ ''Content-Length: 18446744073709551560'' @ crlf @ crlf"

definition looping_head :: HttpRequest where
  "looping_head =
     \<lparr>rq_method = ''GET'', rq_uri = ''/'', rq_path = ''/'', rq_query = [], rq_version = ''HTTP/1.1'',
      rq_headers = [(''content-length'', ''18446744073709551560'')], rq_body = []\<rparr>"

lemma parse_looping: "http_parse1 looping_request = Parsed looping_head looping_request"
  by code_simp

definition looping :: "HttpChannel \<Rightarrow> bool" where
  "looping ch \<longleftrightarrow> \<not> hc_closed ch \<and> \<not> close_after_write ch \<and> read_buffer ch = looping_request \<and> Send_failed \<notin> set (hc_sends ch)"

lemma Send_open:
  assumes "\<not> hc_closed ch" "\<not> close_after_write ch" "Send_failed \<notin> set (hc_sends ch)"
  shows "\<not> hc_closed (HttpChannel_Send data ch) \<and> Send_failed \<notin> set (hc_sends (HttpChannel_Send data ch))"
proof (cases "hc_sends ch")
  case (Cons q os)
  then show ?thesis using assms
    by (cases q) (auto simp: HttpChannel_Send_def hc_send_call_def hc_buffer_def Let_def)
qed (use assms in \<open>auto simp: HttpChannel_Send_def hc_send_call_def hc_buffer_def\<close>)

lemma looping_serve:
  assumes "looping ch"
  shows "looping (fst (serve_request h looping_head looping_request (ch, s)))"
proof -
  obtain res s' where h: "h looping_head s = (res, s')" by fastforce
  have "keeps_alive looping_head" by (simp add: keeps_alive_def looping_head_def GetHeader_def)
  then show ?thesis
    using serve_request_alive [of looping_head ch h s res s'] h assms
      Send_open [of "ch\<lparr>read_buffer := looping_request\<rparr>" "Serialize (complete_response True res)"]
    by (simp add: looping_def)
qed

lemma looping_forever:
  assumes "ProcessReadBuffer h x = Some y"
  shows "\<not> looping (fst x)"
proof -
  have "(case (h, x) of (h, x) \<Rightarrow> \<lambda>y. \<not> looping (fst x)) y"
  proof (rule ProcessReadBuffer.raw_induct)
    fix f :: "'a http_handler \<Rightarrow> HttpChannel \<times> 'a \<Rightarrow> (HttpChannel \<times> 'a) option" and h x y
    assume IH: "\<And>h x y. f h x = Some y \<Longrightarrow> \<not> looping (fst x)"
      and step: "(if hc_closed (fst x) then Some x
        else case http_parse1 (read_buffer (fst x)) of Incomplete \<Rightarrow> Some x
          | Too_large \<Rightarrow> Some (HttpChannel_Send (Serialize too_large_response) ((fst x)\<lparr>close_after_write := True\<rparr>), snd x)
          | Malformed \<Rightarrow> Some (HttpChannel_Close (fst x), snd x)
          | Parsed req rest \<Rightarrow> f h (serve_request h req rest x)) = Some y"
    show "\<not> looping (fst x)"
    proof
      assume l: "looping (fst x)"
      then have "f h (serve_request h looping_head looping_request x) = Some y"
        using step parse_looping by (simp add: looping_def)
      then show False using IH looping_serve [OF l, of h "snd x"] by simp
    qed
  qed (use assms in simp)
  then show ?thesis by simp
qed

text \<open>C33: One request can stop the server. The length of a request is the sum of the head, the blank line and
  the announced length of the body, computed in 64 bits; a length of \<open>2 ^ 64 - 56\<close> after a head of 52 bytes
  makes the sum zero, nothing is removed from the buffer, and the loop serves the same request again and
  again: reading it never returns, as long as no write to the socket fails.\<close>

theorem http_length_wrap_hangs:
  assumes "Send_failed \<notin> set sends"
  shows "HttpChannel_HandleRead h (Received looping_request # ins) (new_HttpChannel sends, s) = None"
proof -
  have "looping ((new_HttpChannel sends)\<lparr>read_buffer := looping_request\<rparr>)"
    using assms by (simp add: looping_def new_HttpChannel_def)
  then have "ProcessReadBuffer h ((new_HttpChannel sends)\<lparr>read_buffer := looping_request\<rparr>, s) = None"
    using looping_forever [of h "((new_HttpChannel sends)\<lparr>read_buffer := looping_request\<rparr>, s)"] by (metis fst_conv not_None_eq)
  then show ?thesis by (simp add: new_HttpChannel_def)
qed

theorem http_length_wrap_hangs_witness:
  "HttpChannel_HandleRead count_requests [Received looping_request] (new_HttpChannel [Sent 100, Send_again], 0) = None"
  by (rule http_length_wrap_hangs) simp

end
