(* ===== verification/GK_Event_Loop.thy ===== *)
theory GK_Event_Loop
  imports GK_Prelude
begin

text \<open>
  The event loop of a worker, \<open>src/net/event_loop.cpp\<close>: the table of callbacks, the timer and the time it
  lets the poll wait. What a callback does is up to the server, so the type of callbacks is a parameter; the
  loop over the polled events is in the theory of the server. The clock is read in milliseconds, whose
  origin does not matter; the answers of the system calls are arguments.

  Shown: the timer ticks at its interval, neither early nor later than the delays of the polls explain.
\<close>

section \<open>The loop\<close>

record 'cb EventLoop =
  wakeup_fd :: "nat option"
  el_running :: bool
  el_interval :: int
  timer_set :: bool
  last_tick :: int
  callbacks :: "nat \<rightharpoonup> 'cb"
  wakeups :: u64

definition EventLoop_Add :: "nat \<Rightarrow> 'cb \<Rightarrow> bool \<Rightarrow> 'cb EventLoop \<Rightarrow> bool \<times> 'cb EventLoop" where
  "EventLoop_Add fd callback ctl l =
     (if \<not> ctl then (False, l) else (True, l\<lparr>callbacks := (callbacks l)(fd \<mapsto> callback)\<rparr>))"

definition EventLoop_Remove :: "nat \<Rightarrow> 'cb EventLoop \<Rightarrow> 'cb EventLoop" where
  "EventLoop_Remove fd l = l\<lparr>callbacks := (callbacks l)(fd := None)\<rparr>"

text \<open>The constructor: whether the poll descriptor could be created, the descriptor for wake-ups if there is
  one, and whether it could be added.\<close>

definition new_EventLoop :: "'cb \<Rightarrow> bool \<Rightarrow> nat option \<Rightarrow> bool \<Rightarrow> string + 'cb EventLoop" where
  "new_EventLoop on_wakeup epoll_ok event_fd ctl =
     (if \<not> epoll_ok then Inl ''epoll_create1 failed''
      else
        let l = \<lparr>wakeup_fd = event_fd, el_running = False, el_interval = - 1, timer_set = False, last_tick = 0,
                 callbacks = Map.empty, wakeups = 0\<rparr>
        in Inr (case event_fd of None \<Rightarrow> l | Some fd \<Rightarrow> snd (EventLoop_Add fd on_wakeup ctl l)))"

definition SetPeriodicTimer :: "int \<Rightarrow> bool \<Rightarrow> int \<Rightarrow> 'cb EventLoop \<Rightarrow> 'cb EventLoop" where
  "SetPeriodicTimer interval_ms has_callback now l =
     (if interval_ms < 0 \<or> \<not> has_callback then l\<lparr>el_interval := - 1, timer_set := False\<rparr>
      else l\<lparr>el_interval := interval_ms, timer_set := True, last_tick := now\<rparr>)"

definition HasTimer :: "'cb EventLoop \<Rightarrow> bool" where
  "HasTimer l \<longleftrightarrow> el_interval l \<ge> 0 \<and> timer_set l"

text \<open>How long the poll may wait, -1 for without limit; the difference is narrowed to 32 bits.\<close>

definition effective_timeout :: "int \<Rightarrow> int \<Rightarrow> 'cb EventLoop \<Rightarrow> int" where
  "effective_timeout timeout_ms now l =
     (if HasTimer l then
        let t = (if el_interval l = 0 then 0
                 else let elapsed = now - last_tick l;
                          remaining = sint (word_of_int (el_interval l - elapsed) :: 32 word)
                      in if remaining > 0 then remaining else 0)
        in if timeout_ms \<ge> 0 \<and> timeout_ms < t then timeout_ms else t
      else timeout_ms)"

text \<open>After the events: whether the timer's callback is called.\<close>

definition timer_check :: "int \<Rightarrow> 'cb EventLoop \<Rightarrow> bool \<times> 'cb EventLoop" where
  "timer_check now l =
     (if HasTimer l \<and> now - last_tick l \<ge> el_interval l then (True, l\<lparr>last_tick := now\<rparr>) else (False, l))"

definition EventLoop_Wakeup :: "'cb EventLoop \<Rightarrow> 'cb EventLoop" where
  "EventLoop_Wakeup l = (case wakeup_fd l of None \<Rightarrow> l | Some fd \<Rightarrow> l\<lparr>wakeups := wakeups l + 1\<rparr>)"

text \<open>The callback of the descriptor for wake-ups: reading it resets it.\<close>

definition clear_wakeups :: "'cb EventLoop \<Rightarrow> 'cb EventLoop" where
  "clear_wakeups l = l\<lparr>wakeups := 0\<rparr>"

definition EventLoop_Stop :: "'cb EventLoop \<Rightarrow> 'cb EventLoop" where
  "EventLoop_Stop l = EventLoop_Wakeup (l\<lparr>el_running := False\<rparr>)"

section \<open>The timer\<close>

text \<open>Rounds of the loop by the two times the clock is read: before the poll and after the events. The
  result is the times of the ticks.\<close>

fun timer_rounds :: "(int \<times> int) list \<Rightarrow> 'cb EventLoop \<Rightarrow> int list" where
  "timer_rounds [] l = []"
| "timer_rounds ((before, after) # rs) l =
     (case timer_check after l of (ticked, l') \<Rightarrow> (if ticked then [after] else []) @ timer_rounds rs l')"

text \<open>\<open>punctual d prev\<close>: the poll and the callbacks of its events together overrun the time the loop gives
  the poll by at most \<open>d\<close>, and so much passes at most between two rounds.\<close>

fun punctual :: "int \<Rightarrow> int \<Rightarrow> (int \<times> int) list \<Rightarrow> 'cb EventLoop \<Rightarrow> bool" where
  "punctual d prev [] l \<longleftrightarrow> True"
| "punctual d prev ((before, after) # rs) l \<longleftrightarrow>
     prev \<le> before \<and> before \<le> prev + d \<and> before \<le> after \<and> after \<le> before + effective_timeout (- 1) before l + d
     \<and> punctual d after rs (snd (timer_check after l))"

text \<open>Every tick comes within the bounds after the one before it.\<close>

fun spaced :: "int \<Rightarrow> int \<Rightarrow> int \<Rightarrow> int list \<Rightarrow> bool" where
  "spaced lo hi prev [] \<longleftrightarrow> True"
| "spaced lo hi prev (t # ts) \<longleftrightarrow> lo \<le> t - prev \<and> t - prev \<le> hi \<and> spaced lo hi t ts"

lemma effective_timeout_remaining:
  assumes "HasTimer l" "0 < el_interval l" "el_interval l < 2 ^ 31" "0 \<le> now - last_tick l" "now - last_tick l < 2 ^ 31"
  shows "effective_timeout (- 1) now l = max 0 (el_interval l - (now - last_tick l))"
proof -
  define k where "k = el_interval l - (now - last_tick l)"
  have "- (2 ^ 31) \<le> k" "k < 2 ^ 31" using assms by (auto simp: k_def)
  then have "sint (word_of_int k :: 32 word) = k"
    by (simp add: sint_sbintrunc' signed_take_bit_int_eq_self)
  then have "sint (word_of_int (el_interval l - (now - last_tick l)) :: 32 word) = el_interval l - (now - last_tick l)"
    by (simp only: k_def)
  then show ?thesis using assms by (simp add: effective_timeout_def Let_def max_def)
qed

lemma timer_rounds_spaced:
  assumes "HasTimer l" "0 < el_interval l" "0 \<le> d" "el_interval l + 2 * d < 2 ^ 31"
    and "last_tick l \<le> prev" "prev < last_tick l + el_interval l" "punctual d prev rs l"
  shows "spaced (el_interval l) (el_interval l + 2 * d) (last_tick l) (timer_rounds rs l)
    \<and> (rs \<noteq> [] \<longrightarrow> snd (last rs) < last (last_tick l # timer_rounds rs l) + el_interval l)"
  using assms
proof (induction rs arbitrary: l prev)
  case (Cons r rs)
  obtain before after where r: "r = (before, after)" by fastforce
  have p: "prev \<le> before" "before \<le> prev + d" "before \<le> after" "after \<le> before + effective_timeout (- 1) before l + d"
    "punctual d after rs (snd (timer_check after l))" using Cons.prems(7) by (simp_all add: r)
  have "effective_timeout (- 1) before l = max 0 (el_interval l - (before - last_tick l))"
    using Cons.prems p by (intro effective_timeout_remaining) auto
  then have late: "after - last_tick l \<le> el_interval l + 2 * d" using Cons.prems p by (auto simp: max_def split: if_splits)
  show ?case
  proof (cases "after - last_tick l \<ge> el_interval l")
    case True
    let ?l = "l\<lparr>last_tick := after\<rparr>"
    have t: "timer_check after l = (True, ?l)" using True Cons.prems(1) by (simp add: timer_check_def)
    have "HasTimer ?l" using Cons.prems(1) by (simp add: HasTimer_def)
    then have "spaced (el_interval l) (el_interval l + 2 * d) after (timer_rounds rs ?l)
        \<and> (rs \<noteq> [] \<longrightarrow> snd (last rs) < last (after # timer_rounds rs ?l) + el_interval l)"
      using Cons.IH [of ?l after] Cons.prems p(5) t by simp
    then show ?thesis using True late Cons.prems(2) by (auto simp: r t)
  next
    case False
    then have t: "timer_check after l = (False, l)" by (simp add: timer_check_def)
    then show ?thesis using Cons.IH [of l after] Cons.prems p False by (auto simp: r)
  qed
qed simp

text \<open>C14: The timer of a worker ticks at its interval. As long as the poll and the callbacks of a round overrun the
  time the loop gives the poll by at most \<open>d\<close>, and at most \<open>d\<close> passes between rounds, every tick comes at
  least one interval after the one before it and at most \<open>2 * d\<close> later than that; and no round ends with a
  tick overdue. The sum of the interval and the delays must stay below 2^31 milliseconds, since the time left
  is narrowed to 32 bits.\<close>

theorem timer_ticks_at_interval:
  fixes l :: "'cb EventLoop"
  assumes "0 < interval" "0 \<le> d" "interval + 2 * d < 2 ^ 31"
    and "punctual d start rs (SetPeriodicTimer interval True start l)"
  shows "spaced interval (interval + 2 * d) start (timer_rounds rs (SetPeriodicTimer interval True start l))
    \<and> (rs \<noteq> [] \<longrightarrow>
        snd (last rs) < last (start # timer_rounds rs (SetPeriodicTimer interval True start l)) + interval)"
  using timer_rounds_spaced [of "SetPeriodicTimer interval True start l" d start rs] assms
  by (simp add: SetPeriodicTimer_def HasTimer_def)

definition example_loop :: "unit EventLoop" where
  "example_loop = \<lparr>wakeup_fd = None, el_running = True, el_interval = - 1, timer_set = False, last_tick = 0,
     callbacks = Map.empty, wakeups = 0\<rparr>"

theorem timer_ticks_at_interval_witness:
  "timer_rounds [(1000, 1040), (1041, 1100), (1101, 1202)] (SetPeriodicTimer 100 True 1000 example_loop) = [1100, 1202]
   \<and> spaced 100 104 1000 [1100, 1202]"
proof -
  let ?l = "SetPeriodicTimer 100 True 1000 example_loop" and ?rs = "[(1000, 1040), (1041, 1100), (1101, 1202)]"
  have r: "timer_rounds ?rs ?l = [1100, 1202]"
    by (simp add: SetPeriodicTimer_def timer_check_def HasTimer_def example_loop_def)
  have "punctual 2 1000 ?rs ?l" by code_simp
  from timer_ticks_at_interval [OF _ _ _ this] have "spaced 100 (100 + 2 * 2) 1000 (timer_rounds ?rs ?l)" by simp
  then show ?thesis using r by (simp only: r) simp
qed

end
