(* ===== verification/GK_Network.thy ===== *)
theory GK_Network
  imports GK_Http_Channel GK_Event_Loop GK_Client GK_Config
begin

text \<open>
  The network server, \<open>src/net/server.cpp\<close> with the rounds of \<open>src/net/event_loop.cpp\<close>: listening, accepting
  connections, dispatching polled events to them, the timer, and the workers that share one state. A connection
  is an object; the tables of a worker map descriptors to objects, which are numbered in the order of their
  acceptance, and an object stays in the list after it is erased from its table, as the record of what its
  socket took. An accepted socket comes with all its future answers. The workers are threads; here the rounds
  of their loops are interleaved in any order, each round running to its end.

  Shown: whatever the other connections do, the requests of each connection are answered in order, by what
  one single sequence of all the requests, ticks included, gives.
\<close>

section \<open>Listening\<close>

datatype listen_outcome = Socket_error errno | Bind_error errno | Listen_error errno | Listening nat

definition CreateListeningSocket :: "(errno \<Rightarrow> string) \<Rightarrow> int \<Rightarrow> listen_outcome \<Rightarrow> string + nat" where
  "CreateListeningSocket strerror port r =
     (let address = ''0.0.0.0:'' @ to_dec (nat port)
      in case r of
           Socket_error e \<Rightarrow> Inl (''socket creation failed: '' @ DescribeError strerror ''socket'' address e)
         | Bind_error e \<Rightarrow> Inl (DescribeError strerror ''bind'' address e)
         | Listen_error e \<Rightarrow> Inl (DescribeError strerror ''listen'' address e)
         | Listening fd \<Rightarrow> Inr fd)"

text \<open>The server's parameters; the handlers are given when it runs, and the flags say whether they are there.\<close>

record Server =
  sv_port :: int
  sv_interval :: int
  sv_timer :: bool
  sv_http_port :: int
  sv_http :: bool
  num_workers :: nat

definition new_Server :: "int \<Rightarrow> bool \<Rightarrow> int \<Rightarrow> bool \<Rightarrow> int \<Rightarrow> bool \<Rightarrow> nat \<Rightarrow> string + Server" where
  "new_Server port handler interval timer_callback httpport http_handler n =
     (if port < 1 \<or> port > 65535 then Inl ''INVALID_PORT: port must be between 1 and 65535''
      else if httpport \<noteq> 0 \<and> (httpport < 1 \<or> httpport > 65535)
      then Inl ''INVALID_PORT: http port must be between 1 and 65535''
      else if httpport > 0 \<and> httpport = port
      then Inl ''INVALID_PORT: http port cannot be the same as gatekeeper tcp port''
      else if \<not> handler then Inl ''request handler is required''
      else Inr \<lparr>sv_port = port, sv_interval = interval, sv_timer = timer_callback, sv_http_port = httpport,
                sv_http = http_handler, num_workers = n\<rparr>)"

section \<open>Connections and workers\<close>

record socket =
  sk_sends :: "send_outcome list"
  sk_clock :: "nat \<Rightarrow> u64"
  sk_reads :: "recv_outcome list list"

datatype link = Binary_link Channel | Http_link HttpChannel

record conn =
  co_link :: link
  co_reads :: "recv_outcome list list"
  co_socket :: socket

fun link_closed :: "link \<Rightarrow> bool" where
  "link_closed (Binary_link ch) = ch_closed ch"
| "link_closed (Http_link ch) = hc_closed ch"

fun close_link :: "link \<Rightarrow> link" where
  "close_link (Binary_link ch) = Binary_link (Channel_Close ch)"
| "close_link (Http_link ch) = Http_link (HttpChannel_Close ch)"

definition new_conn :: "bool \<Rightarrow> socket \<Rightarrow> conn" where
  "new_conn http sk =
     \<lparr>co_link = (if http then Http_link (new_HttpChannel (sk_sends sk)) else Binary_link (new_Channel (sk_sends sk) (sk_clock sk))),
      co_reads = sk_reads sk, co_socket = sk\<rparr>"

text \<open>The callbacks a worker registers; the flag tells the HTTP port and its connections from the others.\<close>

datatype callback = On_wakeup | On_accept bool | On_channel bool

record worker =
  w_loop :: "callback EventLoop"
  channels :: "nat \<rightharpoonup> nat"
  http_channels :: "nat \<rightharpoonup> nat"

record 's world =
  objects :: "conn list"
  next_session_id :: u64
  shared :: 's

record 's handlers =
  on_request :: "'s request_handler"
  on_http_request :: "'s http_handler"
  on_timer :: "'s \<Rightarrow> 's"

definition channel_of :: "bool \<Rightarrow> nat \<Rightarrow> worker \<Rightarrow> nat option" where
  "channel_of http fd w = (if http then http_channels w fd else channels w fd)"

definition set_channel :: "bool \<Rightarrow> nat \<Rightarrow> nat option \<Rightarrow> worker \<Rightarrow> worker" where
  "set_channel http fd i w =
     (if http then w\<lparr>http_channels := (http_channels w)(fd := i)\<rparr> else w\<lparr>channels := (channels w)(fd := i)\<rparr>)"

section \<open>Accepting\<close>

text \<open>\<open>Accepted fd ctl sk\<close>: the descriptor, whether the poll accepts it, and the socket.\<close>

datatype accept_outcome = Accepted nat bool socket | Accept_again | Accept_interrupted | Accept_failed

text \<open>If the descriptor is still in the table the new connection is not put there and is destroyed at once, which closes
  it.\<close>

definition add_channel :: "bool \<Rightarrow> nat \<Rightarrow> bool \<Rightarrow> socket \<Rightarrow> worker \<times> 's world \<Rightarrow> worker \<times> 's world" where
  "add_channel http fd ctl sk x =
     (case x of (w, g) \<Rightarrow>
        let c = new_conn http sk;
            g1 = g\<lparr>next_session_id := (if http then next_session_id g else next_session_id g + 1)\<rparr>;
            (w2, c2) = (if channel_of http fd w = None then (set_channel http fd (Some (length (objects g))) w, c)
                        else (w\<lparr>w_loop := EventLoop_Remove fd (w_loop w)\<rparr>, c\<lparr>co_link := close_link (co_link c)\<rparr>))
        in (w2\<lparr>w_loop := snd (EventLoop_Add fd (On_channel http) ctl (w_loop w2))\<rparr>, g1\<lparr>objects := objects g @ [c2]\<rparr>))"

fun accept_loop :: "bool \<Rightarrow> accept_outcome list \<Rightarrow> worker \<times> 's world \<Rightarrow> worker \<times> 's world" where
  "accept_loop http [] x = x"
| "accept_loop http (r # rs) x =
     (case r of
        Accepted fd ctl sk \<Rightarrow> accept_loop http rs (add_channel http fd ctl sk x)
      | Accept_again \<Rightarrow> x
      | Accept_interrupted \<Rightarrow> accept_loop http rs x
      | Accept_failed \<Rightarrow> x)"

section \<open>Events\<close>

text \<open>A polled event; the answers of \<open>accept\<close> come with it when its descriptor is a listening one. A read
  takes the next answers of the connection's socket.\<close>

record ready =
  rd_in :: bool
  rd_out :: bool
  rd_err :: bool
  rd_accepts :: "accept_outcome list"

definition io_of :: "ready \<Rightarrow> conn \<Rightarrow> io_event" where
  "io_of rd c = \<lparr>ev_in = rd_in rd, ev_out = rd_out rd, ev_err = rd_err rd,
     ev_recv = (case co_reads c of [] \<Rightarrow> [] | r # rs \<Rightarrow> r)\<rparr>"

definition left_reads :: "ready \<Rightarrow> conn \<Rightarrow> recv_outcome list list" where
  "left_reads rd c = (if rd_in rd then tl (co_reads c) else co_reads c)"

fun link_events :: "'s handlers \<Rightarrow> io_event \<Rightarrow> link \<times> 's \<Rightarrow> (link \<times> 's) option" where
  "link_events H ev (Binary_link ch, s) = Some (apfst Binary_link (HandleEvents (on_request H) ev (ch, s)))"
| "link_events H ev (Http_link ch, s) =
     map_option (apfst Http_link) (HttpChannel_HandleEvents (on_http_request H) ev (ch, s))"

text \<open>The callback of a connection. Closing it removes its callback, and it is then erased from the table.\<close>

definition channel_event :: "'s handlers \<Rightarrow> bool \<Rightarrow> nat \<Rightarrow> ready \<Rightarrow> worker \<times> 's world \<Rightarrow> (worker \<times> 's world) option" where
  "channel_event H http fd rd x =
     (case x of (w, g) \<Rightarrow>
        (case channel_of http fd w of
           None \<Rightarrow> Some (w, g)
         | Some i \<Rightarrow>
             let c = objects g ! i
             in map_option (\<lambda>(l, s).
                  (if link_closed l then set_channel http fd None (w\<lparr>w_loop := EventLoop_Remove fd (w_loop w)\<rparr>) else w,
                   g\<lparr>objects := (objects g)[i := c\<lparr>co_link := l, co_reads := left_reads rd c\<rparr>], shared := s\<rparr>))
                (link_events H (io_of rd c) (co_link c, shared g))))"

definition dispatch :: "'s handlers \<Rightarrow> nat \<times> ready \<Rightarrow> worker \<times> 's world \<Rightarrow> (worker \<times> 's world) option" where
  "dispatch H e x =
     (case (e, x) of ((fd, rd), (w, g)) \<Rightarrow>
        (case callbacks (w_loop w) fd of
           None \<Rightarrow> Some (w, g)
         | Some On_wakeup \<Rightarrow> Some (w\<lparr>w_loop := clear_wakeups (w_loop w)\<rparr>, g)
         | Some (On_accept http) \<Rightarrow> Some (accept_loop http (rd_accepts rd) (w, g))
         | Some (On_channel http) \<Rightarrow> channel_event H http fd rd (w, g)))"

fun dispatch_events :: "'s handlers \<Rightarrow> (nat \<times> ready) list \<Rightarrow> worker \<times> 's world \<Rightarrow> (worker \<times> 's world) option" where
  "dispatch_events H [] x = Some x"
| "dispatch_events H (e # es) x = Option.bind (dispatch H e x) (dispatch_events H es)"

datatype polled = is_failed: Poll_failed | Poll_interrupted | Ready "(nat \<times> ready) list"

text \<open>A round: what the poll answers, and the clock after the events. An interrupted poll ends the round.\<close>

definition RunOnce :: "'s handlers \<Rightarrow> polled \<Rightarrow> int \<Rightarrow> worker \<times> 's world \<Rightarrow> (worker \<times> 's world) option" where
  "RunOnce H p now x =
     (case p of
        Poll_failed \<Rightarrow> Some (apfst (\<lambda>w. w\<lparr>w_loop := (w_loop w)\<lparr>el_running := False\<rparr>\<rparr>) x)
      | Poll_interrupted \<Rightarrow> Some x
      | Ready es \<Rightarrow>
          map_option (\<lambda>(w, g).
            case timer_check now (w_loop w) of
              (ticked, l) \<Rightarrow> (w\<lparr>w_loop := l\<rparr>, if ticked then g\<lparr>shared := on_timer H (shared g)\<rparr> else g))
          (dispatch_events H es x))"

section \<open>The workers\<close>

definition stop_worker :: "worker \<Rightarrow> worker" where
  "stop_worker w = w\<lparr>w_loop := EventLoop_Stop (w_loop w)\<rparr>"

datatype net_event = Round nat polled int | Stop

text \<open>The exception of a failed poll ends its worker; on worker 0, which runs on the main thread, it ends the
  process.\<close>

fun server_step :: "'s handlers \<Rightarrow> net_event \<Rightarrow> worker list \<times> 's world \<Rightarrow> (worker list \<times> 's world) option" where
  "server_step H (Round i p now) (ws, g) =
     (if i < length ws \<and> el_running (w_loop (ws ! i))
      then map_option (\<lambda>(w, g'). (if i = 0 \<and> is_failed p then map stop_worker (ws[i := w]) else ws[i := w], g'))
             (RunOnce H p now (ws ! i, g))
      else Some (ws, g))"
| "server_step H Stop (ws, g) = Some (map stop_worker ws, g)"

fun server_run :: "'s handlers \<Rightarrow> net_event list \<Rightarrow> worker list \<times> 's world \<Rightarrow> (worker list \<times> 's world) option" where
  "server_run H [] x = Some x"
| "server_run H (e # es) x = Option.bind (server_step H e x) (server_run H es)"

text \<open>What the system answers while a worker is set up.\<close>

record worker_boot =
  wb_epoll :: bool
  wb_event_fd :: "nat option"
  wb_event_ctl :: bool
  wb_listen :: listen_outcome
  wb_listen_ctl :: bool
  wb_http :: listen_outcome
  wb_http_ctl :: bool
  wb_now :: int

definition idle_worker :: "callback EventLoop \<Rightarrow> worker" where
  "idle_worker l = \<lparr>w_loop = l, channels = Map.empty, http_channels = Map.empty\<rparr>"

text \<open>\<open>RunWorkerLoop\<close> up to the start of its loop.\<close>

definition start_worker :: "nat \<Rightarrow> Server \<Rightarrow> worker_boot \<Rightarrow> callback EventLoop \<Rightarrow> nat \<Rightarrow> nat option \<Rightarrow> worker" where
  "start_worker worker_id sv b l server_fd http_fd =
     (let l1 = (if worker_id = 0 \<and> sv_interval sv \<ge> 0 \<and> sv_timer sv
                then SetPeriodicTimer (sv_interval sv) (sv_timer sv) (wb_now b) l else l);
          l2 = snd (EventLoop_Add server_fd (On_accept False) (wb_listen_ctl b) l1);
          l3 = (case http_fd of None \<Rightarrow> l2 | Some fd \<Rightarrow> snd (EventLoop_Add fd (On_accept True) (wb_http_ctl b) l2))
      in idle_worker (l3\<lparr>el_running := True\<rparr>))"

definition listen_both :: "(errno \<Rightarrow> string) \<Rightarrow> Server \<Rightarrow> worker_boot \<Rightarrow> string + nat \<times> nat option" where
  "listen_both strerror sv b =
     (case CreateListeningSocket strerror (sv_port sv) (wb_listen b) of
        Inl e \<Rightarrow> Inl e
      | Inr fd \<Rightarrow>
          if sv_http_port sv > 0 \<and> sv_http sv
          then map_sum id (\<lambda>h. (fd, Some h)) (CreateListeningSocket strerror (sv_http_port sv) (wb_http b))
          else Inr (fd, None))"

fun all_right :: "('a + 'b) list \<Rightarrow> 'a + 'b list" where
  "all_right [] = Inr []"
| "all_right (Inl e # xs) = Inl e"
| "all_right (Inr x # xs) = map_sum id ((#) x) (all_right xs)"

text \<open>\<open>Run\<close> up to the point where all the workers run; a worker other than 0 that cannot listen ends at
  once. The number of hardware threads is an argument.\<close>

definition worker_count :: "Server \<Rightarrow> nat \<Rightarrow> nat" where
  "worker_count sv hw_threads = (if num_workers sv > 0 then num_workers sv else max 1 hw_threads)"

definition Server_Run :: "(errno \<Rightarrow> string) \<Rightarrow> Server \<Rightarrow> nat \<Rightarrow> (nat \<Rightarrow> worker_boot) \<Rightarrow> string + worker list" where
  "Server_Run strerror sv hw_threads boots =
     (case listen_both strerror sv (boots 0) of
        Inl e \<Rightarrow> Inl e
      | Inr (main_server_fd, main_http_fd) \<Rightarrow>
          (case all_right (map (\<lambda>i. new_EventLoop On_wakeup (wb_epoll (boots i)) (wb_event_fd (boots i)) (wb_event_ctl (boots i)))
                     [0..<worker_count sv hw_threads]) of
             Inl e \<Rightarrow> Inl e
           | Inr loops \<Rightarrow>
               Inr (map (\<lambda>(i, l).
                 if i = 0 then start_worker 0 sv (boots 0) l main_server_fd main_http_fd
                 else case listen_both strerror sv (boots i) of
                        Inl e \<Rightarrow> idle_worker l
                      | Inr (s_fd, h_fd) \<Rightarrow> start_worker i sv (boots i) l s_fd h_fd)
                 (enumerate 0 loops))))"

text \<open>The setters; the timer of a running server is that of its first worker.\<close>

definition SetTimerCallback :: "int \<Rightarrow> bool \<Rightarrow> int \<Rightarrow> Server \<times> worker list \<Rightarrow> Server \<times> worker list" where
  "SetTimerCallback interval callback_set now x =
     (case x of (sv, ws) \<Rightarrow>
        (sv\<lparr>sv_interval := interval, sv_timer := callback_set\<rparr>,
         case ws of
           [] \<Rightarrow> []
         | w # ws' \<Rightarrow> w\<lparr>w_loop := SetPeriodicTimer interval callback_set now (w_loop w)\<rparr> # ws'))"

definition SetHttpHandler :: "int \<Rightarrow> bool \<Rightarrow> Server \<Rightarrow> Server" where
  "SetHttpHandler httpport handler_set sv = sv\<lparr>sv_http_port := httpport, sv_http := handler_set\<rparr>"

section \<open>One sequence of requests\<close>

text \<open>What the server owes each connection, if the requests are served one after the other: a desk for
  each connection with its streams and the replies given so far.\<close>

record desk =
  dk_clock :: "nat \<Rightarrow> u64"
  dk_streams :: StreamManager
  dk_ticks :: nat
  dk_out :: string

datatype entry = Opened nat "nat \<Rightarrow> u64" | Framed nat Frame | Asked nat HttpRequest | Ticked

fun replay1 :: "'s handlers \<Rightarrow> entry \<Rightarrow> (nat \<Rightarrow> desk) \<times> 's \<Rightarrow> (nat \<Rightarrow> desk) \<times> 's" where
  "replay1 H (Opened i clk) (D, s) =
     (D(i := \<lparr>dk_clock = clk, dk_streams = new_StreamManager 1024 30000, dk_ticks = 0, dk_out = []\<rparr>), s)"
| "replay1 H (Framed i f) (D, s) =
     (case answer (on_request H) (dk_clock (D i)) f (dk_streams (D i), dk_ticks (D i), s) of
        (out, m, t, s') \<Rightarrow> (D(i := (D i)\<lparr>dk_streams := m, dk_ticks := t, dk_out := dk_out (D i) @ out\<rparr>), s'))"
| "replay1 H (Asked i req) (D, s) =
     (case on_http_request H req s of
        (res, s') \<Rightarrow>
          (D(i := (D i)\<lparr>dk_out := dk_out (D i) @ Serialize (complete_response (keeps_alive req) res)\<rparr>), s'))"
| "replay1 H Ticked (D, s) = (D, on_timer H s)"

definition replay :: "'s handlers \<Rightarrow> entry list \<Rightarrow> (nat \<Rightarrow> desk) \<times> 's \<Rightarrow> (nat \<Rightarrow> desk) \<times> 's" where
  "replay H tr x = fold (replay1 H) tr x"

fun frames_of :: "nat \<Rightarrow> entry list \<Rightarrow> Frame list" where
  "frames_of i [] = []"
| "frames_of i (Framed k f # tr) = (if k = i then f # frames_of i tr else frames_of i tr)"
| "frames_of i (_ # tr) = frames_of i tr"

fun requests_of :: "nat \<Rightarrow> entry list \<Rightarrow> HttpRequest list" where
  "requests_of i [] = []"
| "requests_of i (Asked k r # tr) = (if k = i then r # requests_of i tr else requests_of i tr)"
| "requests_of i (_ # tr) = requests_of i tr"

fun entry_conn :: "entry \<Rightarrow> nat option" where
  "entry_conn (Opened i clk) = Some i"
| "entry_conn (Framed i f) = Some i"
| "entry_conn (Asked i r) = Some i"
| "entry_conn Ticked = None"

lemma frames_of_append [simp]: "frames_of i (tr @ tr') = frames_of i tr @ frames_of i tr'"
  by (induction i tr rule: frames_of.induct) simp_all

lemma requests_of_append [simp]: "requests_of i (tr @ tr') = requests_of i tr @ requests_of i tr'"
  by (induction i tr rule: requests_of.induct) simp_all

lemma frames_of_other: "\<forall>e\<in>set tr. entry_conn e \<noteq> Some i \<Longrightarrow> frames_of i tr = [] \<and> requests_of i tr = []"
proof (induction tr)
  case (Cons e tr)
  then show ?case by (cases e) auto
qed simp

lemma frames_of_Framed [simp]: "frames_of i (map (Framed i) fs) = fs" "requests_of i (map (Framed i) fs) = []"
  by (induction fs) simp_all

lemma requests_of_Asked [simp]: "requests_of i (map (Asked i) rs) = rs" "frames_of i (map (Asked i) rs) = []"
  by (induction rs) simp_all

lemma replay_append: "replay H (tr @ tr') x = replay H tr' (replay H tr x)"
  by (simp add: replay_def)

lemma replay_Nil [simp]: "replay H [] x = x"
  by (simp add: replay_def)

text \<open>A step on one connection leaves the desks of the others alone.\<close>

lemma replay1_other: "entry_conn e \<noteq> Some i \<Longrightarrow> fst (replay1 H e x) i = fst x i"
  by (cases x; cases e) (auto split: prod.split)

lemma replay_other: "\<forall>e\<in>set tr. entry_conn e \<noteq> Some i \<Longrightarrow> fst (replay H tr x) i = fst x i"
  unfolding replay_def by (induction tr arbitrary: x) (simp_all add: replay1_other)

lemma replay_frames:
  assumes "answers (on_request H) (dk_clock (D i)) fs (dk_streams (D i), dk_ticks (D i), s) = (out, m, t, s')"
  shows "replay H (map (Framed i) fs) (D, s)
    = (D(i := (D i)\<lparr>dk_streams := m, dk_ticks := t, dk_out := dk_out (D i) @ out\<rparr>), s')"
  using assms
proof (induction fs arbitrary: D s out)
  case (Cons f fs)
  obtain o1 m1 t1 s1 where o1: "answer (on_request H) (dk_clock (D i)) f (dk_streams (D i), dk_ticks (D i), s) = (o1, m1, t1, s1)"
    by (metis surj_pair)
  let ?D = "D(i := (D i)\<lparr>dk_streams := m1, dk_ticks := t1, dk_out := dk_out (D i) @ o1\<rparr>)"
  obtain o2 where "answers (on_request H) (dk_clock (D i)) fs (m1, t1, s1) = (o2, m, t, s')" "out = o1 @ o2"
    using Cons.prems o1 by (auto split: prod.splits)
  moreover from this have "replay H (map (Framed i) fs) (?D, s1)
      = (?D(i := (?D i)\<lparr>dk_streams := m, dk_ticks := t, dk_out := dk_out (?D i) @ o2\<rparr>), s')"
    by (intro Cons.IH) simp
  ultimately show ?case using o1 by (simp add: replay_def fun_upd_def cong: if_cong)
qed (auto simp: replay_def fun_upd_def fun_eq_iff)

lemma replay_asked:
  assumes "http_answers (on_http_request H) rs s = (out, s')" "list_all keeps_alive rs"
  shows "replay H (map (Asked i) rs) (D, s) = (D(i := (D i)\<lparr>dk_out := dk_out (D i) @ out\<rparr>), s')"
  using assms
proof (induction rs arbitrary: D s out)
  case (Cons r rs)
  obtain res s1 o2 where r: "on_http_request H r s = (res, s1)" "http_answers (on_http_request H) rs s1 = (o2, s')"
    "out = Serialize (complete_response True res) @ o2"
    using Cons.prems(1) by (auto split: prod.splits)
  let ?D = "D(i := (D i)\<lparr>dk_out := dk_out (D i) @ Serialize (complete_response True res)\<rparr>)"
  have "replay H (map (Asked i) rs) (?D, s1) = (?D(i := (?D i)\<lparr>dk_out := dk_out (?D i) @ o2\<rparr>), s')"
    using Cons.prems(2) by (intro Cons.IH r(2)) simp
  then show ?case using Cons.prems(2) r by (simp add: replay_def fun_upd_def cong: if_cong)
qed (simp add: replay_def)

text \<open>Whatever the responses, a sequence of HTTP requests changes the state like this.\<close>

lemma replay_asked_state:
  "\<exists>D'. replay H (map (Asked i) rs) (D, s) = (D', fold (\<lambda>r s. snd (on_http_request H r s)) rs s)"
proof (induction rs arbitrary: D s)
  case (Cons r rs)
  then show ?case by (auto simp: replay_def split: prod.split)
qed (simp add: replay_def)

section \<open>Connections of any peer\<close>

text \<open>Whatever bytes arrive, the state changes by the requests that were handled.\<close>

lemma serve_frames_any:
  "serve_frames h fs (ch, s) = (ch', s') \<Longrightarrow>
   \<exists>j out z. answers h (ch_clock ch) (take j fs) (served (ch, s)) = (out, z) \<and> s' = snd (snd z)
     \<and> (\<not> ch_closed ch' \<longrightarrow> served (ch', s') = z \<and> ch_clock ch' = ch_clock ch)"
proof (induction fs arbitrary: ch s)
  case Nil
  then show ?case by (intro exI [of _ 0] exI [of _ "[]"] exI [of _ "served (ch, s)"]) (auto simp: served_def)
next
  case (Cons f fs)
  obtain o1 z where o1: "answer h (ch_clock ch) f (served (ch, s)) = (o1, z)" by (metis surj_pair)
  obtain ch1 s1 where x: "serve_frame h f (ch, s) = (ch1, s1)" by fastforce
  have e: "served (ch1, s1) = z" "ch_clock ch1 = ch_clock ch"
    using o1 x by (auto simp: answer_def serve_frame_def served_def Let_def case_prod_beta split: if_splits)
  show ?case
  proof (cases "\<not> refused f ch \<and> ch_closed ch1")
    case True
    then have "ch' = ch1" "s' = s1" using Cons.prems x by (simp_all add: Let_def)
    then show ?thesis using True e o1 by (intro exI [of _ 1] exI [of _ o1] exI [of _ z]) (auto simp: served_def)
  next
    case False
    then have "serve_frames h fs (ch1, s1) = (ch', s')" using Cons.prems x by (auto simp: Let_def)
    from Cons.IH [OF this, unfolded e] obtain j out z' where
      "answers h (ch_clock ch) (take j fs) z = (out, z')" "s' = snd (snd z')"
      "\<not> ch_closed ch' \<longrightarrow> served (ch', s') = z' \<and> ch_clock ch' = ch_clock ch" by blast
    then show ?thesis using o1 by (intro exI [of _ "Suc j"] exI [of _ "o1 @ out"] exI [of _ z']) simp
  qed
qed

definition handles_some :: "'s request_handler \<Rightarrow> Channel \<times> 's \<Rightarrow> Channel \<times> 's \<Rightarrow> bool" where
  "handles_some h x x' \<longleftrightarrow>
     (\<exists>fs out z. answers h (ch_clock (fst x)) fs (served x) = (out, z) \<and> snd x' = snd (snd z)
        \<and> (\<not> ch_closed (fst x') \<longrightarrow> served x' = z \<and> ch_clock (fst x') = ch_clock (fst x)))"

lemma handles_none:
  "(\<not> ch_closed ch' \<longrightarrow> served (ch', s) = served (ch, s) \<and> ch_clock ch' = ch_clock ch) \<Longrightarrow> handles_some h (ch, s) (ch', s)"
  unfolding handles_some_def by (intro exI [of _ "[]"] exI [of _ "served (ch, s)"]) (simp add: served_def)

lemma handles_trans:
  assumes "handles_some h x x1" "handles_some h x1 x2" "\<not> ch_closed (fst x1)"
  shows "handles_some h x x2"
proof -
  obtain fs out z where z: "answers h (ch_clock (fst x)) fs (served x) = (out, z)" "served x1 = z"
    "ch_clock (fst x1) = ch_clock (fst x)" using assms(1,3) unfolding handles_some_def by blast
  obtain fs' out' z' where z': "answers h (ch_clock (fst x)) fs' z = (out', z')" "snd x2 = snd (snd z')"
    "\<not> ch_closed (fst x2) \<longrightarrow> served x2 = z' \<and> ch_clock (fst x2) = ch_clock (fst x)"
    using assms(2) unfolding handles_some_def z(2,3) by blast
  show ?thesis unfolding handles_some_def
    using z z' by (intro exI [of _ "fs @ fs'"] exI [of _ "out @ out'"] exI [of _ z']) (simp add: answers_append)
qed

lemma HandleRead_any: "handles_some h (ch, s) (HandleRead h rs (ch, s))"
proof (induction rs arbitrary: ch s)
  case (Cons r rs)
  show ?case
  proof (cases "ch_closed ch")
    case True
    then show ?thesis using handles_none [of ch s ch h] by simp
  next
    case False
    show ?thesis
    proof (cases r)
      case (Received b)
      obtain fs err d where p: "Push b (ch_decoder ch) = (fs, err, d)" by (metis surj_pair)
      let ?ch = "ch\<lparr>bytes_received := bytes_received ch + of_nat (length b), ch_decoder := d\<rparr>"
      show ?thesis
      proof (cases err)
        case None
        obtain ch1 s1 where x: "serve_frames h fs (?ch, s) = (ch1, s1)" by fastforce
        have "handles_some h (ch, s) (ch1, s1)"
          using serve_frames_any [OF x] unfolding handles_some_def by (auto simp: served_def)
        moreover have "HandleRead h (r # rs) (ch, s) = HandleRead h rs (ch1, s1)"
          using False Received p None x by simp
        ultimately show ?thesis
          using handles_trans [of h "(ch, s)" "(ch1, s1)", OF _ Cons.IH [of ch1 s1]] HandleRead_closed [of ch1 h rs s1]
          by (cases "ch_closed ch1") simp_all
      next
        case (Some e)
        then show ?thesis using False Received p by (simp add: handles_none Channel_Close_def)
      qed
    next
      case Recv_interrupted
      then show ?thesis using Cons.IH [of ch s] False by simp
    qed (use False handles_none [of _ s ch h] in \<open>auto simp: Channel_Close_def\<close>)
  qed
qed (simp add: handles_none)

lemma HandleEvents_any: "handles_some h (ch, s) (HandleEvents h ev (ch, s))"
proof (cases "ch_closed ch")
  case True
  then show ?thesis using handles_none [of ch s ch h] by (simp add: HandleEvents_def)
next
  case False
  obtain ch1 s1 where x: "(if ev_in ev then HandleRead h (ev_recv ev) (ch, s) else (ch, s)) = (ch1, s1)" by fastforce
  then have h1: "handles_some h (ch, s) (ch1, s1)"
    using HandleRead_any [of h ch s "ev_recv ev"] handles_none [of ch s ch h] by (auto split: if_splits)
  define ch2 where "ch2 = (if \<not> ch_closed ch1 \<and> ev_out ev then HandleWrite ch1 else ch1)"
  define ch3 where "ch3 = (if \<not> ch_closed ch2 \<and> ev_err ev then Channel_Close ch2 else ch2)"
  have H: "HandleEvents h ev (ch, s) = (ch3, s1)"
    using False x by (simp add: HandleEvents_def ch2_def ch3_def Let_def split: prod.splits)
  show ?thesis
  proof (cases "ch_closed ch1")
    case True
    then show ?thesis using h1 by (simp add: H ch3_def ch2_def)
  next
    case opn: False
    have "\<not> ch_closed ch3 \<longrightarrow> served (ch3, s1) = served (ch1, s1) \<and> ch_clock ch3 = ch_clock ch1"
      by (auto simp: ch3_def ch2_def served_HandleWrite Channel_Close_def)
    then show ?thesis using handles_trans [OF h1 handles_none] opn by (simp add: H)
  qed
qed

text \<open>The same for HTTP connections.\<close>

definition asks_some :: "'s http_handler \<Rightarrow> HttpChannel \<times> 's \<Rightarrow> HttpChannel \<times> 's \<Rightarrow> bool" where
  "asks_some h x x' \<longleftrightarrow> (\<exists>rs. snd x' = fold (\<lambda>r s. snd (h r s)) rs (snd x))"

lemma asks_none: "asks_some h (ch, s) (ch', s)"
  unfolding asks_some_def by (intro exI [of _ "[]"]) simp

lemma asks_trans: "asks_some h x x1 \<Longrightarrow> asks_some h x1 x2 \<Longrightarrow> asks_some h x x2"
  unfolding asks_some_def by (metis comp_apply fold_append)

lemma serve_request_asks: "asks_some h x (serve_request h req rest x)"
  unfolding asks_some_def by (intro exI [of _ "[req]"]) (auto simp: serve_request_def Let_def split: prod.split)

lemma ProcessReadBuffer_any:
  assumes "ProcessReadBuffer h x = Some y"
  shows "asks_some h x y"
proof -
  have "(case (h, x) of (h, x) \<Rightarrow> \<lambda>y. asks_some h x y) y"
  proof (rule ProcessReadBuffer.raw_induct)
    fix f :: "'a http_handler \<Rightarrow> HttpChannel \<times> 'a \<Rightarrow> (HttpChannel \<times> 'a) option" and h and x y :: "HttpChannel \<times> 'a"
    assume IH: "\<And>h x y. f h x = Some y \<Longrightarrow> asks_some h x y"
      and step: "(if hc_closed (fst x) then Some x
        else case http_parse1 (read_buffer (fst x)) of
            Incomplete \<Rightarrow> Some x
          | Too_large \<Rightarrow>
              Some (HttpChannel_Send (Serialize too_large_response) ((fst x)\<lparr>close_after_write := True\<rparr>), snd x)
          | Malformed \<Rightarrow> Some (HttpChannel_Close (fst x), snd x)
          | Parsed req rest \<Rightarrow> f h (serve_request h req rest x)) = Some y"
    show "asks_some h x y"
    proof (cases "\<not> hc_closed (fst x) \<and> (\<exists>req rest. http_parse1 (read_buffer (fst x)) = Parsed req rest)")
      case True
      then obtain req rest where "f h (serve_request h req rest x) = Some y" using step by auto
      then show ?thesis using IH asks_trans [OF serve_request_asks] by blast
    next
      case False
      then have "snd y = snd x" using step by (auto split: if_splits http_parse.splits)
      then show ?thesis using asks_none [of h "fst x" "snd x" "fst y"] by (metis prod.collapse)
    qed
  qed (use assms in simp)
  then show ?thesis by simp
qed

lemma Http_HandleRead_any: "HttpChannel_HandleRead h rs x = Some y \<Longrightarrow> asks_some h x y"
proof (induction rs arbitrary: x)
  case Nil
  then show ?case using asks_none [of h "fst x" "snd x" "fst x"] by simp
next
  case (Cons r rs)
  have none: "snd y = snd x \<Longrightarrow> ?case" using asks_none [of h "fst x" "snd x" "fst y"] by (metis prod.collapse)
  show ?case
  proof (cases "hc_closed (fst x)")
    case False
    show ?thesis
    proof (cases r)
      case (Received b)
      let ?x = "((fst x)\<lparr>read_buffer := read_buffer (fst x) @ b\<rparr>, snd x)"
      obtain z where z: "ProcessReadBuffer h ?x = Some z" "HttpChannel_HandleRead h rs z = Some y"
        using Cons.prems False Received by (auto split: bind_splits)
      have "asks_some h x ?x" using asks_none [of h "fst x" "snd x"] by simp
      from asks_trans [OF asks_trans [OF this ProcessReadBuffer_any [OF z(1)]] Cons.IH [OF z(2)]] show ?thesis .
    next
      case Recv_interrupted
      then show ?thesis using Cons False by simp
    qed (use Cons.prems False none in auto)
  qed (use Cons.prems none in auto)
qed

lemma Http_HandleEvents_any: "HttpChannel_HandleEvents h ev x = Some y \<Longrightarrow> asks_some h x y"
proof -
  assume a: "HttpChannel_HandleEvents h ev x = Some y"
  have none: "snd y = snd x \<Longrightarrow> ?thesis" using asks_none [of h "fst x" "snd x" "fst y"] by (metis prod.collapse)
  show ?thesis
  proof (cases "\<not> hc_closed (fst x) \<and> ev_in ev")
    case True
    then obtain z where z: "HttpChannel_HandleRead h (ev_recv ev) x = Some z" "snd y = snd z"
      using a by (auto simp: HttpChannel_HandleEvents_def Let_def split: bind_splits)
    have "asks_some h z y" using asks_none [of h "fst z" "snd z" "fst y"] z(2) by (metis prod.collapse)
    then show ?thesis using asks_trans [OF Http_HandleRead_any [OF z(1)]] by blast
  next
    case False
    then show ?thesis using a none by (auto simp: HttpChannel_HandleEvents_def Let_def split: if_splits prod.splits)
  qed
qed

section \<open>Peers that keep to the protocol\<close>

definition reads_bytes :: "recv_outcome list list \<Rightarrow> string" where
  "reads_bytes rs = concat (concat (map chunks rs))"

text \<open>All that ever arrives from a peer is a beginning of the frames, or of the requests, it sends.\<close>

definition peer_frames :: "socket \<Rightarrow> (Header \<times> string) list \<Rightarrow> bool" where
  "peer_frames sk fs \<longleftrightarrow> list_all sendable fs \<and> length (wire fs) \<le> kMaxDecoderBufferSize
     \<and> prefix (reads_bytes (sk_reads sk)) (wire fs)"

definition peer_requests :: "socket \<Rightarrow> ClientRequest list \<Rightarrow> bool" where
  "peer_requests sk rs \<longleftrightarrow> list_all ok_request rs \<and> prefix (reads_bytes (sk_reads sk)) (http_wire rs)"

definition never_arrives :: "socket \<Rightarrow> string \<Rightarrow> string" where
  "never_arrives sk bytes = drop (length (reads_bytes (sk_reads sk))) bytes"

lemma arrives: "prefix (reads_bytes (sk_reads sk)) bytes \<Longrightarrow> reads_bytes (sk_reads sk) @ never_arrives sk bytes = bytes"
  by (auto simp: never_arrives_def prefix_def)

lemma reads_left: "reads_bytes (co_reads c) = concat (ev_chunks (io_of rd c)) @ reads_bytes (left_reads rd c)"
  by (cases "co_reads c") (simp_all add: reads_bytes_def ev_chunks_def io_of_def left_reads_def)

text \<open>A connection after a trace, with what the desk owes it: its peer sends the frames \<open>F i\<close> or the requests
  \<open>G i\<close>, of which the trace has served the first ones.\<close>

definition binary_inv :: "(nat \<Rightarrow> (Header \<times> string) list) \<Rightarrow> entry list \<Rightarrow> desk \<Rightarrow> nat \<Rightarrow> conn \<Rightarrow> Channel \<Rightarrow> bool" where
  "binary_inv F tr d i c ch \<longleftrightarrow>
     (\<not> ch_closed ch \<longrightarrow> dk_clock d = ch_clock ch \<and> dk_streams d = ch_streams ch \<and> dk_ticks d = ch_ticks ch)
     \<and> (peer_frames (co_socket c) (F i) \<longrightarrow>
        (\<exists>j. frames_of i tr = map received (take j (F i))
           \<and> on_track (dk_out d) (reads_bytes (co_reads c) @ never_arrives (co_socket c) (wire (F i))) (drop j (F i)) ch))"

definition http_inv :: "(nat \<Rightarrow> ClientRequest list) \<Rightarrow> entry list \<Rightarrow> desk \<Rightarrow> nat \<Rightarrow> conn \<Rightarrow> HttpChannel \<Rightarrow> bool" where
  "http_inv G tr d i c ch \<longleftrightarrow>
     (peer_requests (co_socket c) (G i) \<longrightarrow>
        (\<exists>j. requests_of i tr = map received_request (take j (G i))
           \<and> on_http (dk_out d) (reads_bytes (co_reads c) @ never_arrives (co_socket c) (http_wire (G i))) (drop j (G i)) ch))"

definition conn_inv ::
  "(nat \<Rightarrow> (Header \<times> string) list) \<Rightarrow> (nat \<Rightarrow> ClientRequest list) \<Rightarrow> entry list \<Rightarrow> desk \<Rightarrow> nat \<Rightarrow> conn \<Rightarrow> bool" where
  "conn_inv F G tr d i c \<longleftrightarrow>
     (case co_link c of Binary_link ch \<Rightarrow> binary_inv F tr d i c ch | Http_link ch \<Rightarrow> http_inv G tr d i c ch)"

lemma conn_inv_other:
  "conn_inv F G tr d i c \<Longrightarrow> \<forall>e\<in>set es. entry_conn e \<noteq> Some i \<Longrightarrow> conn_inv F G (tr @ es) d i c"
  using frames_of_other [of es i] by (auto simp: conn_inv_def binary_inv_def http_inv_def split: link.splits)

text \<open>One event on a binary connection.\<close>

lemma binary_event:
  fixes H :: "'s handlers"
  assumes "binary_inv F tr (D i) i c ch" "HandleEvents (on_request H) (io_of rd c) (ch, s) = (ch', s')"
  shows "\<exists>fs D'. replay H (map (Framed i) fs) (D, s) = (D', s')
    \<and> binary_inv F (tr @ map (Framed i) fs) (D' i) i (c\<lparr>co_link := l, co_reads := left_reads rd c\<rparr>) ch'"
proof (cases "ch_closed ch")
  case True
  then have e: "ch' = ch" "s' = s" using assms(2) by (simp_all add: HandleEvents_def)
  then show ?thesis
    using True assms(1) on_track_closed [OF True, where out = "[]"]
    by (intro exI [of _ "[]"] exI [of _ D]) (fastforce simp: binary_inv_def)
next
  case False
  let ?h = "on_request H" and ?d = "D i"
  have d: "dk_clock ?d = ch_clock ch" "(dk_streams ?d, dk_ticks ?d, s) = served (ch, s)"
    using assms(1) False by (simp_all add: binary_inv_def served_def)
  show ?thesis
  proof (cases "peer_frames (co_socket c) (F i)")
    case True
    let ?rest = "reads_bytes (left_reads rd c) @ never_arrives (co_socket c) (wire (F i))"
    obtain j where j: "frames_of i tr = map received (take j (F i))"
      "on_track (dk_out ?d) (concat (ev_chunks (io_of rd c)) @ ?rest) (drop j (F i)) ch"
      using assms(1) True unfolding binary_inv_def reads_left [of c rd] by auto
    have "list_all sendable (drop j (F i))" using True by (auto simp: peer_frames_def list_all_iff dest: in_set_dropD)
    from HandleEvents_handled [OF j(2) False this, of ?h s, unfolded assms(2)]
    obtain k out z where z: "answers ?h (ch_clock ch) (map received (take k (drop j (F i)))) (served (ch, s)) = (out, z)"
      "on_track (dk_out ?d @ out) ?rest (drop k (drop j (F i))) ch'" "s' = snd (snd z)"
      "\<not> ch_closed ch' \<longrightarrow> served (ch', s') = z \<and> ch_clock ch' = ch_clock ch"
      unfolding handled_def fst_conv snd_conv by blast
    let ?fs = "map received (take k (drop j (F i)))"
    obtain m t where m: "z = (m, t, s')" using z(3) by (metis prod.collapse)
    have "replay H (map (Framed i) ?fs) (D, s) = (D(i := ?d\<lparr>dk_streams := m, dk_ticks := t, dk_out := dk_out ?d @ out\<rparr>), s')"
      using z(1) d m by (intro replay_frames) simp
    moreover have "frames_of i (tr @ map (Framed i) ?fs) = map received (take (j + k) (F i))"
      using j(1) by (simp add: take_add del: map_map)
    moreover have "drop (j + k) (F i) = drop k (drop j (F i))" by (simp add: add.commute)
    moreover have "\<not> ch_closed ch' \<longrightarrow> ch_clock ch = ch_clock ch' \<and> m = ch_streams ch' \<and> t = ch_ticks ch'"
      using z(4) by (simp add: m served_def)
    ultimately show ?thesis using z(2) d(1)
      by (intro exI [of _ ?fs] exI [of _ "D(i := ?d\<lparr>dk_streams := m, dk_ticks := t, dk_out := dk_out ?d @ out\<rparr>)"])
        (simp add: binary_inv_def del: drop_drop map_map, metis)
  next
    case False': False
    obtain fs out z where z: "answers ?h (ch_clock ch) fs (served (ch, s)) = (out, z)" "s' = snd (snd z)"
      "\<not> ch_closed ch' \<longrightarrow> served (ch', s') = z \<and> ch_clock ch' = ch_clock ch"
      using HandleEvents_any [of ?h ch s "io_of rd c", unfolded assms(2)]
      unfolding handles_some_def fst_conv snd_conv by blast
    obtain m t where m: "z = (m, t, s')" using z(2) by (metis prod.collapse)
    have "replay H (map (Framed i) fs) (D, s) = (D(i := ?d\<lparr>dk_streams := m, dk_ticks := t, dk_out := dk_out ?d @ out\<rparr>), s')"
      using z(1) d m by (intro replay_frames) simp
    moreover have "\<not> ch_closed ch' \<longrightarrow> ch_clock ch = ch_clock ch' \<and> m = ch_streams ch' \<and> t = ch_ticks ch'"
      using z(3) by (simp add: m served_def)
    ultimately show ?thesis using d(1) False'
      by (intro exI [of _ fs] exI [of _ "D(i := ?d\<lparr>dk_streams := m, dk_ticks := t, dk_out := dk_out ?d @ out\<rparr>)"])
        (simp add: binary_inv_def)
  qed
qed

lemma ok_alive: "list_all ok_request rs \<Longrightarrow> list_all keeps_alive (map received_request rs)"
  by (auto simp: list_all_iff ok_request_def)

lemma http_event:
  fixes H :: "'s handlers"
  assumes "http_inv G tr (D i) i c ch" "HttpChannel_HandleEvents (on_http_request H) (io_of rd c) (ch, s) = Some (ch', s')"
  shows "\<exists>rs D'. replay H (map (Asked i) rs) (D, s) = (D', s')
    \<and> http_inv G (tr @ map (Asked i) rs) (D' i) i (c\<lparr>co_link := l, co_reads := left_reads rd c\<rparr>) ch'"
proof (cases "peer_requests (co_socket c) (G i)")
  case True
  let ?h = "on_http_request H" and ?d = "D i"
  let ?rest = "reads_bytes (left_reads rd c) @ never_arrives (co_socket c) (http_wire (G i))"
  obtain j where j: "requests_of i tr = map received_request (take j (G i))"
    "on_http (dk_out ?d) (concat (ev_chunks (io_of rd c)) @ ?rest) (drop j (G i)) ch"
    using assms(1) True unfolding http_inv_def reads_left [of c rd] by auto
  have ok: "list_all ok_request (drop j (G i))" using True by (auto simp: peer_requests_def list_all_iff dest: in_set_dropD)
  obtain k out where k: "http_answers ?h (map received_request (take k (drop j (G i)))) s = (out, s')"
    "on_http (dk_out ?d @ out) ?rest (drop k (drop j (G i))) ch'"
    using HandleEvents_advance [OF j(2) ok, of ?h s, unfolded assms(2)] unfolding advance_def by auto
  let ?rs = "map received_request (take k (drop j (G i)))"
  have "list_all keeps_alive ?rs" using ok by (intro ok_alive) (auto simp: list_all_iff dest: in_set_takeD)
  then have "replay H (map (Asked i) ?rs) (D, s) = (D(i := ?d\<lparr>dk_out := dk_out ?d @ out\<rparr>), s')"
    by (intro replay_asked k(1))
  moreover have "requests_of i (tr @ map (Asked i) ?rs) = map received_request (take (j + k) (G i))"
    using j(1) by (simp add: take_add del: map_map)
  moreover have "drop (j + k) (G i) = drop k (drop j (G i))" by (simp add: add.commute)
  ultimately show ?thesis using k
    by (intro exI [of _ ?rs] exI [of _ "D(i := ?d\<lparr>dk_out := dk_out ?d @ out\<rparr>)"])
      (auto simp: http_inv_def intro!: exI [of _ "j + k"] simp del: drop_drop)
next
  case False
  obtain rs where "s' = fold (\<lambda>r s. snd (on_http_request H r s)) rs s"
    using Http_HandleEvents_any [OF assms(2)] by (auto simp: asks_some_def)
  moreover obtain D' where "replay H (map (Asked i) rs) (D, s) = (D', fold (\<lambda>r s. snd (on_http_request H r s)) rs s)"
    using replay_asked_state [of H i rs D s] by blast
  ultimately show ?thesis using False by (intro exI [of _ rs] exI [of _ D']) (simp add: http_inv_def)
qed

lemma link_event:
  fixes H :: "'s handlers"
  assumes "conn_inv F G tr (D i) i c" "link_events H (io_of rd c) (co_link c, s) = Some (l, s')"
  shows "\<exists>es D'. (\<forall>e\<in>set es. entry_conn e = Some i) \<and> replay H es (D, s) = (D', s')
    \<and> conn_inv F G (tr @ es) (D' i) i (c\<lparr>co_link := l, co_reads := left_reads rd c\<rparr>)"
proof (cases "co_link c")
  case (Binary_link ch)
  obtain ch' where ch': "HandleEvents (on_request H) (io_of rd c) (ch, s) = (ch', s')" "l = Binary_link ch'"
    using assms(2) Binary_link by (auto simp: apfst_def map_prod_def split: prod.splits)
  have "binary_inv F tr (D i) i c ch" using assms(1) Binary_link by (simp add: conn_inv_def)
  from binary_event [where D = D and i = i and l = l, OF this ch'(1)] obtain fs D' where
    "replay H (map (Framed i) fs) (D, s) = (D', s')"
    "binary_inv F (tr @ map (Framed i) fs) (D' i) i (c\<lparr>co_link := l, co_reads := left_reads rd c\<rparr>) ch'" by blast
  then show ?thesis using ch'(2) by (intro exI [of _ "map (Framed i) fs"] exI [of _ D']) (simp add: conn_inv_def)
next
  case (Http_link ch)
  obtain ch' where ch': "HttpChannel_HandleEvents (on_http_request H) (io_of rd c) (ch, s) = Some (ch', s')" "l = Http_link ch'"
    using assms(2) Http_link by (auto simp: apfst_def map_prod_def split: prod.splits)
  have "http_inv G tr (D i) i c ch" using assms(1) Http_link by (simp add: conn_inv_def)
  from http_event [where D = D and i = i and l = l, OF this ch'(1)] obtain rs D' where
    "replay H (map (Asked i) rs) (D, s) = (D', s')"
    "http_inv G (tr @ map (Asked i) rs) (D' i) i (c\<lparr>co_link := l, co_reads := left_reads rd c\<rparr>) ch'" by blast
  then show ?thesis using ch'(2) by (intro exI [of _ "map (Asked i) rs"] exI [of _ D']) (simp add: conn_inv_def)
qed

lemma new_conn_inv:
  assumes "d = \<lparr>dk_clock = sk_clock sk, dk_streams = new_StreamManager 1024 30000, dk_ticks = 0, dk_out = []\<rparr>"
    and "frames_of i tr = []" "requests_of i tr = []"
  shows "conn_inv F G tr d i (new_conn http sk)"
    and "conn_inv F G tr d i ((new_conn http sk)\<lparr>co_link := close_link (co_link (new_conn http sk))\<rparr>)"
proof -
  let ?ch = "new_Channel (sk_sends sk) (sk_clock sk)" and ?hc = "new_HttpChannel (sk_sends sk)"
  have b: "peer_frames sk (F i) \<Longrightarrow> on_track [] (reads_bytes (sk_reads sk) @ never_arrives sk (wire (F i))) (F i) ?ch"
    using on_track_new arrives by (simp add: peer_frames_def)
  have h: "peer_requests sk (G i) \<Longrightarrow> on_http [] (reads_bytes (sk_reads sk) @ never_arrives sk (http_wire (G i))) (G i) ?hc"
    using on_http_new arrives by (simp add: peer_requests_def)
  show "conn_inv F G tr d i (new_conn http sk)"
    using assms b h by (auto simp: conn_inv_def binary_inv_def http_inv_def new_conn_def new_Channel_def intro!: exI [of _ 0])
  show "conn_inv F G tr d i ((new_conn http sk)\<lparr>co_link := close_link (co_link (new_conn http sk))\<rparr>)"
    using assms on_track_Close [OF b] on_http_Close [OF h]
    by (auto simp: conn_inv_def binary_inv_def http_inv_def new_conn_def Channel_Close_def intro!: exI [of _ 0])
qed

section \<open>All connections\<close>

definition world_inv ::
  "(nat \<Rightarrow> (Header \<times> string) list) \<Rightarrow> (nat \<Rightarrow> ClientRequest list) \<Rightarrow> 's handlers \<Rightarrow> (nat \<Rightarrow> desk) \<times> 's
    \<Rightarrow> entry list \<Rightarrow> 's world \<Rightarrow> bool" where
  "world_inv F G H x0 tr g \<longleftrightarrow>
     (\<exists>D. replay H tr x0 = (D, shared g) \<and> (\<forall>i<length (objects g). conn_inv F G tr (D i) i (objects g ! i)))
     \<and> (\<forall>e\<in>set tr. \<forall>i. entry_conn e = Some i \<longrightarrow> i < length (objects g))"

definition worker_ok :: "nat \<Rightarrow> worker \<Rightarrow> bool" where
  "worker_ok n w \<longleftrightarrow> (\<forall>http fd i. channel_of http fd w = Some i \<longrightarrow> i < n)"

text \<open>A worker and the world with some trace; the number of connections only grows.\<close>

definition on_course ::
  "(nat \<Rightarrow> (Header \<times> string) list) \<Rightarrow> (nat \<Rightarrow> ClientRequest list) \<Rightarrow> 's handlers \<Rightarrow> (nat \<Rightarrow> desk) \<times> 's
    \<Rightarrow> nat \<Rightarrow> worker \<times> 's world \<Rightarrow> bool" where
  "on_course F G H x0 n x \<longleftrightarrow>
     (\<exists>tr. world_inv F G H x0 tr (snd x)) \<and> worker_ok (length (objects (snd x))) (fst x) \<and> n \<le> length (objects (snd x))"

lemma worker_ok_mono: "worker_ok n w \<Longrightarrow> n \<le> m \<Longrightarrow> worker_ok m w"
  by (meson order.strict_trans2 worker_ok_def)

lemma channel_of_loop [simp]: "channel_of http fd (w\<lparr>w_loop := l\<rparr>) = channel_of http fd w"
  by (simp add: channel_of_def)

lemma worker_ok_loop [simp]: "worker_ok n (w\<lparr>w_loop := l\<rparr>) = worker_ok n w"
  by (simp add: worker_ok_def)

lemma channel_of_set:
  "channel_of http fd (set_channel http' fd' i w) = (if http = http' \<and> fd = fd' then i else channel_of http fd w)"
  by (simp add: channel_of_def set_channel_def)

lemma worker_ok_set: "worker_ok n w \<Longrightarrow> (\<forall>k. i = Some k \<longrightarrow> k < n) \<Longrightarrow> worker_ok n (set_channel http fd i w)"
  by (simp add: worker_ok_def channel_of_set)

lemma world_extend:
  assumes "world_inv F G H x0 tr g" "i < length (objects g)" "link_events H (io_of rd (objects g ! i)) (co_link (objects g ! i), shared g) = Some (l, s)"
  shows "\<exists>tr'. world_inv F G H x0 tr' (g\<lparr>objects := (objects g)[i := (objects g ! i)\<lparr>co_link := l, co_reads := left_reads rd (objects g ! i)\<rparr>], shared := s\<rparr>)"
proof -
  obtain D where D: "replay H tr x0 = (D, shared g)" "\<forall>i<length (objects g). conn_inv F G tr (D i) i (objects g ! i)"
    "\<forall>e\<in>set tr. \<forall>i. entry_conn e = Some i \<longrightarrow> i < length (objects g)" using assms(1) unfolding world_inv_def by blast
  obtain es D' where es: "\<forall>e\<in>set es. entry_conn e = Some i" "replay H es (D, shared g) = (D', s)"
    "conn_inv F G (tr @ es) (D' i) i ((objects g ! i)\<lparr>co_link := l, co_reads := left_reads rd (objects g ! i)\<rparr>)"
    using link_event [where D = D and i = i, OF D(2) [rule_format, OF assms(2)] assms(3)] by blast
  have "conn_inv F G (tr @ es) (D' k) k (objects g ! k)" if "k < length (objects g)" "k \<noteq> i" for k
  proof -
    have o: "\<forall>e\<in>set es. entry_conn e \<noteq> Some k" using es(1) that(2) by auto
    then have "D' k = D k" using replay_other [OF o, of H "(D, shared g)"] es(2) by simp
    then show ?thesis using conn_inv_other [OF _ o] D(2) that(1) by simp
  qed
  then have "world_inv F G H x0 (tr @ es) (g\<lparr>objects := (objects g)[i := (objects g ! i)\<lparr>co_link := l, co_reads := left_reads rd (objects g ! i)\<rparr>], shared := s\<rparr>)"
    using D(1,3) es assms(2) unfolding world_inv_def
    by (auto simp: replay_append nth_list_update)
  then show ?thesis by blast
qed

lemma channel_event_course:
  assumes "on_course F G H x0 n x" "channel_event H http fd rd x = Some y"
  shows "on_course F G H x0 n y"
proof -
  obtain w g where x: "x = (w, g)" by fastforce
  obtain tr where tr: "world_inv F G H x0 tr g" "worker_ok (length (objects g)) w" "n \<le> length (objects g)"
    using assms(1) by (auto simp: on_course_def x)
  show ?thesis
  proof (cases "channel_of http fd w")
    case None
    then show ?thesis using assms by (simp add: x channel_event_def)
  next
    case (Some i)
    then have i: "i < length (objects g)" using tr(2) by (simp add: worker_ok_def)
    let ?c = "objects g ! i"
    obtain l s where l: "link_events H (io_of rd ?c) (co_link ?c, shared g) = Some (l, s)"
      and y: "y = (if link_closed l then set_channel http fd None (w\<lparr>w_loop := EventLoop_Remove fd (w_loop w)\<rparr>) else w,
        g\<lparr>objects := (objects g)[i := ?c\<lparr>co_link := l, co_reads := left_reads rd ?c\<rparr>], shared := s\<rparr>)"
      using assms(2) Some by (auto simp: x channel_event_def Let_def)
    show ?thesis using world_extend [OF tr(1) i l] tr(2,3) worker_ok_set [of "length (objects g)"]
      by (auto simp: on_course_def y)
  qed
qed

lemma add_channel_course:
  assumes "on_course F G H x0 n x"
  shows "on_course F G H x0 n (add_channel http fd ctl sk x)"
proof -
  obtain w g where x: "x = (w, g)" by fastforce
  obtain tr where tr: "world_inv F G H x0 tr g" "worker_ok (length (objects g)) w" "n \<le> length (objects g)"
    using assms(1) by (auto simp: on_course_def x)
  obtain D where D: "replay H tr x0 = (D, shared g)" "\<forall>i<length (objects g). conn_inv F G tr (D i) i (objects g ! i)"
    "\<forall>e\<in>set tr. \<forall>i. entry_conn e = Some i \<longrightarrow> i < length (objects g)" using tr(1) unfolding world_inv_def by blast
  let ?n = "length (objects g)" and ?c = "new_conn http sk"
  let ?d = "\<lparr>dk_clock = sk_clock sk, dk_streams = new_StreamManager 1024 30000, dk_ticks = 0, dk_out = []\<rparr>"
  let ?tr = "tr @ [Opened ?n (sk_clock sk)]"
  have none: "frames_of ?n ?tr = [] \<and> requests_of ?n ?tr = []" using frames_of_other [of tr ?n] D(3) by auto
  have old: "conn_inv F G ?tr (D k) k (objects g ! k)" if "k < ?n" for k
    using conn_inv_other [of F G tr "D k" k _ "[Opened ?n (sk_clock sk)]"] D(2) that by simp
  have inv: "\<exists>tr. world_inv F G H x0 tr g'"
    if "conn_inv F G ?tr ?d ?n c" "objects g' = objects g @ [c]" "shared g' = shared g" for c g'
  proof -
    have "world_inv F G H x0 ?tr g'"
      using D(1,3) old that unfolding world_inv_def
      by (auto simp: replay_append replay_def nth_append less_Suc_eq)
    then show ?thesis by blast
  qed
  show ?thesis
  proof (cases "channel_of http fd w = None")
    case True
    have "worker_ok (Suc ?n) (set_channel http fd (Some ?n) w)"
      by (rule worker_ok_set) (use worker_ok_mono [OF tr(2), of "Suc ?n"] in auto)
    then show ?thesis using inv [OF new_conn_inv(1) [OF refl]] none True tr(3)
      by (simp add: on_course_def x add_channel_def Let_def)
  next
    case False
    then show ?thesis using inv [OF new_conn_inv(2) [OF refl]] none tr(3) worker_ok_mono [OF tr(2), of "Suc ?n"]
      by (cases http) (auto simp: on_course_def x add_channel_def Let_def)
  qed
qed

lemma accept_loop_course: "on_course F G H x0 n x \<Longrightarrow> on_course F G H x0 n (accept_loop http rs x)"
  by (induction http rs x rule: accept_loop.induct) (auto split: accept_outcome.split intro: add_channel_course)

lemma dispatch_course:
  assumes "on_course F G H x0 n x" "dispatch H e x = Some y"
  shows "on_course F G H x0 n y"
proof -
  obtain w g fd rd where x: "x = (w, g)" "e = (fd, rd)" by fastforce
  show ?thesis
  proof (cases "callbacks (w_loop w) fd")
    case None
    then show ?thesis using assms by (simp add: x dispatch_def)
  next
    case (Some cb)
    then show ?thesis using assms accept_loop_course [OF assms(1)] channel_event_course [OF assms(1)]
      by (cases cb) (auto simp: x dispatch_def on_course_def)
  qed
qed

lemma dispatch_events_course: "on_course F G H x0 n x \<Longrightarrow> dispatch_events H es x = Some y \<Longrightarrow> on_course F G H x0 n y"
  by (induction es arbitrary: x) (auto split: bind_splits dest: dispatch_course)

lemma world_tick:
  assumes "world_inv F G H x0 tr g"
  shows "world_inv F G H x0 (tr @ [Ticked]) (g\<lparr>shared := on_timer H (shared g)\<rparr>)"
proof -
  obtain D where D: "replay H tr x0 = (D, shared g)" "\<forall>i<length (objects g). conn_inv F G tr (D i) i (objects g ! i)"
    "\<forall>e\<in>set tr. \<forall>i. entry_conn e = Some i \<longrightarrow> i < length (objects g)" using assms unfolding world_inv_def by blast
  have "replay H (tr @ [Ticked]) x0 = (D, on_timer H (shared g))" by (simp add: replay_append D(1)) (simp add: replay_def)
  moreover have "conn_inv F G (tr @ [Ticked]) (D i) i (objects g ! i)" if "i < length (objects g)" for i
    using conn_inv_other [of F G tr "D i" i _ "[Ticked]"] D(2) that by simp
  moreover have "\<forall>e\<in>set (tr @ [Ticked]). \<forall>i. entry_conn e = Some i \<longrightarrow> i < length (objects g)" using D(3) by simp
  ultimately show ?thesis unfolding world_inv_def by simp
qed

lemma RunOnce_course:
  assumes "on_course F G H x0 n x" "RunOnce H p now x = Some y"
  shows "on_course F G H x0 n y"
proof (cases p)
  case Poll_failed
  then show ?thesis using assms by (cases x) (auto simp: RunOnce_def on_course_def)
next
  case Poll_interrupted
  then show ?thesis using assms by (simp add: RunOnce_def)
next
  case (Ready es)
  then obtain w g where x: "dispatch_events H es x = Some (w, g)"
    "y = (case timer_check now (w_loop w) of
       (ticked, l) \<Rightarrow> (w\<lparr>w_loop := l\<rparr>, if ticked then g\<lparr>shared := on_timer H (shared g)\<rparr> else g))"
    using assms(2) by (auto simp: RunOnce_def)
  obtain ticked l where t: "timer_check now (w_loop w) = (ticked, l)" by fastforce
  have c: "on_course F G H x0 n (w, g)" using dispatch_events_course [OF assms(1) x(1)] .
  then obtain tr where "world_inv F G H x0 tr g" by (auto simp: on_course_def)
  then have "\<exists>tr. world_inv F G H x0 tr (g\<lparr>shared := on_timer H (shared g)\<rparr>)" using world_tick by blast
  then show ?thesis using c by (simp add: x(2) t on_course_def)
qed

definition server_ok ::
  "(nat \<Rightarrow> (Header \<times> string) list) \<Rightarrow> (nat \<Rightarrow> ClientRequest list) \<Rightarrow> 's handlers \<Rightarrow> (nat \<Rightarrow> desk) \<times> 's
    \<Rightarrow> worker list \<times> 's world \<Rightarrow> bool" where
  "server_ok F G H x0 x \<longleftrightarrow>
     (\<exists>tr. world_inv F G H x0 tr (snd x)) \<and> list_all (worker_ok (length (objects (snd x)))) (fst x)"

lemma worker_ok_stop: "list_all (worker_ok n) ws \<Longrightarrow> list_all (worker_ok n) (map stop_worker ws)"
  by (auto simp: list_all_iff stop_worker_def)

lemma server_step_ok:
  assumes "server_ok F G H x0 x" "server_step H e x = Some y"
  shows "server_ok F G H x0 y"
proof -
  obtain ws g where x: "x = (ws, g)" by fastforce
  show ?thesis
  proof (cases e)
    case (Round i p now)
    show ?thesis
    proof (cases "i < length ws \<and> el_running (w_loop (ws ! i))")
      case True
      then obtain w g' where r: "RunOnce H p now (ws ! i, g) = Some (w, g')"
        and y: "y = (if i = 0 \<and> is_failed p then map stop_worker (ws[i := w]) else ws[i := w], g')"
        using assms(2) by (auto simp: x Round)
      have "on_course F G H x0 (length (objects g)) (ws ! i, g)"
        using assms(1) True by (auto simp: server_ok_def on_course_def x list_all_length)
      from RunOnce_course [OF this r] have w: "\<exists>tr. world_inv F G H x0 tr g'" "worker_ok (length (objects g')) w"
        "length (objects g) \<le> length (objects g')" by (simp_all add: on_course_def)
      have "list_all (worker_ok (length (objects g'))) ws"
        using assms(1) worker_ok_mono [OF _ w(3)] by (auto simp: server_ok_def x list_all_iff)
      then have "list_all (worker_ok (length (objects g'))) (ws[i := w])"
        using w(2) by (auto simp: list_all_iff dest: set_update_subset_insert [THEN subsetD])
      moreover from this have "list_all (worker_ok (length (objects g'))) (map stop_worker (ws[i := w]))"
        by (rule worker_ok_stop)
      ultimately show ?thesis using w(1) by (cases "i = 0 \<and> is_failed p") (simp_all only: server_ok_def y fst_conv snd_conv if_True if_False simp_thms)
    qed (use assms in \<open>auto simp: x Round\<close>)
  next
    case Stop
    then show ?thesis using assms worker_ok_stop by (auto simp: server_ok_def x)
  qed
qed

lemma server_run_ok: "server_ok F G H x0 x \<Longrightarrow> server_run H es x = Some y \<Longrightarrow> server_ok F G H x0 y"
  by (induction es arbitrary: x) (auto split: bind_splits dest: server_step_ok)

text \<open>The workers as they are started, with no connection yet.\<close>

lemma all_right_length: "all_right xs = Inr ys \<Longrightarrow> length ys = length xs"
  by (induction xs arbitrary: ys rule: all_right.induct) (auto simp: map_sum_def split: sum.splits)

lemma Server_Run_ok: "Server_Run strerror sv hw boots = Inr ws \<Longrightarrow> list_all (worker_ok n) ws"
proof -
  have i: "worker_ok n (idle_worker l)" for l by (simp add: worker_ok_def idle_worker_def channel_of_def)
  have s: "worker_ok n (start_worker k sv b l fd h)" for k b l fd h by (simp add: start_worker_def Let_def i)
  assume "Server_Run strerror sv hw boots = Inr ws"
  then show ?thesis
    by (auto simp: Server_Run_def list_all_iff i s split: sum.splits prod.splits if_splits)
qed

section \<open>What every peer gets\<close>

text \<open>A connection got what the sequence owes it: its requests were served in their order, none was skipped,
  what its socket took is a beginning of the replies, and while it is open the rest of them is still buffered; once everything the peer sends has arrived,
  everything is served.\<close>

definition served_binary :: "entry list \<Rightarrow> string \<Rightarrow> nat \<Rightarrow> conn \<Rightarrow> (Header \<times> string) list \<Rightarrow> Channel \<Rightarrow> bool" where
  "served_binary tr out i c fs ch \<longleftrightarrow>
     prefix (frames_of i tr) (map received fs) \<and> prefix (ch_out ch) out
     \<and> (\<not> ch_closed ch \<longrightarrow> ch_out ch @ drop (write_offset ch) (write_buffer ch) = out)
     \<and> (\<not> ch_closed ch \<and> co_reads c = [] \<and> reads_bytes (sk_reads (co_socket c)) = wire fs \<longrightarrow> frames_of i tr = map received fs)"

definition served_http :: "entry list \<Rightarrow> string \<Rightarrow> nat \<Rightarrow> conn \<Rightarrow> ClientRequest list \<Rightarrow> HttpChannel \<Rightarrow> bool" where
  "served_http tr out i c rs ch \<longleftrightarrow>
     prefix (requests_of i tr) (map received_request rs) \<and> prefix (hc_out ch) out
     \<and> (\<not> hc_closed ch \<longrightarrow> hc_out ch @ hc_write_buffer ch = out)
     \<and> (\<not> hc_closed ch \<and> co_reads c = [] \<and> reads_bytes (sk_reads (co_socket c)) = http_wire rs \<longrightarrow>
        requests_of i tr = map received_request rs)"

definition peer_served ::
  "(nat \<Rightarrow> (Header \<times> string) list) \<Rightarrow> (nat \<Rightarrow> ClientRequest list) \<Rightarrow> entry list \<Rightarrow> string \<Rightarrow> nat \<Rightarrow> conn \<Rightarrow> bool" where
  "peer_served F G tr out i c \<longleftrightarrow>
     (case co_link c of
        Binary_link ch \<Rightarrow> peer_frames (co_socket c) (F i) \<longrightarrow> served_binary tr out i c (F i) ch
      | Http_link ch \<Rightarrow> peer_requests (co_socket c) (G i) \<longrightarrow> served_http tr out i c (G i) ch)"

lemma conn_inv_served: "conn_inv F G tr d i c \<Longrightarrow> peer_served F G tr (dk_out d) i c"
proof (cases "co_link c")
  case (Binary_link ch)
  assume "conn_inv F G tr d i c"
  then have inv: "binary_inv F tr d i c ch" by (simp add: conn_inv_def Binary_link)
  have "served_binary tr (dk_out d) i c (F i) ch" if p: "peer_frames (co_socket c) (F i)"
  proof -
    obtain j where j: "frames_of i tr = map received (take j (F i))"
      "on_track (dk_out d) (reads_bytes (co_reads c) @ never_arrives (co_socket c) (wire (F i))) (drop j (F i)) ch"
      using inv p unfolding binary_inv_def by blast
    have "drop j (F i) = []" if "\<not> ch_closed ch" "co_reads c = []" "reads_bytes (sk_reads (co_socket c)) = wire (F i)"
    proof -
      have "stuck (wire (drop j (F i))) (drop j (F i))"
        using j(2) that by (auto simp: on_track_def reads_bytes_def never_arrives_def)
      then show ?thesis by (rule stuck_complete)
    qed
    moreover have "follows (dk_out d) ch" using j(2) by (simp add: on_track_def)
    ultimately show ?thesis using j(1) follows_prefix [of "dk_out d" ch]
      by (auto simp: served_binary_def follows_def take_is_prefix intro: map_mono_prefix)
  qed
  then show ?thesis by (simp add: peer_served_def Binary_link)
next
  case (Http_link ch)
  assume "conn_inv F G tr d i c"
  then have inv: "http_inv G tr d i c ch" by (simp add: conn_inv_def Http_link)
  have "served_http tr (dk_out d) i c (G i) ch" if p: "peer_requests (co_socket c) (G i)"
  proof -
    obtain j where j: "requests_of i tr = map received_request (take j (G i))"
      "on_http (dk_out d) (reads_bytes (co_reads c) @ never_arrives (co_socket c) (http_wire (G i))) (drop j (G i)) ch"
      using inv p unfolding http_inv_def by blast
    have "drop j (G i) = []" if "\<not> hc_closed ch" "co_reads c = []" "reads_bytes (sk_reads (co_socket c)) = http_wire (G i)"
      using j(2) that on_http_complete [of "dk_out d" "drop j (G i)" ch] by (simp add: reads_bytes_def never_arrives_def)
    moreover have "hfollows (dk_out d) ch" using j(2) by (simp add: on_http_def)
    ultimately show ?thesis using j(1) hfollows_prefix [of "dk_out d" ch "[]"]
      by (auto simp: served_http_def hfollows_def take_is_prefix intro: map_mono_prefix)
  qed
  then show ?thesis by (simp add: peer_served_def Http_link)
qed


text \<open>Two workers; the first accepts two connections, whose events come interleaved.\<close>

definition example_server :: Server where
  "example_server = \<lparr>sv_port = 7000, sv_interval = 100, sv_timer = True, sv_http_port = 0, sv_http = False, num_workers = 2\<rparr>"

definition example_boots :: "nat \<Rightarrow> worker_boot" where
  "example_boots i = \<lparr>wb_epoll = True, wb_event_fd = Some 4, wb_event_ctl = True, wb_listen = Listening 5, wb_listen_ctl = True,
     wb_http = Listening 6, wb_http_ctl = True, wb_now = 0\<rparr>"

definition echo_handlers :: "nat handlers" where
  "echo_handlers = \<lparr>on_request = echo, on_http_request = count_requests, on_timer = \<lambda>n. n\<rparr>"

definition example_frames :: "nat \<Rightarrow> (Header \<times> string) list" where
  "example_frames i =
     (if i = 0 then [(new_header Msg_Request 0 7 0 2, ''hi'')] else [(new_header Msg_Request 0 8 0 3, ''you'')])"

definition example_socket :: "nat \<Rightarrow> socket" where
  "example_socket i =
     \<lparr>sk_sends = [Sent 5, Sent 9], sk_clock = \<lambda>_. 0,
      sk_reads = [[Received (take 10 (wire (example_frames i))), Recv_again], [Received (drop 10 (wire (example_frames i))), Recv_again]]\<rparr>"

definition example_ready :: "accept_outcome list \<Rightarrow> ready" where
  "example_ready accepts = \<lparr>rd_in = True, rd_out = True, rd_err = False, rd_accepts = accepts\<rparr>"

definition example_net :: "net_event list" where
  "example_net =
     [Round 0 (Ready [(5, example_ready [Accepted 10 True (example_socket 0), Accepted 11 True (example_socket 1), Accept_again])]) 10,
      Round 0 (Ready [(11, example_ready []), (10, example_ready [])]) 120,
      Round 1 Poll_interrupted 130,
      Round 0 (Ready [(10, example_ready []), (11, example_ready [])]) 140]"

definition example_done :: "nat \<Rightarrow> conn \<Rightarrow> bool" where
  "example_done i c \<longleftrightarrow> reads_bytes (sk_reads (co_socket c)) = wire (example_frames i) \<and> co_reads c = []
     \<and> (case co_link c of Binary_link ch \<Rightarrow> \<not> ch_closed ch | Http_link ch \<Rightarrow> False)"

definition example_checks :: "(worker list \<times> nat world) option \<Rightarrow> nat option" where
  "example_checks r =
     Option.bind r (\<lambda>(ws, g).
       case objects g of
         [c0, c1] \<Rightarrow> if example_done 0 c0 \<and> example_done 1 c1 then Some (shared g) else None
       | _ \<Rightarrow> None)"

definition example_workers :: "worker list" where
  "example_workers =
     (case Server_Run (\<lambda>_. []) example_server 1 example_boots of Inl e \<Rightarrow> [] | Inr ws \<Rightarrow> ws)"

lemma example_workers_run: "Server_Run (\<lambda>_. []) example_server 1 example_boots = Inr example_workers"
proof -
  have "case Server_Run (\<lambda>_. []) example_server 1 example_boots of Inl e \<Rightarrow> False | Inr ws \<Rightarrow> True" by code_simp
  then show ?thesis by (simp add: example_workers_def split: sum.splits)
qed

definition example_result :: "(worker list \<times> nat world) option" where
  "example_result = server_run echo_handlers example_net (example_workers, \<lparr>objects = [], next_session_id = 1, shared = 0\<rparr>)"

lemma example_checks_run: "example_checks example_result = Some 2"
  by code_simp

lemma example_served:
  assumes "peer_served example_frames G tr out i c" "example_done i c"
  shows "frames_of i tr = map received (example_frames i)"
proof -
  obtain ch where ch: "co_link c = Binary_link ch" "\<not> ch_closed ch" "co_reads c = []"
    "reads_bytes (sk_reads (co_socket c)) = wire (example_frames i)"
    using assms(2) by (auto simp: example_done_def split: link.splits)
  then have "peer_frames (co_socket c) (example_frames i)"
    by (simp add: peer_frames_def example_frames_def sendable_def new_header_def kMaxPayloadLength_def wire_def
        length_EncodeFrame kHeaderSize_def kMaxDecoderBufferSize_def)
  then show ?thesis using assms(1) ch by (simp add: peer_served_def served_binary_def)
qed


end
