(* ===== verification/GK_Format.thy ===== *)
theory GK_Format
  imports GK_Http "HOL-Library.Monad_Syntax"
begin

text \<open>
  How the command-line tool shows a response, \<open>src/cli/format.cpp\<close>. A parser takes the rest of the text and
  returns what is left, as the code moves its position, also when it fails. A number that does not fit
  64 bits makes the code overflow a signed integer, which is undefined: the result is \<open>None\<close>.

  Shown: a text that is not a JSON object is shown as it is; a quoted string is read back as it was,
  unless it holds a control character that is written in hexadecimal.
\<close>

section \<open>Parsers\<close>

definition SkipWs :: "string \<Rightarrow> string" where
  "SkipWs s = dropWhile isspace s"

definition unescape :: "char \<Rightarrow> char" where
  "unescape e =
     (if e = CHR ''b'' then CHR 0x08 else if e = CHR ''f'' then CHR 0x0C else if e = CHR ''n'' then CHR 0x0A
      else if e = CHR ''r'' then CHR 0x0D else if e = CHR ''t'' then CHR 0x09 else e)"

text \<open>Success, the text read so far, and the rest.\<close>

fun string_chars :: "string \<Rightarrow> bool \<times> string \<times> string" where
  "string_chars [] = (False, [], [])"
| "string_chars (c # s) =
     (if c = CHR 0x22 then (True, [], s)
      else if c = CHR 0x5C
      then (case s of
              [] \<Rightarrow> (False, [], [])
            | e # s' \<Rightarrow> (case string_chars s' of (good, out, r) \<Rightarrow> (good, unescape e # out, r)))
      else (case string_chars s of (good, out, r) \<Rightarrow> (good, c # out, r)))"

definition ParseJsonString :: "string \<Rightarrow> bool \<times> string \<times> string" where
  "ParseJsonString s =
     (case SkipWs s of
        [] \<Rightarrow> (False, [], [])
      | c # r \<Rightarrow> if c \<noteq> CHR 0x22 then (False, [], r) else string_chars r)"

definition ParseBool :: "string \<Rightarrow> bool option" where
  "ParseBool s =
     (let r = SkipWs s
      in if prefix ''true'' r then Some True else if prefix ''false'' r then Some False else None)"

text \<open>\<open>None\<close> is an overflow, \<open>Some None\<close> a text that is not a number.\<close>

definition ParseNumber :: "string \<Rightarrow> i64 option option" where
  "ParseNumber s =
     (let r = SkipWs s;
          neg = (r \<noteq> [] \<and> hd r = CHR ''-'');
          ds = takeWhile isdigit (if neg then tl r else r)
      in if ds = [] then Some None
         else if dec_value ds \<ge> 2 ^ 63 then None
         else Some (Some (if neg then - of_nat (dec_value ds) else of_nat (dec_value ds))))"

lemma string_chars_length: "string_chars s = (True, out, r) \<Longrightarrow> length r < length s"
  by (induction s arbitrary: out rule: string_chars.induct) (fastforce split: if_splits list.splits prod.splits)+

lemma ParseJsonString_length: "ParseJsonString s = (True, out, r) \<Longrightarrow> length r < length s"
  using length_dropWhile_le [of isspace s]
  by (auto simp: ParseJsonString_def SkipWs_def split: list.splits if_splits dest!: string_chars_length)

lemma list_item_length:
  assumes "(True, item, r) = ParseJsonString s" "SkipWs r = c # r'"
  shows "length r' < length s"
proof -
  have "length r < length s" using ParseJsonString_length [of s item r] assms(1) by simp
  moreover have "length (c # r') \<le> length r" using length_dropWhile_le [of isspace r] assms(2) by (simp add: SkipWs_def)
  ultimately show ?thesis by simp
qed

function list_items :: "string \<Rightarrow> string list option" where
  "list_items s =
     (if s = [] then None
      else case ParseJsonString s of
        (good, item, r) \<Rightarrow>
          if \<not> good then None
          else case SkipWs r of
            [] \<Rightarrow> None
          | c # r' \<Rightarrow>
              if c = CHR '']'' then Some [item]
              else if c = CHR '','' then map_option ((#) item) (list_items r')
              else None)"
  by pat_completeness auto
termination
  by (relation "measure length") (auto intro: list_item_length)

declare list_items.simps [simp del]

definition ParseStringList :: "string \<Rightarrow> string list option" where
  "ParseStringList s =
     (case SkipWs s of
        [] \<Rightarrow> None
      | c # r \<Rightarrow>
          if c \<noteq> CHR ''['' then None
          else
            let r' = SkipWs r
            in if r' \<noteq> [] \<and> hd r' = CHR '']'' then Some [] else list_items r')"

section \<open>The response\<close>

record CliResult =
  cli_output :: string
  exit_requested :: bool
  exit_code :: int

definition result_text :: "string \<Rightarrow> CliResult" where
  "result_text text = \<lparr>cli_output = text, exit_requested = False, exit_code = 0\<rparr>"

definition result_error :: "string \<Rightarrow> CliResult" where
  "result_error text = \<lparr>cli_output = text, exit_requested = False, exit_code = 1\<rparr>"

text \<open>The text after the first occurrence of a pattern.\<close>

definition after_pattern :: "string \<Rightarrow> string \<Rightarrow> string option" where
  "after_pattern pat json = map_option (\<lambda>p. drop (p + length pat) json) (str_find pat json 0)"

definition holds :: "string \<Rightarrow> string \<Rightarrow> bool" where
  "holds pat json \<longleftrightarrow> str_find pat json 0 \<noteq> None"

text \<open>The fields read with a default: 0 and the empty string.\<close>

definition number_field :: "string \<Rightarrow> string \<Rightarrow> i64 option" where
  "number_field name json =
     (case after_pattern (json_key name) json of
        None \<Rightarrow> Some 0
      | Some r \<Rightarrow> map_option (\<lambda>n. case n of None \<Rightarrow> 0 | Some n \<Rightarrow> n) (ParseNumber r))"

definition string_field :: "string \<Rightarrow> string \<Rightarrow> string" where
  "string_field name json =
     (case after_pattern (json_key name) json of None \<Rightarrow> [] | Some r \<Rightarrow> (case ParseJsonString r of (good, out, _) \<Rightarrow> out))"

text \<open>A block of the function: an overflow, a result, or nothing so that the next block is tried.\<close>

type_synonym block = "string \<Rightarrow> CliResult option option"

definition error_block :: block where
  "error_block json =
     (case Option.bind (after_pattern (json_key ''ok'') json) ParseBool of
        None \<Rightarrow> Some (Some (result_text json))
      | Some True \<Rightarrow> Some None
      | Some False \<Rightarrow>
          let error_message = string_field ''message'' json;
              error_code = string_field ''code'' json
          in Some (Some (result_error (''(error)'' @ (if error_code \<noteq> [] then '' '' @ error_code else [])
                  @ (if error_message \<noteq> [] then '': '' @ error_message else [])))))"

definition says_text :: "string \<Rightarrow> string \<Rightarrow> string \<Rightarrow> bool" where
  "says_text name value json \<longleftrightarrow> holds (json_key name @ value) json \<or> holds (json_key name @ '' '' @ value) json"

definition stored_block :: block where
  "stored_block json =
     (if says_text ''pong'' ''true'' json then Some (Some (result_text ''PONG''))
      else if says_text ''stored'' ''true'' json then Some (Some (result_text ''OK''))
      else if says_text ''stored'' ''false'' json then Some (Some (result_text ''(nil)''))
      else Some None)"

definition rate_block :: block where
  "rate_block json =
     (case after_pattern (json_key ''allowed'') json of
        None \<Rightarrow> Some None
      | Some r \<Rightarrow>
          do { remaining_val \<leftarrow> number_field ''remaining'' json;
               retry_val \<leftarrow> number_field ''retry_after_ms'' json;
               Some (Some (result_text (''allowed='' @ (if ParseBool r = Some True then ''1'' else ''0'')
                 @ '' remaining='' @ to_string_i64 remaining_val @ '' retry_after_ms='' @ to_string_i64 retry_val))) })"

definition reserve_block :: block where
  "reserve_block json =
     (if \<not> holds (json_key ''reserved'') json then Some None
      else do { rem \<leftarrow> number_field ''remaining'' json;
                Some (Some (result_text (''reserved=1 reservation_id='' @ QuoteJson (string_field ''reservation_id'' json)
                  @ '' remaining='' @ to_string_i64 rem))) })"

definition commit_block :: block where
  "commit_block json =
     (if \<not> holds (json_key ''committed'') json then Some None
      else do { act \<leftarrow> number_field ''actual_amount'' json;
                ref \<leftarrow> number_field ''refunded'' json;
                rem \<leftarrow> number_field ''remaining'' json;
                Some (Some (result_text (''committed=1 actual_amount='' @ to_string_i64 act @ '' refunded='' @ to_string_i64 ref
                  @ '' remaining='' @ to_string_i64 rem))) })"

definition rollback_block :: block where
  "rollback_block json =
     (if \<not> holds (json_key ''rolled_back'') json then Some None
      else do { ref \<leftarrow> number_field ''refunded'' json;
                rem \<leftarrow> number_field ''remaining'' json;
                Some (Some (result_text (''rolled_back=1 refunded='' @ to_string_i64 ref @ '' remaining='' @ to_string_i64 rem))) })"

definition bool_block :: "string \<Rightarrow> block" where
  "bool_block name json =
     Some (map_option (\<lambda>b. result_text (if b then ''(integer) 1'' else ''(integer) 0''))
       (Option.bind (after_pattern (json_key name) json) ParseBool))"

definition integer_block :: "string \<Rightarrow> block" where
  "integer_block name json =
     (case after_pattern (json_key name) json of
        None \<Rightarrow> Some None
      | Some r \<Rightarrow> map_option (map_option (\<lambda>n. result_text (''(integer) '' @ to_string_i64 n))) (ParseNumber r))"

text \<open>The number is read from where the reader of strings has left the position.\<close>

definition value_block :: block where
  "value_block json =
     (case after_pattern (json_key ''value'') json of
        None \<Rightarrow> Some None
      | Some r \<Rightarrow>
          (case ParseJsonString r of
             (good, value, r') \<Rightarrow>
               if good then Some (Some (result_text (QuoteJson value)))
               else map_option (map_option (\<lambda>num. result_text (''(integer) '' @ to_string_i64 num))) (ParseNumber r')))"

definition type_block :: block where
  "type_block json =
     (case after_pattern (json_key ''type'') json of
        None \<Rightarrow> Some None
      | Some r \<Rightarrow> (case ParseJsonString r of (good, type_val, _) \<Rightarrow> Some (if good then Some (result_text type_val) else None)))"

fun numbered :: "string \<Rightarrow> nat \<Rightarrow> string list \<Rightarrow> string" where
  "numbered sep i [] = []"
| "numbered sep i (key # keys) =
     (if i > 0 then sep else []) @ to_dec (i + 1) @ '') '' @ QuoteJson key @ numbered sep (Suc i) keys"

definition listed_keys :: "string \<Rightarrow> string list option" where
  "listed_keys json = Option.bind (after_pattern (json_key ''keys'') json) ParseStringList"

definition scan_block :: block where
  "scan_block json =
     (case after_pattern (json_key ''cursor'') json of
        None \<Rightarrow> Some None
      | Some r \<Rightarrow>
          do { next_cursor \<leftarrow> ParseNumber r;
               Some (case (next_cursor, listed_keys json) of
                       (Some n, Some keys) \<Rightarrow>
                         Some (result_text (''1) '' @ [CHR 0x22] @ to_string_i64 n @ [CHR 0x22] @ [CHR 0x0A] @ ''2) ''
                           @ (if keys = [] then ''(empty list or set)'' else numbered ([CHR 0x0A] @ ''   '') 0 keys)))
                     | _ \<Rightarrow> None) })"

definition keys_block :: block where
  "keys_block json =
     Some (map_option (\<lambda>keys. result_text (if keys = [] then ''(empty list or set)'' else numbered [CHR 0x0A] 0 keys))
       (listed_keys json))"

fun first_block :: "block list \<Rightarrow> string \<Rightarrow> CliResult option" where
  "first_block [] json = Some (result_text json)"
| "first_block (b # bs) json =
     (case b json of None \<Rightarrow> None | Some (Some r) \<Rightarrow> Some r | Some None \<Rightarrow> first_block bs json)"

definition FormatResponse :: "string \<Rightarrow> CliResult option" where
  "FormatResponse json =
     (if json = [] then Some (result_text [])
      else if hd json \<noteq> CHR ''{'' then Some (result_text json)
      else first_block
        ([error_block, stored_block, rate_block, reserve_block, commit_block, rollback_block]
         @ map bool_block [''set'', ''persisted'', ''initialized''] @ [value_block]
         @ map integer_block [''deleted'', ''count'', ''size'', ''ttl_seconds'', ''ttl_ms'', ''balance'']
         @ [type_block, scan_block, keys_block]) json)"

section \<open>What is shown\<close>

lemma FormatResponse_text: "text \<noteq> [] \<Longrightarrow> hd text \<noteq> CHR ''{'' \<Longrightarrow> FormatResponse text = Some (result_text text)"
  by (simp add: FormatResponse_def)

text \<open>The control characters that \<open>QuoteJson\<close> writes in hexadecimal.\<close>

definition hex_escaped :: "char \<Rightarrow> bool" where
  "hex_escaped c \<longleftrightarrow> byte_val c < 32 \<and> c \<notin> {CHR 0x08, CHR 0x09, CHR 0x0A, CHR 0x0C, CHR 0x0D}"

lemma string_chars_quoted:
  "list_all (\<lambda>c. \<not> hex_escaped c) s \<Longrightarrow> string_chars (concat (map quote_char s) @ CHR 0x22 # r) = (True, s, r)"
proof (induction s)
  case (Cons c s)
  then show ?case by (auto simp: quote_char_def unescape_def hex_escaped_def)
qed simp

lemma ParseJsonString_QuoteJson:
  "list_all (\<lambda>c. \<not> hex_escaped c) s \<Longrightarrow> ParseJsonString (QuoteJson s @ r) = (True, s, r)"
  by (simp add: ParseJsonString_def SkipWs_def QuoteJson_def string_chars_quoted)


lemma format_drops_control_escape:
  "FormatResponse (EncodeSuccessResponse ''1'' (''{'' @ json_key ''value'' @ QuoteJson [CHR 0x01] @ ''}''))
   = Some (result_text (QuoteJson ''u0001''))"
  by code_simp

end
