(* ===== verification/GK_Suggest.thy ===== *)
theory GK_Suggest
  imports GK_Prelude "HOL-Library.Char_ord" "HOL-Library.List_Lexorder" "HOL-Library.Product_Lexorder"
begin

text \<open>
  Suggestions for a mistyped command, \<open>src/cli/suggest.cpp\<close>. The table of distances is filled row by
  row; a row is a list that grows to the right. Strings are compared byte by byte, as
  \<open>std::string\<close> does.

  Shown: the table computes the least number of insertions, deletions, replacements and exchanges of
  neighbours that turn one string into the other; the suggestions are the closest names, closest first.
\<close>

section \<open>The distance\<close>

text \<open>The entry at row \<open>i\<close> and column \<open>j\<close>, both positive, from the rows above and the row so far.\<close>

definition table_cell :: "string \<Rightarrow> string \<Rightarrow> nat list list \<Rightarrow> nat list \<Rightarrow> nat \<Rightarrow> nat \<Rightarrow> nat" where
  "table_cell first second distance row i j =
     (let d = min (min (distance ! (i - 1) ! j + 1) (row ! (j - 1) + 1))
                  (distance ! (i - 1) ! (j - 1) + (if first ! (i - 1) \<noteq> second ! (j - 1) then 1 else 0))
      in if i > 1 \<and> j > 1 \<and> first ! (i - 1) = second ! (j - 2) \<and> first ! (i - 2) = second ! (j - 1)
         then min d (distance ! (i - 2) ! (j - 2) + 1) else d)"

definition fill_row :: "string \<Rightarrow> string \<Rightarrow> nat list list \<Rightarrow> nat \<Rightarrow> nat list" where
  "fill_row first second distance i =
     foldl (\<lambda>row j. row @ [table_cell first second distance row i j]) [i] [1..<length second + 1]"

definition fill_table :: "string \<Rightarrow> string \<Rightarrow> nat \<Rightarrow> nat list list" where
  "fill_table first second n =
     foldl (\<lambda>distance i. distance @ [fill_row first second distance i]) [[0..<length second + 1]] [1..<n + 1]"

definition EditDistance :: "string \<Rightarrow> string \<Rightarrow> nat" where
  "EditDistance first second = last (last (fill_table first second (length first)))"

definition Suggest :: "string \<Rightarrow> string list \<Rightarrow> string list" where
  "Suggest input names =
     (if input = [] \<or> length input > 64 then []
      else
        let threshold = (if length input \<le> 2 then 1 else 2);
            near = filter (\<lambda>name. \<not> (length name > 64 \<or> length name > length input + threshold
                                     \<or> length input > length name + threshold)) names;
            matches = filter (\<lambda>(d, name). d \<le> threshold) (map (\<lambda>name. (EditDistance input name, name)) near)
        in map snd (take 3 (sort matches)))"

section \<open>The least number of edits\<close>

text \<open>\<open>edits a b n\<close>: \<open>n\<close> edits turn \<open>a\<close> into \<open>b\<close>, no letter being edited twice.\<close>

inductive edits :: "string \<Rightarrow> string \<Rightarrow> nat \<Rightarrow> bool" where
  edits_nil: "edits [] [] 0"
| edits_keep: "edits a b n \<Longrightarrow> edits (a @ [x]) (b @ [x]) n"
| edits_delete: "edits a b n \<Longrightarrow> edits (a @ [x]) b (Suc n)"
| edits_insert: "edits a b n \<Longrightarrow> edits a (b @ [y]) (Suc n)"
| edits_replace: "edits a b n \<Longrightarrow> edits (a @ [x]) (b @ [y]) (Suc n)"
| edits_swap: "edits a b n \<Longrightarrow> edits (a @ [x, y]) (b @ [y, x]) (Suc n)"

text \<open>The recursion the table tabulates, on the lengths of the prefixes.\<close>

function dist :: "string \<Rightarrow> string \<Rightarrow> nat \<Rightarrow> nat \<Rightarrow> nat" where
  "dist a b i j =
     (if i = 0 then j else if j = 0 then i
      else
        let d = min (min (dist a b (i - 1) j + 1) (dist a b i (j - 1) + 1))
                    (dist a b (i - 1) (j - 1) + (if a ! (i - 1) \<noteq> b ! (j - 1) then 1 else 0))
        in if i > 1 \<and> j > 1 \<and> a ! (i - 1) = b ! (j - 2) \<and> a ! (i - 2) = b ! (j - 1)
           then min d (dist a b (i - 2) (j - 2) + 1) else d)"
  by pat_completeness auto
termination
  by (relation "measure (\<lambda>(a, b, i, j). i + j)") auto

declare dist.simps [simp del]

lemma dist_0 [simp]: "dist a b 0 j = j" "dist a b i 0 = i"
  by (simp_all add: dist.simps)

lemma fill_row_upto:
  assumes "distance = map (\<lambda>k. map (dist a b k) [0..<length b + 1]) [0..<i]" "0 < i" "m \<le> length b"
  shows "foldl (\<lambda>row j. row @ [table_cell a b distance row i j]) [i] [1..<m + 1] = map (dist a b i) [0..<m + 1]"
  using assms(3)
proof (induction m)
  case (Suc m)
  let ?row = "map (dist a b i) [0..<m + 1]"
  have at: "distance ! k ! l = dist a b k l" if "k < i" "l \<le> length b" for k l
    using that assms(1) by (simp add: nth_append del: upt_Suc)
  have "table_cell a b distance ?row i (Suc m) = dist a b i (Suc m)"
    using assms(2) Suc.prems at [of "i - 1" "Suc m"] at [of "i - 1" m] at [of "i - 2" "m - 1"]
    by (subst dist.simps) (simp add: table_cell_def Let_def del: upt_Suc)
  then show ?case using Suc by simp
qed simp

lemma fill_table_rows: "fill_table a b n = map (\<lambda>k. map (dist a b k) [0..<length b + 1]) [0..<n + 1]"
proof (induction n)
  case 0
  have "[0..<length b + 1] = map (dist a b 0) [0..<length b + 1]" by (simp add: map_idI del: upt_Suc)
  then show ?case by (simp add: fill_table_def)
next
  case (Suc n)
  then show ?case using fill_row_upto [of _ a b "Suc n" "length b"] by (simp add: fill_table_def fill_row_def)
qed

lemma EditDistance_dist: "EditDistance a b = dist a b (length a) (length b)"
  by (simp add: EditDistance_def fill_table_rows last_map)

lemma take_snoc:
  assumes "take i a = u @ [x]" "i \<le> length a"
  shows "0 < i \<and> take (i - 1) a = u \<and> a ! (i - 1) = x"
  using assms by (cases i) (auto simp: take_Suc_conv_app_nth)

lemma take_snoc2:
  assumes "take i a = u @ [x, y]" "i \<le> length a"
  shows "1 < i \<and> take (i - 2) a = u \<and> a ! (i - 2) = x \<and> a ! (i - 1) = y"
proof -
  have y: "0 < i" "take (i - 1) a = u @ [x]" "a ! (i - 1) = y" using take_snoc [of i a "u @ [x]" y] assms by auto
  then show ?thesis using take_snoc [OF y(2)] assms(2) by (auto simp: numeral_2_eq_2)
qed

text \<open>What the four-way minimum is, and what it is below.\<close>

definition least4 :: "nat \<Rightarrow> nat \<Rightarrow> nat \<Rightarrow> nat \<Rightarrow> bool \<Rightarrow> bool \<Rightarrow> nat" where
  "least4 x y z w differ swap =
     (let d = min (min (x + 1) (y + 1)) (z + (if differ then 1 else 0)) in if swap then min d (w + 1) else d)"

lemma least4_le:
  "least4 x y z w differ swap \<le> Suc x" "least4 x y z w differ swap \<le> Suc y"
  "least4 x y z w differ swap \<le> z + (if differ then 1 else 0)" "swap \<Longrightarrow> least4 x y z w differ swap \<le> Suc w"
  by (auto simp: least4_def Let_def)

lemma least4_cases:
  "least4 x y z w differ swap = Suc x \<or> least4 x y z w differ swap = Suc y
   \<or> differ \<and> least4 x y z w differ swap = Suc z \<or> \<not> differ \<and> least4 x y z w differ swap = z
   \<or> swap \<and> least4 x y z w differ swap = Suc w"
  by (auto simp: least4_def Let_def min_def)

lemma dist_least4:
  "0 < i \<Longrightarrow> 0 < j \<Longrightarrow> dist a b i j =
     least4 (dist a b (i - 1) j) (dist a b i (j - 1)) (dist a b (i - 1) (j - 1)) (dist a b (i - 2) (j - 2))
       (a ! (i - 1) \<noteq> b ! (j - 1)) (i > 1 \<and> j > 1 \<and> a ! (i - 1) = b ! (j - 2) \<and> a ! (i - 2) = b ! (j - 1))"
  by (subst dist.simps) (simp add: least4_def)

lemma dist_le:
  assumes "0 < i" "0 < j"
  shows "dist a b i j \<le> dist a b (i - 1) j + 1" and "dist a b i j \<le> dist a b i (j - 1) + 1"
    and "dist a b i j \<le> dist a b (i - 1) (j - 1) + (if a ! (i - 1) \<noteq> b ! (j - 1) then 1 else 0)"
    and "1 < i \<Longrightarrow> 1 < j \<Longrightarrow> a ! (i - 1) = b ! (j - 2) \<Longrightarrow> a ! (i - 2) = b ! (j - 1) \<Longrightarrow>
         dist a b i j \<le> dist a b (i - 2) (j - 2) + 1"
  unfolding dist_least4 [OF assms] Suc_eq_plus1 [symmetric] by (blast intro: least4_le)+

lemma dist_step: "dist a b i j \<le> dist a b (i - 1) j + 1" "dist a b i j \<le> dist a b i (j - 1) + 1"
  using dist_le(1,2) [of i j a b] by (cases "i = 0"; cases "j = 0"; simp)+

lemma dist_least:
  "edits u v n \<Longrightarrow> u = take i a \<Longrightarrow> v = take j b \<Longrightarrow> i \<le> length a \<Longrightarrow> j \<le> length b \<Longrightarrow> dist a b i j \<le> n"
proof (induction arbitrary: i j rule: edits.induct)
  case (edits_keep u v n x)
  then show ?case
    using take_snoc [of i a u x] take_snoc [of j b v x] edits_keep.IH [of "i - 1" "j - 1"] dist_le(3) [of i j a b] by force
next
  case (edits_delete u v n x)
  then show ?case
    using take_snoc [of i a u x] edits_delete.IH [of "i - 1" j] dist_step(1) [of a b i j] by force
next
  case (edits_insert u v n y)
  then show ?case
    using take_snoc [of j b v y] edits_insert.IH [of i "j - 1"] dist_step(2) [of a b i j] by force
next
  case (edits_replace u v n x y)
  then show ?case
    using take_snoc [of i a u x] take_snoc [of j b v y] edits_replace.IH [of "i - 1" "j - 1"] dist_le(3) [of i j a b]
    by (force split: if_splits)
next
  case (edits_swap u v n x y)
  then show ?case
    using take_snoc2 [of i a u x y] take_snoc2 [of j b v y x] edits_swap.IH [of "i - 2" "j - 2"] dist_le(4) [of i j a b]
    by force
qed auto

lemma edits_delete_all: "edits a [] (length a)"
  by (induction a rule: rev_induct) (auto intro: edits.intros)

lemma edits_insert_all: "edits [] b (length b)"
  by (induction b rule: rev_induct) (auto intro: edits.intros)

lemma take_last: "0 < i \<Longrightarrow> i \<le> length a \<Longrightarrow> take i a = take (i - 1) a @ [a ! (i - 1)]"
  by (cases i) (auto simp: take_Suc_conv_app_nth)

lemma take_last2: "1 < i \<Longrightarrow> i \<le> length a \<Longrightarrow> take i a = take (i - 2) a @ [a ! (i - 2), a ! (i - 1)]"
  using take_last [of i a] take_last [of "i - 1" a] by (simp add: numeral_2_eq_2)

lemma dist_cases:
  assumes "0 < i" "0 < j"
  obtains "dist a b i j = Suc (dist a b (i - 1) j)" | "dist a b i j = Suc (dist a b i (j - 1))"
  | "a ! (i - 1) \<noteq> b ! (j - 1)" "dist a b i j = Suc (dist a b (i - 1) (j - 1))"
  | "a ! (i - 1) = b ! (j - 1)" "dist a b i j = dist a b (i - 1) (j - 1)"
  | "1 < i" "1 < j" "a ! (i - 1) = b ! (j - 2)" "a ! (i - 2) = b ! (j - 1)" "dist a b i j = Suc (dist a b (i - 2) (j - 2))"
  using that least4_cases [of "dist a b (i - 1) j" "dist a b i (j - 1)" "dist a b (i - 1) (j - 1)"
      "dist a b (i - 2) (j - 2)" "a ! (i - 1) \<noteq> b ! (j - 1)"
      "i > 1 \<and> j > 1 \<and> a ! (i - 1) = b ! (j - 2) \<and> a ! (i - 2) = b ! (j - 1)", folded dist_least4 [OF assms]]
  by blast

lemma dist_edits: "i \<le> length a \<Longrightarrow> j \<le> length b \<Longrightarrow> edits (take i a) (take j b) (dist a b i j)"
proof (induction a b i j rule: dist.induct)
  case (1 a b i j)
  show ?case
  proof (cases "i = 0 \<or> j = 0")
    case False
    then have ij: "0 < i" "0 < j" by auto
    note t = take_last [OF ij(1) "1.prems"(1)] take_last [OF ij(2) "1.prems"(2)]
    from ij show ?thesis
    proof (cases rule: dist_cases [of i j a b])
      case 5
      have "edits (take (i - 2) a) (take (j - 2) b) (dist a b (i - 2) (j - 2))" using "1.IH"(4) False 5 "1.prems" by auto
      from edits_swap [OF this, of "a ! (i - 2)" "a ! (i - 1)"] show ?thesis
        using take_last2 [OF 5(1) "1.prems"(1)] take_last2 [OF 5(2) "1.prems"(2)] 5 by simp
    qed (use "1.IH"(1,2,3) False "1.prems" t in \<open>auto intro: edits_keep edits_delete edits_insert edits_replace\<close>)
  qed (use "1.prems" edits_delete_all [of "take i a"] edits_insert_all [of "take j b"] in auto)
qed

text \<open>C29: The distance between two words is the least number of edits. Among all ways to turn one word
  into the other by insertions, deletions, replacements and exchanges of neighbouring letters that edit no
  letter twice, the table of \<open>EditDistance\<close> finds the number of edits of a cheapest one.\<close>

theorem EditDistance_is_least: "EditDistance a b = (LEAST n. edits a b n)"
proof (rule Least_equality [symmetric])
  show "edits a b (EditDistance a b)" using dist_edits [of "length a" a "length b" b] by (simp add: EditDistance_dist)
  show "EditDistance a b \<le> n" if "edits a b n" for n
    using dist_least [OF that, of "length a" a "length b" b] by (simp add: EditDistance_dist)
qed

section \<open>The suggestions\<close>

lemma edits_length: "edits a b n \<Longrightarrow> length a \<le> length b + n \<and> length b \<le> length a + n"
  by (induction rule: edits.induct) auto

lemma EditDistance_length: "length a \<le> length b + EditDistance a b \<and> length b \<le> length a + EditDistance a b"
  using edits_length [OF dist_edits [of "length a" a "length b" b]] by (simp add: EditDistance_dist)

definition allowed_edits :: "string \<Rightarrow> nat" where
  "allowed_edits input = (if length input \<le> 2 then 1 else 2)"

definition ranked :: "string \<Rightarrow> string \<Rightarrow> nat \<times> string" where
  "ranked input name = (EditDistance input name, name)"

text \<open>The test on the lengths drops nothing that the test on the distance would keep.\<close>

lemma Suggest_sorted:
  assumes "input \<noteq> []" "length input \<le> 64" "list_all (\<lambda>name. length name \<le> 64) names"
  shows "map (ranked input) (Suggest input names)
    = take 3 (sort (filter (\<lambda>r. fst r \<le> allowed_edits input) (map (ranked input) names)))"
proof -
  let ?th = "allowed_edits input"
  have near: "\<not> (length name > 64 \<or> length name > length input + ?th \<or> length input > length name + ?th)"
    if "name \<in> set names" "EditDistance input name \<le> ?th" for name
    using that assms(3) EditDistance_length [of input name] by (auto simp: list_all_iff)
  have "filter (\<lambda>name. \<not> (length name > 64 \<or> length name > length input + ?th \<or> length input > length name + ?th)
      \<and> EditDistance input name \<le> ?th) names = filter (\<lambda>name. EditDistance input name \<le> ?th) names"
    by (rule filter_cong) (use near in blast)+
  then have "filter (\<lambda>(d, name). d \<le> ?th) (map (\<lambda>name. (EditDistance input name, name))
      (filter (\<lambda>name. \<not> (length name > 64 \<or> length name > length input + ?th \<or> length input > length name + ?th)) names))
    = filter (\<lambda>r. fst r \<le> ?th) (map (ranked input) names)"
    by (simp add: filter_map filter_filter comp_def ranked_def [abs_def])
  then have s: "Suggest input names = map snd (take 3 (sort (filter (\<lambda>r. fst r \<le> ?th) (map (ranked input) names))))"
    using assms(1,2) by (simp add: Suggest_def allowed_edits_def Let_def)
  have "r = ranked input (snd r)" if "r \<in> set (take 3 (sort (filter (\<lambda>r. fst r \<le> ?th) (map (ranked input) names))))" for r
    using in_set_takeD [OF that] by (auto simp: ranked_def)
  then show ?thesis unfolding s by (simp add: map_idI)
qed

lemma sorted_take_rest:
  assumes "sorted xs" "y \<in> set xs" "y \<notin> set (take k xs)" "x \<in> set (take k xs)"
  shows "x \<le> y" and "length (take k xs) = k"
proof -
  have y: "y \<in> set (drop k xs)" using assms(2,3) by (metis Un_iff append_take_drop_id set_append)
  have "sorted (take k xs @ drop k xs)" using assms(1) by simp
  then show "x \<le> y" using y assms(4) unfolding sorted_append by blast
  show "length (take k xs) = k" using y by (cases "length xs \<le> k") auto
qed



end
