(* ===== verification/GK_Registry.thy ===== *)
theory GK_Registry
  imports GK_Client GK_Format GK_Suggest
begin

text \<open>
  The commands of the command-line tool, \<open>src/cli/registry.cpp\<close>, and the loop that reads them,
  \<open>src/cli/app.cpp\<close>. A handler answers by itself or makes one request of the executor it is given, the
  client; its table of commands is a \<open>std::map\<close>, a list sorted by name. Words are read as
  \<open>std::quoted\<close> reads them.

  Shown: a command typed in the tool runs the store operation it names with the words that were typed
  as its arguments, as far as the body it builds and the reader of the client agree; and where they do not.
\<close>

section \<open>Handlers\<close>

text \<open>What a handler does: a result of its own, or a request for an operation with a body.\<close>

datatype cli_step = Local CliResult | Remote string string

type_synonym arguments = "string list"

type_synonym cli_handler = "(string \<times> string) list \<Rightarrow> arguments \<Rightarrow> cli_step"

definition invalid :: "string \<Rightarrow> cli_step" where
  "invalid usage = Local (result_error (''INVALID_ARGUMENTS: '' @ usage))"

definition WithoutArguments :: "cli_handler \<Rightarrow> cli_handler" where
  "WithoutArguments handler commands args =
     (if args \<noteq> [] then invalid ''command takes no arguments'' else handler commands args)"

definition cli_Quit :: cli_handler where
  "cli_Quit commands args = Local \<lparr>cli_output = [], exit_requested = True, exit_code = 0\<rparr>"

text \<open>The bodies: a field with a string and a field with the text of an argument.\<close>

definition quoted_field :: "string \<Rightarrow> string \<Rightarrow> string" where
  "quoted_field name value = json_key name @ QuoteJson value"

definition raw_field :: "string \<Rightarrow> string \<Rightarrow> string" where
  "raw_field name value = json_key name @ value"

text \<open>The commands that take one key: \<open>GET\<close>, \<open>INCR\<close>, \<open>DECR\<close>, \<open>GK.QUOTA_GET\<close>, \<open>GK.IDEM_GET\<close>, \<open>TYPE\<close>,
  \<open>TTL\<close>, \<open>PTTL\<close> and \<open>PERSIST\<close>.\<close>

definition cli_key_command :: "string \<Rightarrow> arguments \<Rightarrow> cli_step" where
  "cli_key_command name args =
     (if length args \<noteq> 1 \<or> args ! 0 = [] then invalid (name @ '' key'')
      else Remote name (''{'' @ quoted_field ''key'' (args ! 0) @ ''}''))"

definition set_usage :: string where
  "set_usage = ''SET key value [NX|XX] [EX seconds|PX milliseconds]''"

fun set_options :: "bool \<Rightarrow> bool \<Rightarrow> arguments \<Rightarrow> string \<Rightarrow> cli_step" where
  "set_options has_cond has_ttl [] body = Remote ''SET'' (body @ ''}'')"
| "set_options has_cond has_ttl (a # rest) body =
     (let flag = NormalizeName a
      in if (flag = ''NX'' \<or> flag = ''XX'') \<and> \<not> has_cond
         then set_options True has_ttl rest
                (body @ '','' @ raw_field (if flag = ''NX'' then ''if_not_exists'' else ''if_exists'') ''true'')
         else if flag = ''EX'' \<and> rest \<noteq> [] \<and> \<not> has_ttl
         then (case stoull (hd rest) of
                 None \<Rightarrow> invalid ''invalid EX value''
               | Some (sec, _) \<Rightarrow>
                   set_options has_cond True (tl rest) (body @ '','' @ raw_field ''ttl_ms'' (to_string_u64 (sec * 1000))))
         else if flag = ''PX'' \<and> rest \<noteq> [] \<and> \<not> has_ttl
         then (case stoull (hd rest) of
                 None \<Rightarrow> invalid ''invalid PX value''
               | Some (ms, _) \<Rightarrow>
                   set_options has_cond True (tl rest) (body @ '','' @ raw_field ''ttl_ms'' (to_string_u64 ms)))
         else invalid ''syntax error in SET'')"

definition cli_Set :: "arguments \<Rightarrow> cli_step" where
  "cli_Set args =
     (if length args < 2 \<or> args ! 0 = [] then invalid set_usage
      else set_options False False (drop 2 args)
             (''{'' @ quoted_field ''key'' (args ! 0) @ '','' @ quoted_field ''value'' (args ! 1)))"

definition cli_IncrBy :: "arguments \<Rightarrow> cli_step" where
  "cli_IncrBy args =
     (if length args < 2 \<or> args ! 0 = [] \<or> args ! 1 = []
      then invalid ''INCRBY key delta [EX seconds|PX milliseconds]''
      else Remote ''INCRBY''
             (''{'' @ quoted_field ''key'' (args ! 0) @ '','' @ raw_field ''delta'' (args ! 1)
              @ (if length args \<ge> 4
                 then let flag = NormalizeName (args ! 2)
                      in if flag = ''EX'' then '','' @ raw_field ''ttl_seconds'' (args ! 3)
                         else if flag = ''PX'' then '','' @ raw_field ''ttl_ms'' (args ! 3) else []
                 else [])
              @ ''}''))"

definition cli_RateLimit :: "arguments \<Rightarrow> cli_step" where
  "cli_RateLimit args =
     (if length args \<noteq> 3 \<or> args ! 0 = [] \<or> args ! 1 = [] \<or> args ! 2 = []
      then invalid ''GK.RATE_LIMIT key limit window_ms''
      else Remote ''GK.RATE_LIMIT''
             (''{'' @ quoted_field ''key'' (args ! 0) @ '','' @ raw_field ''limit'' (args ! 1) @ '',''
              @ raw_field ''window_ms'' (args ! 2) @ ''}''))"

definition cli_Reserve :: "arguments \<Rightarrow> cli_step" where
  "cli_Reserve args =
     (if length args \<noteq> 3 \<or> args ! 0 = [] \<or> args ! 1 = [] \<or> args ! 2 = []
      then invalid ''GK.RESERVE key amount ttl_ms''
      else Remote ''GK.RESERVE''
             (''{'' @ quoted_field ''key'' (args ! 0) @ '','' @ raw_field ''amount'' (args ! 1) @ '',''
              @ raw_field ''ttl_ms'' (args ! 2) @ ''}''))"

definition cli_Commit :: "arguments \<Rightarrow> cli_step" where
  "cli_Commit args =
     (if length args \<noteq> 3 \<or> args ! 0 = [] \<or> args ! 1 = [] \<or> args ! 2 = []
      then invalid ''GK.COMMIT key reservation_id actual_amount''
      else Remote ''GK.COMMIT''
             (''{'' @ quoted_field ''key'' (args ! 0) @ '','' @ quoted_field ''reservation_id'' (args ! 1) @ '',''
              @ raw_field ''actual_amount'' (args ! 2) @ ''}''))"

definition cli_Rollback :: "arguments \<Rightarrow> cli_step" where
  "cli_Rollback args =
     (if length args \<noteq> 2 \<or> args ! 0 = [] \<or> args ! 1 = []
      then invalid ''GK.ROLLBACK key reservation_id''
      else Remote ''GK.ROLLBACK''
             (''{'' @ quoted_field ''key'' (args ! 0) @ '','' @ quoted_field ''reservation_id'' (args ! 1) @ ''}''))"

definition cli_QuotaInit :: "arguments \<Rightarrow> cli_step" where
  "cli_QuotaInit args =
     (if length args \<noteq> 2 \<or> args ! 0 = [] \<or> args ! 1 = []
      then invalid ''GK.QUOTA_INIT key amount''
      else Remote ''GK.QUOTA_INIT''
             (''{'' @ quoted_field ''key'' (args ! 0) @ '','' @ raw_field ''amount'' (args ! 1) @ ''}''))"

definition cli_IdemBegin :: "arguments \<Rightarrow> cli_step" where
  "cli_IdemBegin args =
     (if length args < 2 \<or> args ! 0 = [] \<or> args ! 1 = []
      then invalid ''GK.IDEM_BEGIN key request_hash [ttl_ms] [owner_token]''
      else Remote ''GK.IDEM_BEGIN''
             (''{'' @ quoted_field ''key'' (args ! 0) @ '','' @ quoted_field ''request_hash'' (args ! 1)
              @ (if length args \<ge> 3 \<and> args ! 2 \<noteq> [] then '','' @ raw_field ''ttl_ms'' (args ! 2) else [])
              @ (if length args \<ge> 4 \<and> args ! 3 \<noteq> [] then '','' @ quoted_field ''owner_token'' (args ! 3) else [])
              @ ''}''))"

definition cli_IdemComplete :: "arguments \<Rightarrow> cli_step" where
  "cli_IdemComplete args =
     (if length args < 3 \<or> args ! 0 = [] \<or> args ! 1 = [] \<or> args ! 2 = []
      then invalid ''GK.IDEM_COMPLETE key owner_token response_code [response_body]''
      else Remote ''GK.IDEM_COMPLETE''
             (''{'' @ quoted_field ''key'' (args ! 0) @ '','' @ quoted_field ''owner_token'' (args ! 1) @ '',''
              @ raw_field ''response_code'' (args ! 2)
              @ (if length args \<ge> 4 then '','' @ quoted_field ''response_body'' (args ! 3) else [])
              @ ''}''))"

definition cli_IdemFail :: "arguments \<Rightarrow> cli_step" where
  "cli_IdemFail args =
     (if length args < 2 \<or> args ! 0 = [] \<or> args ! 1 = []
      then invalid ''GK.IDEM_FAIL key owner_token [error_message]''
      else Remote ''GK.IDEM_FAIL''
             (''{'' @ quoted_field ''key'' (args ! 0) @ '','' @ quoted_field ''owner_token'' (args ! 1)
              @ (if length args \<ge> 3 then '','' @ quoted_field ''error_message'' (args ! 2) else [])
              @ ''}''))"

text \<open>\<open>DEL\<close> and \<open>EXISTS\<close>: all the keys in one array.\<close>

fun comma_list :: "string list \<Rightarrow> string" where
  "comma_list [] = []"
| "comma_list [x] = x"
| "comma_list (x # xs) = x @ '','' @ comma_list xs"

definition cli_keys_command :: "string \<Rightarrow> arguments \<Rightarrow> cli_step" where
  "cli_keys_command name args =
     (if args = [] then invalid (name @ '' key [key ...]'')
      else Remote name (''{'' @ json_key ''keys'' @ ''['' @ comma_list (map QuoteJson args) @ '']}''))"

definition cli_Keys :: "arguments \<Rightarrow> cli_step" where
  "cli_Keys args =
     (if length args > 1 then invalid ''KEYS [pattern]''
      else Remote ''KEYS'' (''{'' @ quoted_field ''pattern'' (if args = [] then ''*'' else args ! 0) @ ''}''))"

definition cli_Scan :: "arguments \<Rightarrow> cli_step" where
  "cli_Scan args =
     (if length args > 2 then invalid ''SCAN [cursor] [count]''
      else Remote ''SCAN''
             (''{'' @ raw_field ''cursor'' (if args = [] then ''0'' else args ! 0) @ '',''
              @ raw_field ''count'' (if length args > 1 then args ! 1 else ''10'') @ ''}''))"

definition cli_Expire :: "arguments \<Rightarrow> cli_step" where
  "cli_Expire args =
     (if length args \<noteq> 2 \<or> args ! 0 = [] \<or> args ! 1 = [] then invalid ''EXPIRE key seconds''
      else Remote ''EXPIRE''
             (''{'' @ quoted_field ''key'' (args ! 0) @ '','' @ raw_field ''ttl_seconds'' (args ! 1) @ ''}''))"

definition cli_PExpire :: "arguments \<Rightarrow> cli_step" where
  "cli_PExpire args =
     (if length args \<noteq> 2 \<or> args ! 0 = [] \<or> args ! 1 = [] then invalid ''PEXPIRE key milliseconds''
      else Remote ''PEXPIRE''
             (''{'' @ quoted_field ''key'' (args ! 0) @ '','' @ raw_field ''ttl_ms'' (args ! 1) @ ''}''))"

section \<open>The help text\<close>

definition help_groups :: "(string \<times> (string \<times> string) list) list" where
  "help_groups =
     [(''Server & Session'',
       [(''PING'', ''Check server availability''),
        (''HELP'', ''Show available commands''),
        (''QUIT'', ''Close the CLI''),
        (''EXIT'', ''Alias for QUIT'')]),
      (''String Operations'',
       [(''GET'', ''GET key''),
        (''SET'', ''SET key value [NX|XX] [EX seconds|PX milliseconds]'')]),
      (''Rate Limiting & Counters'',
       [(''INCR'', ''INCR key''),
        (''DECR'', ''DECR key''),
        (''INCRBY'', ''INCRBY key delta [EX seconds|PX milliseconds]''),
        (''GK.RATE_LIMIT'', ''GK.RATE_LIMIT key limit window_ms'')]),
      (''Two-Phase Quota Reservation'',
       [(''GK.RESERVE'', ''GK.RESERVE key amount ttl_ms''),
        (''GK.COMMIT'', ''GK.COMMIT key reservation_id actual_amount''),
        (''GK.ROLLBACK'', ''GK.ROLLBACK key reservation_id''),
        (''GK.QUOTA_INIT'', ''GK.QUOTA_INIT key amount''),
        (''GK.QUOTA_GET'', ''GK.QUOTA_GET key'')]),
      (''Idempotency & Single-Flight'',
       [(''GK.IDEM_BEGIN'', ''GK.IDEM_BEGIN key request_hash [ttl_ms] [owner_token]''),
        (''GK.IDEM_COMPLETE'', ''GK.IDEM_COMPLETE key owner_token response_code [response_body]''),
        (''GK.IDEM_FAIL'', ''GK.IDEM_FAIL key owner_token [error_message]''),
        (''GK.IDEM_GET'', ''GK.IDEM_GET key'')]),
      (''Key Management'',
       [(''DEL'', ''DEL key [key ...]''),
        (''EXISTS'', ''EXISTS key [key ...]''),
        (''TYPE'', ''TYPE key''),
        (''DBSIZE'', ''Return total count of keys in database''),
        (''KEYS'', ''KEYS [pattern]''),
        (''SCAN'', ''SCAN [cursor] [count]'')]),
      (''Expiration & TTL'',
       [(''EXPIRE'', ''EXPIRE key seconds''),
        (''PEXPIRE'', ''PEXPIRE key milliseconds''),
        (''TTL'', ''TTL key''),
        (''PTTL'', ''PTTL key''),
        (''PERSIST'', ''PERSIST key'')])]"

definition BuildHelpOutput :: "(string \<times> string) list \<Rightarrow> string" where
  "BuildHelpOutput commands =
     (let recognized = concat (map (\<lambda>(title, items). map fst items) help_groups);
          custom_items = filter (\<lambda>(name, desc). name \<notin> set recognized) commands;
          groups = help_groups @ (if custom_items \<noteq> [] then [(''Extensions'', custom_items)] else []);
          line = (\<lambda>(name, desc). ''  '' @ name @ '' - '' @ desc @ [CHR 0x0A]);
          group = (\<lambda>(title, items). ''['' @ title @ '']'' @ [CHR 0x0A] @ concat (map line items));
          out = hd (map group groups) @ concat (map (\<lambda>g. [CHR 0x0A] @ group g) (tl groups))
      in if out \<noteq> [] \<and> last out = CHR 0x0A then butlast out else out)"

section \<open>The table\<close>

type_synonym registry = "(string \<times> string \<times> cli_handler) list"

text \<open>\<open>None\<close> for the exception of an invalid or repeated registration.\<close>

definition Registry_Register :: "string \<Rightarrow> string \<Rightarrow> cli_handler \<Rightarrow> registry \<Rightarrow> registry option" where
  "Registry_Register name description handler commands =
     (let name = NormalizeName name
      in if name = [] \<or> name \<in> fst ` set commands then None
         else Some (insort_key fst (name, description, handler) commands))"

definition cli_registrations :: registry where
  "cli_registrations =
     [(''PING'', ''Check server availability'', WithoutArguments (\<lambda>_ _. Remote ''PING'' ''{}'')),
      (''GET'', ''GET key'', \<lambda>_. cli_key_command ''GET''),
      (''SET'', ''SET key value [NX|XX] [EX seconds|PX milliseconds]'', \<lambda>_. cli_Set),
      (''INCR'', ''INCR key'', \<lambda>_. cli_key_command ''INCR''),
      (''DECR'', ''DECR key'', \<lambda>_. cli_key_command ''DECR''),
      (''INCRBY'', ''INCRBY key delta [EX seconds|PX milliseconds]'', \<lambda>_. cli_IncrBy),
      (''GK.RATE_LIMIT'', ''GK.RATE_LIMIT key limit window_ms'', \<lambda>_. cli_RateLimit),
      (''GK.RESERVE'', ''GK.RESERVE key amount ttl_ms'', \<lambda>_. cli_Reserve),
      (''GK.COMMIT'', ''GK.COMMIT key reservation_id actual_amount'', \<lambda>_. cli_Commit),
      (''GK.ROLLBACK'', ''GK.ROLLBACK key reservation_id'', \<lambda>_. cli_Rollback),
      (''GK.QUOTA_INIT'', ''GK.QUOTA_INIT key amount'', \<lambda>_. cli_QuotaInit),
      (''GK.QUOTA_GET'', ''GK.QUOTA_GET key'', \<lambda>_. cli_key_command ''GK.QUOTA_GET''),
      (''GK.IDEM_BEGIN'', ''GK.IDEM_BEGIN key request_hash [ttl_ms] [owner_token]'', \<lambda>_. cli_IdemBegin),
      (''GK.IDEM_COMPLETE'', ''GK.IDEM_COMPLETE key owner_token response_code [response_body]'', \<lambda>_. cli_IdemComplete),
      (''GK.IDEM_FAIL'', ''GK.IDEM_FAIL key owner_token [error_message]'', \<lambda>_. cli_IdemFail),
      (''GK.IDEM_GET'', ''GK.IDEM_GET key'', \<lambda>_. cli_key_command ''GK.IDEM_GET''),
      (''DEL'', ''DEL key [key ...]'', \<lambda>_. cli_keys_command ''DEL''),
      (''EXISTS'', ''EXISTS key [key ...]'', \<lambda>_. cli_keys_command ''EXISTS''),
      (''TYPE'', ''TYPE key'', \<lambda>_. cli_key_command ''TYPE''),
      (''DBSIZE'', ''DBSIZE'', WithoutArguments (\<lambda>_ _. Remote ''DBSIZE'' ''{}'')),
      (''KEYS'', ''KEYS [pattern]'', \<lambda>_. cli_Keys),
      (''SCAN'', ''SCAN [cursor] [count]'', \<lambda>_. cli_Scan),
      (''EXPIRE'', ''EXPIRE key seconds'', \<lambda>_. cli_Expire),
      (''PEXPIRE'', ''PEXPIRE key milliseconds'', \<lambda>_. cli_PExpire),
      (''TTL'', ''TTL key'', \<lambda>_. cli_key_command ''TTL''),
      (''PTTL'', ''PTTL key'', \<lambda>_. cli_key_command ''PTTL''),
      (''PERSIST'', ''PERSIST key'', \<lambda>_. cli_key_command ''PERSIST''),
      (''HELP'', ''Show available commands'', WithoutArguments (\<lambda>commands _. Local (result_text (BuildHelpOutput commands)))),
      (''QUIT'', ''Close the CLI'', WithoutArguments cli_Quit),
      (''EXIT'', ''Alias for QUIT'', WithoutArguments cli_Quit)]"

definition new_Registry :: "registry option" where
  "new_Registry = fold (\<lambda>(name, description, handler) r. Option.bind r (Registry_Register name description handler))
     cli_registrations (Some [])"

definition descriptions :: "registry \<Rightarrow> (string \<times> string) list" where
  "descriptions commands = map (\<lambda>(name, description, handler). (name, description)) commands"

section \<open>A command line\<close>

text \<open>After an opening quote: up to the next quote that is not escaped. \<open>None\<close> when there is none.\<close>

fun quoted_word :: "string \<Rightarrow> (string \<times> string) option" where
  "quoted_word [] = None"
| "quoted_word (c # s) =
     (if c = CHR 0x5C
      then (case s of [] \<Rightarrow> None | e # s' \<Rightarrow> map_option (apfst ((#) e)) (quoted_word s'))
      else if c = CHR 0x22 then Some ([], s)
      else map_option (apfst ((#) c)) (quoted_word s))"

definition read_word :: "string \<Rightarrow> (string \<times> string) option" where
  "read_word s =
     (if s \<noteq> [] \<and> hd s = CHR 0x22 then quoted_word (tl s)
      else Some (takeWhile (\<lambda>c. \<not> isspace c) s, dropWhile (\<lambda>c. \<not> isspace c) s))"

lemma quoted_word_length: "quoted_word s = Some (w, r) \<Longrightarrow> length r < length s"
  by (induction s arbitrary: w rule: quoted_word.induct) (fastforce split: if_splits list.splits intro: less_SucI)+

lemma read_word_length: "read_word (c # s) = Some (w, r) \<Longrightarrow> \<not> isspace c \<Longrightarrow> length r < length (c # s)"
  using length_dropWhile_le [of "\<lambda>c. \<not> isspace c" s]
  by (auto simp: read_word_def split: if_splits dest!: quoted_word_length)

function read_arguments :: "string \<Rightarrow> string + arguments" where
  "read_arguments s =
     (case dropWhile isspace s of
        [] \<Rightarrow> Inr []
      | c # t \<Rightarrow>
          (case read_word (c # t) of
             None \<Rightarrow> Inl ''INVALID_ARGUMENTS: unterminated quoted argument''
           | Some (argument, r) \<Rightarrow>
               if r \<noteq> [] \<and> \<not> isspace (hd r) then Inl ''INVALID_ARGUMENTS: expected whitespace after argument''
               else map_sum id ((#) argument) (read_arguments r)))"
  by pat_completeness auto
termination
proof (relation "measure length", simp, goal_cases)
  case (1 s c t x w r)
  have "\<not> isspace c" using hd_dropWhile [of isspace s] 1(1) by auto
  then have "length r < length (c # t)" using read_word_length 1 by blast
  moreover have "length (c # t) \<le> length s" using length_dropWhile_le [of isspace s] 1(1) by metis
  ultimately show ?case by simp
qed

declare read_arguments.simps [simp del]

text \<open>The executor the registry is given: the text of the response, or the text of an exception, which
  \<open>Execute\<close> turns into a result.\<close>

type_synonym 'c executor = "string \<Rightarrow> string \<Rightarrow> 'c \<Rightarrow> (string + string) \<times> 'c"

definition run_step :: "'c executor \<Rightarrow> cli_step \<Rightarrow> 'c \<Rightarrow> CliResult option \<times> 'c" where
  "run_step execute_remote step c =
     (case step of
        Local r \<Rightarrow> (Some r, c)
      | Remote operation body \<Rightarrow>
          (case execute_remote operation body c of
             (Inl e, c') \<Rightarrow> (Some (result_error e), c')
           | (Inr response, c') \<Rightarrow> (FormatResponse response, c')))"

definition unknown_command :: "registry \<Rightarrow> string \<Rightarrow> CliResult" where
  "unknown_command commands name =
     (let suggestions = Suggest name (map fst commands)
      in result_error (''UNKNOWN_COMMAND: unsupported command: '' @ name
           @ (if suggestions \<noteq> []
              then [CHR 0x0A] @ ''Did you mean: '' @ hd suggestions @ concat (map (\<lambda>x. '', '' @ x) (tl suggestions)) @ ''?''
              else [])
           @ [CHR 0x0A] @ ''Type HELP to list available commands.''))"

text \<open>What a line asks for.\<close>

definition line_step :: "registry \<Rightarrow> string \<Rightarrow> cli_step" where
  "line_step commands input =
     (let s = dropWhile isspace input;
          name = takeWhile (\<lambda>c. \<not> isspace c) s
      in if name = [] then Local (result_text [])
         else case map_of commands (NormalizeName name) of
                None \<Rightarrow> Local (unknown_command commands (NormalizeName name))
              | Some (description, handler) \<Rightarrow>
                  (case read_arguments (dropWhile (\<lambda>c. \<not> isspace c) s) of
                     Inl e \<Rightarrow> Local (result_error e)
                   | Inr args \<Rightarrow> handler (descriptions commands) args))"

definition Registry_Execute :: "registry \<Rightarrow> 'c executor \<Rightarrow> string \<Rightarrow> 'c \<Rightarrow> CliResult option \<times> 'c" where
  "Registry_Execute commands execute_remote input c = run_step execute_remote (line_step commands input) c"

section \<open>The application\<close>

text \<open>The text printed and the exit status; \<open>None\<close> after an overflow in the formatter.\<close>

definition RunCommand :: "registry \<Rightarrow> 'c executor \<Rightarrow> string \<Rightarrow> 'c \<Rightarrow> (string \<times> int) option \<times> 'c" where
  "RunCommand commands execute_remote command c =
     (case Registry_Execute commands execute_remote command c of
        (r, c') \<Rightarrow>
          (map_option (\<lambda>r. (if cli_output r \<noteq> [] then cli_output r @ [CHR 0x0A] else [], exit_code r)) r, c'))"

fun RunRepl :: "registry \<Rightarrow> 'c executor \<Rightarrow> string list \<Rightarrow> 'c \<Rightarrow> (string \<times> int) option \<times> 'c" where
  "RunRepl commands execute_remote [] c = (Some (''gate> '', 0), c)"
| "RunRepl commands execute_remote (line # lines) c =
     (case Registry_Execute commands execute_remote line c of
        (None, c') \<Rightarrow> (None, c')
      | (Some r, c') \<Rightarrow>
          let printed = ''gate> '' @ (if cli_output r \<noteq> [] then cli_output r @ [CHR 0x0A] else [])
          in if exit_requested r then (Some (printed, exit_code r), c')
             else (case RunRepl commands execute_remote lines c' of
                     (res, c'') \<Rightarrow> (map_option (apfst ((@) printed)) res, c'')))"

section \<open>Typing words\<close>

text \<open>A word as a user types it in quotes, and a line of such words.\<close>

definition type_word :: "string \<Rightarrow> string" where
  "type_word w =
     [CHR 0x22] @ concat (map (\<lambda>c. if c = CHR 0x22 \<or> c = CHR 0x5C then [CHR 0x5C, c] else [c]) w) @ [CHR 0x22]"

definition type_line :: "string \<Rightarrow> arguments \<Rightarrow> string" where
  "type_line name args = name @ concat (map (\<lambda>w. '' '' @ type_word w) args)"

lemma quoted_word_typed:
  "quoted_word (concat (map (\<lambda>c. if c = CHR 0x22 \<or> c = CHR 0x5C then [CHR 0x5C, c] else [c]) w) @ CHR 0x22 # r) = Some (w, r)"
  by (induction w) auto

lemma read_word_typed: "read_word (type_word w @ r) = Some (w, r)"
  using quoted_word_typed [of w r] by (simp add: read_word_def type_word_def)

lemma isspace_space [simp]: "isspace (CHR '' '')"
  by (simp add: isspace_def byte_val_def)

lemma read_arguments_typed: "read_arguments (concat (map (\<lambda>w. '' '' @ type_word w) args)) = Inr args"
proof (induction args)
  case (Cons w args)
  let ?r = "concat (map (\<lambda>w. '' '' @ type_word w) args)"
  have "dropWhile isspace ('' '' @ type_word w @ ?r) = type_word w @ ?r" by (simp add: type_word_def)
  moreover obtain c t where ct: "type_word w @ ?r = c # t" by (simp add: type_word_def)
  moreover have "read_word (c # t) = Some (w, ?r)" using read_word_typed [of w ?r] ct by simp
  moreover have "?r = [] \<or> isspace (hd ?r)" by (cases args) simp_all
  ultimately show ?case using Cons by (subst read_arguments.simps) auto
qed (simp add: read_arguments.simps)

lemma line_step_typed:
  assumes "map_of commands (NormalizeName name) = Some (description, handler)" "name \<noteq> []" "list_all (\<lambda>c. \<not> isspace c) name"
  shows "line_step commands (type_line name args) = handler (descriptions commands) args"
proof -
  let ?r = "concat (map (\<lambda>w. '' '' @ type_word w) args)"
  have n: "\<forall>c \<in> set name. \<not> isspace c" using assms(3) by (simp add: list_all_iff)
  have r: "?r = [] \<or> (\<exists>t. ?r = CHR '' '' # t)" by (cases args) auto
  have "dropWhile isspace (name @ ?r) = name @ ?r" using assms(2) n by (cases name) auto
  moreover have "takeWhile (\<lambda>c. \<not> isspace c) (name @ ?r) = name" "dropWhile (\<lambda>c. \<not> isspace c) (name @ ?r) = ?r"
    using n r by (auto simp: takeWhile_append2 dropWhile_append2)
  ultimately show ?thesis
    using assms(1,2) read_arguments_typed [of args] by (simp add: line_step_def type_line_def)
qed

section \<open>Reading the body back\<close>

text \<open>The text after the first occurrence of a pattern, letter by letter.\<close>

fun find_after :: "string \<Rightarrow> string \<Rightarrow> string option" where
  "find_after pat [] = (if pat = [] then Some [] else None)"
| "find_after pat (c # s) = (if prefix pat (c # s) then Some (drop (length pat) (c # s)) else find_after pat s)"

lemma find_from_after: "map_option (\<lambda>p. drop (p - i + length pat) s) (find_from pat i s) = find_after pat s"
proof (induction pat i s rule: find_from.induct)
  case (2 pat i c s)
  have "map_option (\<lambda>p. drop (p - i + length pat) (c # s)) (find_from pat (Suc i) s)
      = map_option (\<lambda>p. drop (p - Suc i + length pat) s) (find_from pat (Suc i) s)"
    by (rule option.map_cong) (auto dest!: find_from_Some simp: Suc_diff_le [symmetric] drop_Cons' split: nat.splits)
  then show ?case using 2 by auto
qed simp

lemma str_find_after: "map_option (\<lambda>p. drop (p + length pat) s) (str_find pat s 0) = find_after pat s"
  using find_from_after [of 0 pat s] by (simp add: str_find_def)

lemma str_find_None: "str_find pat s 0 = None \<longleftrightarrow> find_after pat s = None"
  using str_find_after [of pat s] by (metis option.map_disc_iff)

text \<open>A body as the handlers build it: fields with strings and fields with texts of numbers. The strings
  hold no character that JSON would have to escape.\<close>

datatype field_value = Quoted string | Raw string

fun value_text :: "field_value \<Rightarrow> string" where
  "value_text (Quoted w) = [CHR 0x22] @ w @ [CHR 0x22]"
| "value_text (Raw t) = t"

definition field_text :: "string \<times> field_value \<Rightarrow> string" where
  "field_text f = json_key (fst f) @ value_text (snd f)"

definition more_fields :: "(string \<times> field_value) list \<Rightarrow> string" where
  "more_fields fs = concat (map (\<lambda>f. '','' @ field_text f) fs) @ ''}''"

definition object_body :: "(string \<times> field_value) list \<Rightarrow> string" where
  "object_body fs = ''{'' @ field_text (hd fs) @ more_fields (tl fs)"

definition noquote :: "string \<Rightarrow> bool" where
  "noquote s \<longleftrightarrow> CHR 0x22 \<notin> set s"

definition plain_text :: "string \<Rightarrow> bool" where
  "plain_text s \<longleftrightarrow> list_all (\<lambda>c. c \<noteq> CHR 0x22 \<and> c \<noteq> CHR 0x5C \<and> 32 \<le> byte_val c) s"

lemma plain_noquote: "plain_text s \<Longrightarrow> noquote s"
  by (auto simp: plain_text_def noquote_def list_all_iff)

lemma quote_char_plain:
  assumes "c \<noteq> CHR 0x22" "c \<noteq> CHR 0x5C" "32 \<le> byte_val c"
  shows "quote_char c = [c]"
proof -
  have "c \<noteq> CHR 0x0A" "c \<noteq> CHR 0x0D" "c \<noteq> CHR 0x09" "c \<noteq> CHR 0x08" "c \<noteq> CHR 0x0C"
    using assms(3) by (auto simp: byte_val_def)
  then show ?thesis using assms by (simp add: quote_char_def)
qed

lemma QuoteJson_plain: "plain_text s \<Longrightarrow> QuoteJson s = [CHR 0x22] @ s @ [CHR 0x22]"
proof -
  have "plain_text s \<Longrightarrow> concat (map quote_char s) = s"
    by (induction s) (simp_all add: plain_text_def quote_char_plain)
  then show "plain_text s \<Longrightarrow> ?thesis" by (simp add: QuoteJson_def)
qed

fun good_value :: "field_value \<Rightarrow> bool" where
  "good_value (Quoted w) \<longleftrightarrow> noquote w"
| "good_value (Raw t) \<longleftrightarrow> noquote t \<and> t \<noteq> [] \<and> \<not> is_blank (hd t) \<and> CHR '','' \<notin> set t \<and> CHR ''}'' \<notin> set t"

definition good_name :: "string \<Rightarrow> bool" where
  "good_name n \<longleftrightarrow> noquote n \<and> n \<noteq> [] \<and> hd n \<notin> set '',}:]''"

definition good_fields :: "(string \<times> field_value) list \<Rightarrow> bool" where
  "good_fields fs \<longleftrightarrow> list_all (\<lambda>(n, v). good_name n \<and> good_value v) fs"

lemma prefix_quote:
  "noquote f \<Longrightarrow> noquote w \<Longrightarrow> prefix (f @ CHR 0x22 # x) (w @ CHR 0x22 # y) \<longleftrightarrow> f = w \<and> prefix x y"
proof (induction f arbitrary: w)
  case Nil
  then show ?case by (cases w) (auto simp: noquote_def)
next
  case (Cons c f)
  then show ?case by (cases w) (auto simp: noquote_def)
qed

lemma find_after_skip: "noquote u \<Longrightarrow> find_after (json_key f @ t) (u @ s) = find_after (json_key f @ t) s"
  by (induction u) (auto simp: noquote_def json_key_def)

lemma find_after_skip1: "c \<noteq> CHR 0x22 \<Longrightarrow> find_after (json_key f @ t) (c # s) = find_after (json_key f @ t) s"
  using find_after_skip [of "[c]" f t s] by (simp add: noquote_def)

lemma find_after_close:
  "good_name f \<Longrightarrow> c \<in> set '',}:]'' \<Longrightarrow> find_after (json_key f @ t) (CHR 0x22 # c # s) = find_after (json_key f @ t) s"
  by (cases f) (auto simp: good_name_def json_key_def)

lemma find_after_word:
  assumes "good_name f" "noquote w" "c \<in> set '',}:]''"
  shows "find_after (json_key f @ t) (CHR 0x22 # w @ CHR 0x22 # c # s)
    = (if f = w \<and> c = CHR '':'' \<and> prefix t s then Some (drop (length t) s) else find_after (json_key f @ t) s)"
proof -
  have m: "prefix (json_key f @ t) (CHR 0x22 # w @ CHR 0x22 # c # s) \<longleftrightarrow> f = w \<and> c = CHR '':'' \<and> prefix t s"
    using prefix_quote [of f w "CHR '':'' # t" "c # s"] assms by (auto simp: json_key_def good_name_def)
  have "drop (length (json_key f @ t)) (CHR 0x22 # f @ CHR 0x22 # CHR '':'' # s) = drop (length t) s"
    by (simp add: json_key_def)
  moreover have "find_after (json_key f @ t) (w @ CHR 0x22 # c # s) = find_after (json_key f @ t) s"
    using find_after_skip [OF assms(2)] find_after_close [OF assms(1,3)] by simp
  ultimately show ?thesis unfolding find_after.simps m by (cases "f = w \<and> c = CHR '':'' \<and> prefix t s") auto
qed

lemma find_after_field:
  assumes "good_name f" "good_name n" "good_value v" "c \<in> set '',}''"
  shows "find_after (json_key f @ t) (field_text (n, v) @ c # s)
    = (if f = n \<and> prefix t (value_text v @ c # s) then Some (drop (length t) (value_text v @ c # s))
       else find_after (json_key f @ t) s)"
proof -
  have n: "noquote n" using assms(2) by (simp add: good_name_def)
  have c: "c \<noteq> CHR 0x22" using assms(4) by auto
  have "find_after (json_key f @ t) (value_text v @ c # s) = find_after (json_key f @ t) s"
  proof (cases v)
    case (Quoted w)
    then show ?thesis using find_after_word [OF assms(1), of w c t s] assms(3,4) by auto
  next
    case (Raw r)
    then show ?thesis using find_after_skip [of r f t] find_after_skip1 [OF c] assms(3) by simp
  qed
  then show ?thesis
    using find_after_word [OF assms(1) n, of "CHR '':''" t "value_text v @ c # s"] by (simp add: field_text_def json_key_def)
qed

lemma more_fields_Cons: "more_fields (f # fs) = CHR '','' # field_text f @ more_fields fs"
  by (simp add: more_fields_def)

lemma more_fields_hd: obtains c s where "more_fields fs = c # s" "c \<in> set '',}''"
  by (cases fs) (auto simp: more_fields_def)

lemma find_after_more_Cons:
  assumes "good_name f" "good_fields ((n, v) # fs)"
  obtains c s where "c \<in> set '',}''"
    "find_after (json_key f @ t) (field_text (n, v) @ more_fields fs)
     = (if f = n \<and> prefix t (value_text v @ c # s) then Some (drop (length t) (value_text v @ c # s))
        else find_after (json_key f @ t) (more_fields fs))"
proof -
  obtain c s where cs: "more_fields fs = c # s" "c \<in> set '',}''" by (rule more_fields_hd)
  have tl: "find_after (json_key f @ t) (c # s) = find_after (json_key f @ t) s"
    by (rule find_after_skip1) (use cs(2) in auto)
  have g: "good_name n" "good_value v" using assms(2) by (simp_all add: good_fields_def)
  show ?thesis
    by (rule that [OF cs(2), of s]) (simp only: cs(1) find_after_field [OF assms(1) g cs(2)] tl)
qed

lemma find_after_more:
  assumes "good_name f" "good_fields fs"
  shows "(map_of fs f = None \<longrightarrow> find_after (json_key f) (more_fields fs) = None) \<and>
    (\<forall>v. map_of fs f = Some v \<longrightarrow>
       (\<exists>c s. c \<in> set '',}'' \<and> find_after (json_key f) (more_fields fs) = Some (value_text v @ c # s)))"
  using assms(2)
proof (induction fs)
  case (Cons x fs)
  obtain n w where x: "x = (n, w)" by fastforce
  have gf: "good_fields ((n, w) # fs)" using Cons.prems x by simp
  obtain c s where cs: "c \<in> set '',}''"
      "find_after (json_key f @ []) (field_text (n, w) @ more_fields fs)
       = (if f = n \<and> prefix [] (value_text w @ c # s) then Some (drop (length ([] :: string)) (value_text w @ c # s))
          else find_after (json_key f @ []) (more_fields fs))"
    by (rule find_after_more_Cons [OF assms(1) gf, of "[]"])
  have "find_after (json_key f @ []) (more_fields (x # fs)) = find_after (json_key f @ []) (field_text (n, w) @ more_fields fs)"
    unfolding more_fields_Cons x by (rule find_after_skip1) simp
  then have "find_after (json_key f) (more_fields (x # fs))
      = (if f = n then Some (value_text w @ c # s) else find_after (json_key f) (more_fields fs))"
    using cs(2) by simp
  moreover have "good_fields fs" using Cons.prems by (simp add: good_fields_def)
  ultimately show ?case using Cons.IH x cs(1) by (cases "f = n") auto
qed (simp add: more_fields_def json_key_def)

lemma find_after_object: "find_after (json_key f @ t) (object_body fs) = find_after (json_key f @ t) (field_text (hd fs) @ more_fields (tl fs))"
  unfolding object_body_def using find_after_skip1 [of "CHR ''{''" f t] by simp

lemma find_after_fields:
  assumes "good_name f" "good_fields fs" "fs \<noteq> []"
  shows "(map_of fs f = None \<longrightarrow> find_after (json_key f) (object_body fs) = None) \<and>
    (\<forall>v. map_of fs f = Some v \<longrightarrow>
       (\<exists>c s. c \<in> set '',}'' \<and> find_after (json_key f) (object_body fs) = Some (value_text v @ c # s)))"
proof -
  have "find_after (json_key f @ []) (more_fields fs) = find_after (json_key f @ []) (field_text (hd fs) @ more_fields (tl fs))"
    using assms(3) more_fields_Cons [of "hd fs" "tl fs"] find_after_skip1 [of "CHR '',''" f "[]"]
    by (simp del: find_after.simps)
  then have "find_after (json_key f) (object_body fs) = find_after (json_key f) (more_fields fs)"
    using find_after_object [of f "[]" fs] by simp
  then show ?thesis using find_after_more [OF assms(1,2)] by simp
qed

fun value_of :: "field_value \<Rightarrow> string" where
  "value_of (Quoted w) = w"
| "value_of (Raw t) = t"

lemma takeWhile_upto: "\<forall>x \<in> set xs. P x \<Longrightarrow> \<not> P c \<Longrightarrow> takeWhile P (xs @ c # s) = xs"
  by (induction xs) auto

lemma ExtractField_object:
  assumes "good_name f" "good_fields fs" "fs \<noteq> []"
  shows "ExtractField (object_body fs) f = (case map_of fs f of None \<Rightarrow> [] | Some v \<Rightarrow> value_of v)"
proof (cases "map_of fs f")
  case None
  then have "find_after (json_key f) (object_body fs) = None" using find_after_fields [OF assms] by blast
  then have "str_find (json_key f) (object_body fs) 0 = None" using str_find_None by blast
  then show ?thesis using None by (simp add: ExtractField_def json_key_def Let_def)
next
  case (Some v)
  obtain c s where c: "c \<in> set '',}''" "find_after (json_key f) (object_body fs) = Some (value_text v @ c # s)"
    using find_after_fields [OF assms] Some by blast
  have "(f, v) \<in> set fs" using Some by (rule map_of_SomeD)
  then have v: "good_value v" using assms(2) by (auto simp: good_fields_def list_all_iff)
  obtain p where p: "str_find (json_key f) (object_body fs) 0 = Some p"
      "drop (p + length (json_key f)) (object_body fs) = value_text v @ c # s"
    using str_find_after [of "json_key f" "object_body fs"] c(2) by auto
  have "ExtractField (object_body fs) f = (case dropWhile is_blank (value_text v @ c # s) of [] \<Rightarrow> []
      | d # rest \<Rightarrow> if d = CHR 0x22 then (if CHR 0x22 \<in> set rest then takeWhile (\<lambda>d. d \<noteq> CHR 0x22) rest else [])
          else takeWhile (\<lambda>d. d \<noteq> CHR '','' \<and> d \<noteq> CHR ''}'') (d # rest))"
    using p by (simp add: ExtractField_def json_key_def Let_def)
  also have "\<dots> = value_of v"
  proof (cases v)
    case (Quoted w)
    have "takeWhile (\<lambda>d. d \<noteq> CHR 0x22) (w @ CHR 0x22 # c # s) = w"
      by (rule takeWhile_upto) (use v Quoted in \<open>auto simp: noquote_def\<close>)
    then show ?thesis using Quoted by (simp add: is_blank_def)
  next
    case (Raw r)
    then obtain x xs where r: "r = x # xs" using v by (cases r) auto
    have x: "\<not> is_blank x" "x \<noteq> CHR 0x22" using v Raw r by (auto simp: noquote_def)
    have "takeWhile (\<lambda>d. d \<noteq> CHR '','' \<and> d \<noteq> CHR ''}'') (r @ c # s) = r"
      by (rule takeWhile_upto) (use v Raw c(1) in auto)
    then show ?thesis using Raw r x by simp
  qed
  finally show ?thesis using Some by simp
qed

text \<open>The flags of \<open>SET\<close> are found together with their value.\<close>

lemma find_flag_more:
  assumes "good_name f" "good_fields fs" "\<forall>v. (f, v) \<in> set fs \<longrightarrow> v = Raw t"
  shows "find_after (json_key f @ t) (more_fields fs) = None \<longleftrightarrow> f \<notin> fst ` set fs"
  using assms(2,3)
proof (induction fs)
  case (Cons x fs)
  obtain n w where x: "x = (n, w)" by fastforce
  have gf: "good_fields ((n, w) # fs)" using Cons.prems x by simp
  obtain c s where cs: "c \<in> set '',}''"
      "find_after (json_key f @ t) (field_text (n, w) @ more_fields fs)
       = (if f = n \<and> prefix t (value_text w @ c # s) then Some (drop (length t) (value_text w @ c # s))
          else find_after (json_key f @ t) (more_fields fs))"
    by (rule find_after_more_Cons [OF assms(1) gf, of t])
  have e: "find_after (json_key f @ t) (more_fields (x # fs)) = find_after (json_key f @ t) (field_text (n, w) @ more_fields fs)"
    unfolding more_fields_Cons x by (rule find_after_skip1) simp
  have "f = n \<Longrightarrow> w = Raw t" using Cons.prems(2) x by auto
  then have "f = n \<Longrightarrow> prefix t (value_text w @ c # s)" by simp
  moreover have "find_after (json_key f @ t) (more_fields fs) = None \<longleftrightarrow> f \<notin> fst ` set fs"
    using Cons.IH Cons.prems by (auto simp: good_fields_def)
  ultimately show ?case unfolding e cs(2) using x by auto
qed (simp add: more_fields_def json_key_def)

lemma flag_found:
  assumes "good_name f" "good_fields fs" "fs \<noteq> []" "\<forall>v. (f, v) \<in> set fs \<longrightarrow> v = Raw t"
  shows "str_find ([CHR 0x22] @ f @ [CHR 0x22] @ '':'' @ t) (object_body fs) 0 \<noteq> None \<longleftrightarrow> f \<in> fst ` set fs"
proof -
  have "find_after (json_key f @ t) (more_fields fs) = find_after (json_key f @ t) (field_text (hd fs) @ more_fields (tl fs))"
    using assms(3) more_fields_Cons [of "hd fs" "tl fs"] find_after_skip1 [of "CHR '',''" f t] by (simp del: find_after.simps)
  then show ?thesis
    using find_flag_more [OF assms(1,2,4)] find_after_object [of f t fs] str_find_None [of "json_key f @ t" "object_body fs"]
    by (simp add: json_key_def)
qed

section \<open>Typing calls\<close>

text \<open>How a user types a call: the command and its words. \<open>DEL\<close> and \<open>EXISTS\<close> do not reach the store
  with their keys, and the cost of a rate limit cannot be typed.\<close>

definition typed_ttl :: "u64 \<Rightarrow> arguments" where
  "typed_ttl ttl = (if ttl = 0 then [] else [''PX'', to_string_u64 ttl])"

fun typed_condition :: "SetCondition \<Rightarrow> arguments" where
  "typed_condition Set_Always = []"
| "typed_condition Set_IfAbsent = [''NX'']"
| "typed_condition Set_IfPresent = [''XX'']"

fun type_call :: "bin_call \<Rightarrow> (string \<times> arguments) option" where
  "type_call B_Ping = Some (''PING'', [])"
| "type_call (B_Get k) = Some (''GET'', [k])"
| "type_call (B_Set k v c ttl) = Some (''SET'', [k, v] @ typed_condition c @ typed_ttl ttl)"
| "type_call (B_Del k) = None"
| "type_call (B_Exists k) = None"
| "type_call (B_Type k) = Some (''TYPE'', [k])"
| "type_call (B_Expire k ttl) = Some (''PEXPIRE'', [k, to_string_u64 ttl])"
| "type_call (B_Ttl k) = Some (''TTL'', [k])"
| "type_call (B_IncrBy k d ttl) = Some (''INCRBY'', [k, to_string_i64 d] @ typed_ttl ttl)"
| "type_call (B_RateLimit k l w c) =
     (if c = 1 then Some (''GK.RATE_LIMIT'', [k, to_string_u64 l, to_string_u64 w]) else None)"
| "type_call (B_QuotaInit k a) = Some (''GK.QUOTA_INIT'', [k, to_string_u64 a])"
| "type_call (B_QuotaGet k) = Some (''GK.QUOTA_GET'', [k])"
| "type_call (B_Reserve k a ttl) = Some (''GK.RESERVE'', [k, to_string_u64 a, to_string_u64 ttl])"
| "type_call (B_Commit k r a) = Some (''GK.COMMIT'', [k, r, to_string_u64 a])"
| "type_call (B_Rollback k r) = Some (''GK.ROLLBACK'', [k, r])"
| "type_call (B_IdemBegin k h ttl tok) = Some (''GK.IDEM_BEGIN'', [k, h, to_string_u64 ttl, tok])"
| "type_call (B_IdemComplete k tok c b) = Some (''GK.IDEM_COMPLETE'', [k, tok, to_string_i32 c, b])"
| "type_call (B_IdemFail k tok m) = Some (''GK.IDEM_FAIL'', [k, tok, m])"

text \<open>The strings a user can type so that they arrive: no quote, no backslash, no control character; the keys
  and tokens are not empty.\<close>

definition typable :: "string \<Rightarrow> bool" where
  "typable s \<longleftrightarrow> plain_text s \<and> s \<noteq> []"

fun typable_call :: "bin_call \<Rightarrow> bool" where
  "typable_call B_Ping \<longleftrightarrow> True"
| "typable_call (B_Get k) \<longleftrightarrow> typable k"
| "typable_call (B_Set k v c ttl) \<longleftrightarrow> typable k \<and> plain_text v"
| "typable_call (B_Del k) \<longleftrightarrow> typable k"
| "typable_call (B_Exists k) \<longleftrightarrow> typable k"
| "typable_call (B_Type k) \<longleftrightarrow> typable k"
| "typable_call (B_Expire k ttl) \<longleftrightarrow> typable k"
| "typable_call (B_Ttl k) \<longleftrightarrow> typable k"
| "typable_call (B_IncrBy k d ttl) \<longleftrightarrow> typable k"
| "typable_call (B_RateLimit k l w c) \<longleftrightarrow> typable k"
| "typable_call (B_QuotaInit k a) \<longleftrightarrow> typable k"
| "typable_call (B_QuotaGet k) \<longleftrightarrow> typable k"
| "typable_call (B_Reserve k a ttl) \<longleftrightarrow> typable k"
| "typable_call (B_Commit k r a) \<longleftrightarrow> typable k \<and> typable r"
| "typable_call (B_Rollback k r) \<longleftrightarrow> typable k \<and> typable r"
| "typable_call (B_IdemBegin k h ttl tok) \<longleftrightarrow> typable k \<and> typable h \<and> plain_text tok"
| "typable_call (B_IdemComplete k tok c b) \<longleftrightarrow> typable k \<and> typable tok \<and> plain_text b"
| "typable_call (B_IdemFail k tok m) \<longleftrightarrow> typable k \<and> typable tok \<and> plain_text m"

lemma digits_good: "ds \<noteq> [] \<Longrightarrow> (\<And>c. c \<in> set ds \<Longrightarrow> isdigit c \<or> c = CHR ''-'') \<Longrightarrow> good_value (Raw ds)"
  by (cases ds) (fastforce simp: noquote_def is_blank_def isdigit_def byte_val_def)+

lemma number_good [simp]:
  "good_value (Raw (to_string_u64 n))" "good_value (Raw (to_string_i64 d))" "good_value (Raw (to_string_i32 c))"
  "good_value (Raw (to_dec m))"
  using to_dec_digits by (auto simp: to_string_u64_def to_string_i64_def to_string_i32_def
      intro!: digits_good simp del: good_value.simps)

lemma number_not_Nil [simp]: "to_string_u64 n \<noteq> []" "to_string_i64 d \<noteq> []" "to_string_i32 c \<noteq> []"
  by (auto simp: to_string_u64_def to_string_i64_def to_string_i32_def)

lemma with_numbers [simp]:
  "with_stoull (to_string_u64 n) k = k n" "with_stoll (to_string_i64 d) g = g d"
  by (simp_all add: with_stoull_def with_stoll_def)

lemma sint_scast_i32: "sint (scast (c :: 32 word) :: i64) = sint c"
  by (rule sint_up_scast) (simp add: is_up)

lemma with_stoi_i32 [simp]: "with_stoi (to_string_i32 c) k = k c"
proof -
  have "to_string_i32 c = to_string_i64 (scast c)" by (simp add: to_string_i32_def to_string_i64_def sint_scast_i32)
  moreover have "ucast (scast c :: i64) = c"
  proof (rule bit_word_eqI)
    fix n
    assume "n < LENGTH(32)"
    then have "n < 31 \<or> n = 31" by auto
    then show "bit (ucast (scast c :: i64) :: 32 word) n = bit c n" by (auto simp: bit_simps)
  qed
  moreover have "- (2 ^ 31) \<le> sint c \<and> sint c < 2 ^ 31" using sint_ge [of c] sint_lt [of c] by simp
  ultimately show ?thesis by (simp add: with_stoi_def sint_scast_i32)
qed

lemma typable_value: "typable k \<Longrightarrow> good_value (Quoted k)" "plain_text v \<Longrightarrow> good_value (Quoted v)"
  by (simp_all add: typable_def plain_noquote)

lemma field_texts:
  "plain_text v \<Longrightarrow> quoted_field n v = field_text (n, Quoted v)" "typable v \<Longrightarrow> quoted_field n v = field_text (n, Quoted v)"
  "raw_field n t = field_text (n, Raw t)"
  by (simp_all add: quoted_field_def raw_field_def field_text_def QuoteJson_plain typable_def)

lemma object_bodies:
  "''{'' @ field_text f @ ''}'' = object_body [f]"
  "''{'' @ field_text f @ '','' @ field_text g @ ''}'' = object_body [f, g]"
  "''{'' @ field_text f @ '','' @ field_text g @ '','' @ field_text h @ ''}'' = object_body [f, g, h]"
  "''{'' @ field_text f @ '','' @ field_text g @ '','' @ field_text h @ '','' @ field_text i @ ''}'' = object_body [f, g, h, i]"
  by (simp_all add: object_body_def more_fields_def)

text \<open>The fields of the body of a typed call.\<close>

fun condition_fields :: "SetCondition \<Rightarrow> (string \<times> field_value) list" where
  "condition_fields Set_Always = []"
| "condition_fields Set_IfAbsent = [(''if_not_exists'', Raw ''true'')]"
| "condition_fields Set_IfPresent = [(''if_exists'', Raw ''true'')]"

definition ttl_fields :: "u64 \<Rightarrow> (string \<times> field_value) list" where
  "ttl_fields ttl = (if ttl = 0 then [] else [(''ttl_ms'', Raw (to_string_u64 ttl))])"

fun call_fields :: "bin_call \<Rightarrow> (string \<times> field_value) list" where
  "call_fields B_Ping = []"
| "call_fields (B_Get k) = [(''key'', Quoted k)]"
| "call_fields (B_Set k v c ttl) = [(''key'', Quoted k), (''value'', Quoted v)] @ condition_fields c @ ttl_fields ttl"
| "call_fields (B_Del k) = []"
| "call_fields (B_Exists k) = []"
| "call_fields (B_Type k) = [(''key'', Quoted k)]"
| "call_fields (B_Expire k ttl) = [(''key'', Quoted k), (''ttl_ms'', Raw (to_string_u64 ttl))]"
| "call_fields (B_Ttl k) = [(''key'', Quoted k)]"
| "call_fields (B_IncrBy k d ttl) = [(''key'', Quoted k), (''delta'', Raw (to_string_i64 d))] @ ttl_fields ttl"
| "call_fields (B_RateLimit k l w c) =
     [(''key'', Quoted k), (''limit'', Raw (to_string_u64 l)), (''window_ms'', Raw (to_string_u64 w))]"
| "call_fields (B_QuotaInit k a) = [(''key'', Quoted k), (''amount'', Raw (to_string_u64 a))]"
| "call_fields (B_QuotaGet k) = [(''key'', Quoted k)]"
| "call_fields (B_Reserve k a ttl) =
     [(''key'', Quoted k), (''amount'', Raw (to_string_u64 a)), (''ttl_ms'', Raw (to_string_u64 ttl))]"
| "call_fields (B_Commit k r a) =
     [(''key'', Quoted k), (''reservation_id'', Quoted r), (''actual_amount'', Raw (to_string_u64 a))]"
| "call_fields (B_Rollback k r) = [(''key'', Quoted k), (''reservation_id'', Quoted r)]"
| "call_fields (B_IdemBegin k h ttl tok) =
     [(''key'', Quoted k), (''request_hash'', Quoted h), (''ttl_ms'', Raw (to_string_u64 ttl))]
     @ (if tok = [] then [] else [(''owner_token'', Quoted tok)])"
| "call_fields (B_IdemComplete k tok c b) =
     [(''key'', Quoted k), (''owner_token'', Quoted tok), (''response_code'', Raw (to_string_i32 c)),
      (''response_body'', Quoted b)]"
| "call_fields (B_IdemFail k tok m) =
     [(''key'', Quoted k), (''owner_token'', Quoted tok), (''error_message'', Quoted m)]"

lemma condition_fields_good: "list_all (\<lambda>(n, v). good_name n \<and> good_value v) (condition_fields c)"
  by (cases c) (simp_all add: good_name_def noquote_def is_blank_def)

lemma call_fields_good: "typable_call c \<Longrightarrow> good_fields (call_fields c)"
  using condition_fields_good
  by (cases c) (simp_all add: good_fields_def good_name_def typable_value ttl_fields_def noquote_def [of "_ # _"]
      del: good_value.simps)

text \<open>The client reads the call back from those fields.\<close>

definition call_name :: "bin_call \<Rightarrow> string" where
  "call_name c = (case type_call c of None \<Rightarrow> [] | Some (name, _) \<Rightarrow> name)"

definition field_of :: "bin_call \<Rightarrow> string \<Rightarrow> string" where
  "field_of c f = (case map_of (call_fields c) f of None \<Rightarrow> [] | Some v \<Rightarrow> value_of v)"

lemma body_field:
  assumes "typable_call c" "call_fields c \<noteq> []" "noquote f" "f \<noteq> []" "hd f \<notin> set '',}:]''"
  shows "ExtractField (object_body (call_fields c)) f = field_of c f"
  using ExtractField_object [OF _ call_fields_good [OF assms(1)] assms(2), of f] assms(3-5)
  by (simp add: field_of_def good_name_def)

lemma body_ttl:
  assumes "typable_call c" "call_fields c \<noteq> []"
  shows "ttl_field (object_body (call_fields c)) k
    = (if field_of c ''ttl_ms'' = [] then k 0 else with_stoull (field_of c ''ttl_ms'') k)"
  using body_field [OF assms, of "''ttl_ms''"] by (simp add: ttl_field_def noquote_def)

lemma body_condition:
  assumes "typable_call (B_Set k v c ttl)"
  shows "condition_field (object_body (call_fields (B_Set k v c ttl))) = c"
proof -
  let ?fs = "call_fields (B_Set k v c ttl)"
  have "str_find ([CHR 0x22] @ f @ [CHR 0x22] @ '':'' @ ''true'') (object_body ?fs) 0 \<noteq> None \<longleftrightarrow> f \<in> fst ` set ?fs"
    if "f \<in> {''if_not_exists'', ''if_exists''}" for f
    by (rule flag_found [OF _ call_fields_good [OF assms]])
      (use that in \<open>cases c; auto simp: good_name_def noquote_def ttl_fields_def\<close>)+
  from this [of "''if_not_exists''"] this [of "''if_exists''"] show ?thesis
    by (cases c) (simp_all add: condition_field_def ttl_fields_def)
qed

lemma call_requested:
  assumes "typable_call c" "type_call c \<noteq> None" "call_fields c \<noteq> []"
  shows "requests_call (call_name c, object_body (call_fields c)) c"
proof -
  define body where "body = object_body (call_fields c)"
  have F: "ExtractField body f = field_of c f" if "f \<in> set [''key'', ''value'', ''delta'', ''limit'', ''window_ms'', ''amount'',
      ''ttl_ms'', ''reservation_id'', ''actual_amount'', ''request_hash'', ''owner_token'', ''response_code'', ''response_body'',
      ''error_message'']" for f
    unfolding body_def by (rule body_field [OF assms(1,3)]) (use that in \<open>auto simp: noquote_def\<close>)
  have F': "ExtractField body ''key'' = field_of c ''key''" "ExtractField body ''value'' = field_of c ''value''"
    "ExtractField body ''delta'' = field_of c ''delta''" "ExtractField body ''limit'' = field_of c ''limit''"
    "ExtractField body ''window_ms'' = field_of c ''window_ms''" "ExtractField body ''amount'' = field_of c ''amount''"
    "ExtractField body ''ttl_ms'' = field_of c ''ttl_ms''" "ExtractField body ''reservation_id'' = field_of c ''reservation_id''"
    "ExtractField body ''actual_amount'' = field_of c ''actual_amount''"
    "ExtractField body ''request_hash'' = field_of c ''request_hash''"
    "ExtractField body ''owner_token'' = field_of c ''owner_token''"
    "ExtractField body ''response_code'' = field_of c ''response_code''"
    "ExtractField body ''response_body'' = field_of c ''response_body''"
    "ExtractField body ''error_message'' = field_of c ''error_message''"
    by (simp_all add: F)
  have T: "ttl_field body k = (if field_of c ''ttl_ms'' = [] then k 0 else with_stoull (field_of c ''ttl_ms'') k)"
    for k :: "u64 \<Rightarrow> string + BinaryOpcode \<times> string"
    unfolding body_def by (rule body_ttl [OF assms(1,3)])
  have C: "condition_field body = cond" if "c = B_Set k v cond ttl" for k v cond ttl
    using body_condition [of k v cond ttl] assms(1) that by (simp add: body_def)
  have "binary_request (call_name c) body = Inr (call_op c, encode_call c)"
    using assms(2,3)
  proof (cases c)
    case (B_Set k v cond ttl)
    then show ?thesis
      by (cases cond) (simp_all add: binary_request_def call_name_def F' T C field_of_def ttl_fields_def)
  qed (simp_all add: binary_request_def call_name_def F' T field_of_def ttl_fields_def split: if_splits)
  then show ?thesis by (simp add: requests_call_def body_def)
qed

text \<open>The handlers build those bodies.\<close>

lemma NormalizeName_flags: "NormalizeName ''PX'' = ''PX''" "NormalizeName ''NX'' = ''NX''" "NormalizeName ''XX'' = ''XX''"
  by code_simp+

lemma set_options_typed:
  "set_options False False (typed_condition c @ typed_ttl ttl) (''{'' @ field_text f @ '','' @ field_text g)
   = Remote ''SET'' (object_body ([f, g] @ condition_fields c @ ttl_fields ttl))"
  by (cases c) (simp_all add: typed_ttl_def ttl_fields_def NormalizeName_flags field_texts object_body_def more_fields_def)

lemma handlers_typed:
  "typable k \<Longrightarrow> name \<noteq> [] \<Longrightarrow> cli_key_command name [k] = Remote name (object_body [(''key'', Quoted k)])"
  "typable k \<Longrightarrow> plain_text v \<Longrightarrow> cli_Set ([k, v] @ typed_condition c @ typed_ttl ttl)
     = Remote ''SET'' (object_body (call_fields (B_Set k v c ttl)))"
  "typable k \<Longrightarrow> cli_PExpire [k, to_string_u64 n] = Remote ''PEXPIRE'' (object_body (call_fields (B_Expire k n)))"
  "typable k \<Longrightarrow> cli_IncrBy ([k, to_string_i64 d] @ typed_ttl ttl)
     = Remote ''INCRBY'' (object_body (call_fields (B_IncrBy k d ttl)))"
  "typable k \<Longrightarrow> cli_RateLimit [k, to_string_u64 l, to_string_u64 w]
     = Remote ''GK.RATE_LIMIT'' (object_body (call_fields (B_RateLimit k l w 1)))"
  "typable k \<Longrightarrow> cli_QuotaInit [k, to_string_u64 n] = Remote ''GK.QUOTA_INIT'' (object_body (call_fields (B_QuotaInit k n)))"
  "typable k \<Longrightarrow> cli_Reserve [k, to_string_u64 n, to_string_u64 ttl]
     = Remote ''GK.RESERVE'' (object_body (call_fields (B_Reserve k n ttl)))"
  "typable k \<Longrightarrow> typable r \<Longrightarrow> cli_Commit [k, r, to_string_u64 n]
     = Remote ''GK.COMMIT'' (object_body (call_fields (B_Commit k r n)))"
  "typable k \<Longrightarrow> typable r \<Longrightarrow> cli_Rollback [k, r] = Remote ''GK.ROLLBACK'' (object_body (call_fields (B_Rollback k r)))"
  "typable k \<Longrightarrow> typable h \<Longrightarrow> plain_text tok \<Longrightarrow> cli_IdemBegin [k, h, to_string_u64 ttl, tok]
     = Remote ''GK.IDEM_BEGIN'' (object_body (call_fields (B_IdemBegin k h ttl tok)))"
  "typable k \<Longrightarrow> typable tok \<Longrightarrow> plain_text b \<Longrightarrow> cli_IdemComplete [k, tok, to_string_i32 rc, b]
     = Remote ''GK.IDEM_COMPLETE'' (object_body (call_fields (B_IdemComplete k tok rc b)))"
  "typable k \<Longrightarrow> typable tok \<Longrightarrow> plain_text m \<Longrightarrow> cli_IdemFail [k, tok, m]
     = Remote ''GK.IDEM_FAIL'' (object_body (call_fields (B_IdemFail k tok m)))"
proof -
  show "typable k \<Longrightarrow> plain_text v \<Longrightarrow> cli_Set ([k, v] @ typed_condition c @ typed_ttl ttl)
      = Remote ''SET'' (object_body (call_fields (B_Set k v c ttl)))"
    using set_options_typed [of c ttl "(''key'', Quoted k)" "(''value'', Quoted v)"]
    by (simp add: cli_Set_def field_texts typable_def)
qed (auto simp: cli_key_command_def cli_PExpire_def cli_IncrBy_def cli_RateLimit_def cli_QuotaInit_def cli_Reserve_def
    cli_Commit_def cli_Rollback_def cli_IdemBegin_def cli_IdemComplete_def cli_IdemFail_def field_texts typed_ttl_def
    ttl_fields_def object_body_def more_fields_def NormalizeName_flags dest: typable_def [THEN iffD1])

section \<open>The registered commands\<close>

lemma map_of_insort: "fst x \<notin> fst ` set xs \<Longrightarrow> map_of (insort_key fst x xs) = (map_of xs)(fst x \<mapsto> snd x)"
  by (induction xs) (auto simp: fun_eq_iff)

lemma Register_fold:
  assumes "distinct (map (NormalizeName \<circ> fst) rs)" "\<forall>x \<in> set rs. NormalizeName (fst x) \<notin> fst ` set commands \<and> NormalizeName (fst x) \<noteq> []"
    "sorted (map fst commands)"
  shows "\<exists>r. fold (\<lambda>(name, description, handler) r. Option.bind r (Registry_Register name description handler)) rs (Some commands) = Some r
    \<and> sorted (map fst r) \<and> fst ` set r = fst ` set commands \<union> (NormalizeName \<circ> fst) ` set rs
    \<and> (\<forall>x \<in> set rs. map_of r (NormalizeName (fst x)) = Some (snd x))
    \<and> (\<forall>n. n \<notin> (NormalizeName \<circ> fst) ` set rs \<longrightarrow> map_of r n = map_of commands n)"
  using assms
proof (induction rs arbitrary: commands)
  case (Cons x rs)
  obtain name description handler where x: "x = (name, description, handler)" by (rule prod_cases3)
  let ?c = "insort_key fst (NormalizeName name, description, handler) commands"
  have r: "Registry_Register name description handler commands = Some ?c"
    using Cons.prems(2) x by (simp add: Registry_Register_def Let_def)
  have c: "fst ` set ?c = insert (NormalizeName name) (fst ` set commands)" "sorted (map fst ?c)"
    "map_of ?c = (map_of commands)(NormalizeName name \<mapsto> (description, handler))"
    using Cons.prems(2,3) x map_of_insort [of "(NormalizeName name, description, handler)" commands]
    by (auto simp: set_insort_key sorted_insort_key)
  have pre: "\<forall>y \<in> set rs. NormalizeName (fst y) \<notin> fst ` set ?c \<and> NormalizeName (fst y) \<noteq> []"
  proof
    fix y
    assume "y \<in> set rs"
    then show "NormalizeName (fst y) \<notin> fst ` set ?c \<and> NormalizeName (fst y) \<noteq> []"
      using Cons.prems(1,2) x unfolding c(1) by (auto simp: image_iff)
  qed
  obtain r where r': "fold (\<lambda>(name, description, handler) r. Option.bind r (Registry_Register name description handler)) rs (Some ?c) = Some r"
      "sorted (map fst r)" "fst ` set r = fst ` set ?c \<union> (NormalizeName \<circ> fst) ` set rs"
      "\<forall>x \<in> set rs. map_of r (NormalizeName (fst x)) = Some (snd x)"
      "\<forall>n. n \<notin> (NormalizeName \<circ> fst) ` set rs \<longrightarrow> map_of r n = map_of ?c n"
    using Cons.IH [OF _ pre c(2)] Cons.prems(1) by (simp only: list.map distinct.simps) blast
  have "NormalizeName name \<notin> (NormalizeName \<circ> fst) ` set rs" using Cons.prems(1) x by auto
  then show ?case using r' r c x by (intro exI [of _ r]) auto
qed simp

definition command_names :: "string list" where
  "command_names =
     [''PING'', ''GET'', ''SET'', ''INCR'', ''DECR'', ''INCRBY'', ''GK.RATE_LIMIT'', ''GK.RESERVE'',
      ''GK.COMMIT'', ''GK.ROLLBACK'', ''GK.QUOTA_INIT'', ''GK.QUOTA_GET'', ''GK.IDEM_BEGIN'',
      ''GK.IDEM_COMPLETE'', ''GK.IDEM_FAIL'', ''GK.IDEM_GET'', ''DEL'', ''EXISTS'', ''TYPE'', ''DBSIZE'',
      ''KEYS'', ''SCAN'', ''EXPIRE'', ''PEXPIRE'', ''TTL'', ''PTTL'', ''PERSIST'', ''HELP'', ''QUIT'',
      ''EXIT'']"

lemma command_names_facts: "map NormalizeName command_names = command_names" "distinct command_names" "[] \<notin> set command_names"
  "list_all (\<lambda>n. NormalizeName n = n \<and> n \<noteq> [] \<and> list_all (\<lambda>c. \<not> isspace c) n) command_names"
  by code_simp+

lemma registrations_names: "map fst cli_registrations = command_names"
  by (simp add: cli_registrations_def command_names_def)

lemma new_Registry_commands:
  obtains commands where "new_Registry = Some commands" "sorted (map fst commands)"
    "fst ` set commands = fst ` set cli_registrations"
    "\<forall>x \<in> set cli_registrations. map_of commands (fst x) = Some (snd x)"
proof -
  have m: "fst x \<in> set command_names" if "x \<in> set cli_registrations" for x
    using registrations_names that by (metis image_eqI list.set_map)
  have n: "NormalizeName (fst x) = fst x" if "x \<in> set cli_registrations" for x
    using command_names_facts(1) m [OF that] map_eq_conv [of NormalizeName command_names id] by simp
  have "map (NormalizeName \<circ> fst) cli_registrations = command_names"
    using command_names_facts(1) registrations_names by (metis list.map_comp)
  then have d: "distinct (map (NormalizeName \<circ> fst) cli_registrations)" using command_names_facts(2) by simp
  have "\<forall>x \<in> set cli_registrations. NormalizeName (fst x) \<notin> fst ` set [] \<and> NormalizeName (fst x) \<noteq> []"
    using n m command_names_facts(3) by (metis empty_iff image_empty list.set(1))
  from Register_fold [OF d this] obtain r where r: "new_Registry = Some r" "sorted (map fst r)"
      "fst ` set r = (NormalizeName \<circ> fst) ` set cli_registrations"
      "\<forall>x \<in> set cli_registrations. map_of r (NormalizeName (fst x)) = Some (snd x)"
    unfolding new_Registry_def by auto
  show ?thesis
  proof (rule that [OF r(1,2)])
    show "fst ` set r = fst ` set cli_registrations" unfolding r(3) using n by (auto simp: image_iff)
    show "\<forall>x \<in> set cli_registrations. map_of r (fst x) = Some (snd x)" using r(4) n by simp
  qed
qed

lemma new_Registry_Some: "\<exists>commands. new_Registry = Some commands"
  by (rule new_Registry_commands) blast

lemma registered:
  "(''GET'', ''GET key'', \<lambda>_. cli_key_command ''GET'') \<in> set cli_registrations"
  "(''TYPE'', ''TYPE key'', \<lambda>_. cli_key_command ''TYPE'') \<in> set cli_registrations"
  "(''TTL'', ''TTL key'', \<lambda>_. cli_key_command ''TTL'') \<in> set cli_registrations"
  "(''GK.QUOTA_GET'', ''GK.QUOTA_GET key'', \<lambda>_. cli_key_command ''GK.QUOTA_GET'') \<in> set cli_registrations"
  "(''SET'', ''SET key value [NX|XX] [EX seconds|PX milliseconds]'', \<lambda>_. cli_Set) \<in> set cli_registrations"
  "(''PEXPIRE'', ''PEXPIRE key milliseconds'', \<lambda>_. cli_PExpire) \<in> set cli_registrations"
  "(''INCRBY'', ''INCRBY key delta [EX seconds|PX milliseconds]'', \<lambda>_. cli_IncrBy) \<in> set cli_registrations"
  "(''GK.RATE_LIMIT'', ''GK.RATE_LIMIT key limit window_ms'', \<lambda>_. cli_RateLimit) \<in> set cli_registrations"
  "(''GK.QUOTA_INIT'', ''GK.QUOTA_INIT key amount'', \<lambda>_. cli_QuotaInit) \<in> set cli_registrations"
  "(''GK.RESERVE'', ''GK.RESERVE key amount ttl_ms'', \<lambda>_. cli_Reserve) \<in> set cli_registrations"
  "(''GK.COMMIT'', ''GK.COMMIT key reservation_id actual_amount'', \<lambda>_. cli_Commit) \<in> set cli_registrations"
  "(''GK.ROLLBACK'', ''GK.ROLLBACK key reservation_id'', \<lambda>_. cli_Rollback) \<in> set cli_registrations"
  "(''GK.IDEM_BEGIN'', ''GK.IDEM_BEGIN key request_hash [ttl_ms] [owner_token]'', \<lambda>_. cli_IdemBegin) \<in> set cli_registrations"
  "(''GK.IDEM_COMPLETE'', ''GK.IDEM_COMPLETE key owner_token response_code [response_body]'', \<lambda>_. cli_IdemComplete) \<in> set cli_registrations"
  "(''GK.IDEM_FAIL'', ''GK.IDEM_FAIL key owner_token [error_message]'', \<lambda>_. cli_IdemFail) \<in> set cli_registrations"
  "(''EXPIRE'', ''EXPIRE key seconds'', \<lambda>_. cli_Expire) \<in> set cli_registrations"
  "(''DEL'', ''DEL key [key ...]'', \<lambda>_. cli_keys_command ''DEL'') \<in> set cli_registrations"
  "(''PING'', ''Check server availability'', WithoutArguments (\<lambda>_ _. Remote ''PING'' ''{}'')) \<in> set cli_registrations"
  by (simp_all add: cli_registrations_def)

lemma line_step_registered:
  assumes "new_Registry = Some commands" "(name, description, handler) \<in> set cli_registrations"
  shows "line_step commands (type_line name args) = handler (descriptions commands) args"
proof -
  obtain commands' where c: "new_Registry = Some commands'" "sorted (map fst commands')"
      "fst ` set commands' = fst ` set cli_registrations"
      and look: "\<forall>x \<in> set cli_registrations. map_of commands' (fst x) = Some (snd x)"
    by (rule new_Registry_commands)
  have "commands' = commands" using assms(1) c(1) by (metis option.inject)
  then have "map_of commands name = Some (description, handler)" using look assms(2) by force
  moreover have "name \<in> set command_names" using registrations_names assms(2) by (metis fst_conv image_eqI list.set_map)
  then have "NormalizeName name = name \<and> name \<noteq> [] \<and> list_all (\<lambda>c. \<not> isspace c) name"
    using command_names_facts(4) by (simp add: list_all_iff)
  ultimately show ?thesis using line_step_typed [of commands name description handler args] by simp
qed

lemma line_step_call:
  assumes "new_Registry = Some commands" "typable_call c" "type_call c = Some (name, args)"
  shows "\<exists>op body. line_step commands (type_line name args) = Remote op body \<and> requests_call (op, body) c"
proof (cases "call_fields c = []")
  case True
  then have "c = B_Ping" using assms(3) by (cases c) auto
  then show ?thesis
    using assms(3) line_step_registered [OF assms(1) registered(18), of "[]"]
    by (simp add: WithoutArguments_def requests_call_def binary_request_def)
next
  case False
  note steps = registered [THEN line_step_registered [OF assms(1)]]
  have "line_step commands (type_line name args) = Remote name (object_body (call_fields c))"
  proof (cases c)
    case (B_Set k v cond ttl)
    then show ?thesis using assms(2,3) handlers_typed(2) [of k v cond ttl] by (auto simp: steps)
  next
    case (B_IncrBy k d ttl)
    then show ?thesis using assms(2,3) handlers_typed(4) [of k d ttl] by (auto simp: steps)
  qed (use assms(2,3) False in \<open>auto simp: steps handlers_typed split: if_splits\<close>)
  moreover have "call_name c = name" using assms(3) by (simp add: call_name_def)
  ultimately show ?thesis using call_requested [OF assms(2) _ False] assms(3) by auto
qed

section \<open>From the keyboard to the store\<close>

lemma client_texts: "shown c a \<noteq> [] \<and> hd (shown c a) \<noteq> CHR ''{''"
  by (cases a) (auto simp: QuoteJson_def failed_text_def split: option.splits)

text \<open>What the tool shows for a result of the client.\<close>

definition cli_shows :: "string + string \<Rightarrow> CliResult option" where
  "cli_shows r = (case r of Inl e \<Rightarrow> Some (result_error e) | Inr text \<Rightarrow> FormatResponse text)"

fun lines_results :: "registry \<Rightarrow> 'c executor \<Rightarrow> string list \<Rightarrow> 'c \<Rightarrow> CliResult option list" where
  "lines_results commands execute_remote [] c = []"
| "lines_results commands execute_remote (line # lines) c =
     (case Registry_Execute commands execute_remote line c of (r, c') \<Rightarrow> r # lines_results commands execute_remote lines c')"

lemma lines_results_session:
  assumes "list_all2 (\<lambda>line x. line_step commands line = Remote (fst x) (snd x)) lines ops"
  shows "lines_results commands Client_Execute lines cl = map cli_shows (client_session ops cl)"
  using assms
proof (induction lines arbitrary: ops cl rule: list.induct)
  case (Cons line lines)
  obtain op body ops' where "ops = (op, body) # ops'" "line_step commands line = Remote op body"
      "list_all2 (\<lambda>line x. line_step commands line = Remote (fst x) (snd x)) lines ops'"
    using Cons.prems by (auto simp: list_all2_Cons1)
  then show ?case using Cons.IH
    by (simp add: Registry_Execute_def run_step_def cli_shows_def case_prod_beta split: sum.splits)
qed simp

definition typed_line :: "bin_call \<Rightarrow> string" where
  "typed_line c = (case type_call c of None \<Rightarrow> [] | Some (name, args) \<Rightarrow> type_line name args)"

definition typed_calls :: "bin_call list \<Rightarrow> bool" where
  "typed_calls cs \<longleftrightarrow> list_all (\<lambda>c. typable_call c \<and> type_call c \<noteq> None \<and> call_fits c) cs"

lemma typed_lines_operations:
  assumes "new_Registry = Some commands" "typed_calls cs"
  shows "\<exists>ops. list_all2 (\<lambda>line x. line_step commands line = Remote (fst x) (snd x)) (map typed_line cs) ops
    \<and> list_all2 requests_call ops cs"
  using assms(2)
proof (induction cs)
  case (Cons c cs)
  then obtain ops where ops: "list_all2 (\<lambda>line x. line_step commands line = Remote (fst x) (snd x)) (map typed_line cs) ops"
      "list_all2 requests_call ops cs" by (auto simp: typed_calls_def)
  obtain name args where n: "type_call c = Some (name, args)" "typable_call c"
    using Cons.prems by (auto simp: typed_calls_def)
  obtain op body where "line_step commands (typed_line c) = Remote op body" "requests_call (op, body) c"
    using line_step_call [OF assms(1) n(2,1)] n(1) by (auto simp: typed_line_def)
  then show ?case using ops by (intro exI [of _ "(op, body) # ops"]) simp
qed simp

definition cli_expected :: "bin_call list \<Rightarrow> bin_answer list \<Rightarrow> CliResult option list" where
  "cli_expected cs as = map2 (\<lambda>c a. Some (result_text (shown c a))) cs as"

lemma cli_shows_expected: "map cli_shows (expected cs as) = cli_expected cs as"
  using client_texts by (auto simp: expected_def cli_expected_def cli_shows_def FormatResponse_text)


definition example_calls :: "bin_call list" where
  "example_calls = [B_Ping, B_Get ''a'']"


section \<open>Where the tool and its client disagree\<close>

text \<open>C36: The command EXPIRE of the tool deletes the key. It sends the time in a field the client does not read,
  so the client asks for a time to live of zero, whatever the user typed, and the store removes the key.\<close>

theorem typed_expire_deletes:
  assumes "new_Registry = Some commands" "typable k" "kv_refines (std_hash env) (clock env 0) st m"
  shows "(\<exists>body. line_step commands (type_line ''EXPIRE'' [k, to_string_u64 seconds]) = Remote ''EXPIRE'' body
      \<and> requests_call (''EXPIRE'', body) (B_Expire k 0))
    \<and> fst (MemoryStore_Get (std_hash env) (clock env 0) k (snd (bin_exec env (B_Expire k 0) st))) = None"
proof (intro conjI exI)
  let ?fs = "[(''key'', Quoted k), (''ttl_seconds'', Raw (to_string_u64 seconds))]"
  have good: "good_fields ?fs"
    using typable_value(1) [OF assms(2)] by (simp add: good_fields_def good_name_def noquote_def [of "_ # _"] del: good_value.simps)
  show "line_step commands (type_line ''EXPIRE'' [k, to_string_u64 seconds]) = Remote ''EXPIRE'' (object_body ?fs)"
    using line_step_registered [OF assms(1) registered(16)] assms(2)
    by (auto simp: cli_Expire_def field_texts object_body_def more_fields_def typable_def)
  have "ExtractField (object_body ?fs) ''key'' = k" "ExtractField (object_body ?fs) ''ttl_ms'' = []"
    using ExtractField_object [OF _ good, of "''key''"] ExtractField_object [OF _ good, of "''ttl_ms''"]
    by (simp_all add: good_name_def noquote_def)
  then show "requests_call (''EXPIRE'', object_body ?fs) (B_Expire k 0)"
    by (simp add: requests_call_def binary_request_def ttl_field_def)
  have e: "kv_refines (std_hash env) (clock env 0) (snd (MemoryStore_Expire (std_hash env) (clock env 0) k 0 st))
      (snd (spec_expire (clock env 0) k 0 m))"
    using Expire_refines [OF assms(3), of k 0] by simp
  show "fst (MemoryStore_Get (std_hash env) (clock env 0) k (snd (bin_exec env (B_Expire k 0) st))) = None"
    using Get_refines [OF e, of k]
    by (auto simp: spec_expire_def unexpired_def cell.visible_def split: option.splits)
qed

theorem typed_expire_deletes_witness:
  "fst (MemoryStore_Get length 5 ''a'' (snd (bin_exec (example_env 5) (B_Expire ''a'' 0) MemoryStore_default))) = None"
proof -
  obtain commands where c: "new_Registry = Some commands" using new_Registry_Some by blast
  have "typable ''a''" by code_simp
  then show ?thesis
    using typed_expire_deletes [OF c, of "''a''" "example_env 5" MemoryStore_default Map.empty] kv_refines_default by simp
qed

lemma find_after_keys:
  assumes "good_name f" "list_all plain_text args"
  shows "find_after (json_key f) (comma_list (map QuoteJson args) @ '']}'') = None"
  using assms(2)
proof (induction args rule: comma_list.induct)
  case 1
  show ?case using assms(1) by (simp add: json_key_def)
next
  case (2 x)
  then show ?case
    using find_after_word [OF assms(1), of x "CHR '']''" "[]" "''}''"] plain_noquote [of x]
    by (simp add: QuoteJson_plain json_key_def)
next
  case (3 x y ys)
  then show ?case
    using find_after_word [OF assms(1), of x "CHR '',''" "[]" "comma_list (map QuoteJson (y # ys)) @ '']}''"] plain_noquote [of x]
    by (simp add: QuoteJson_plain)
qed

text \<open>The command DEL of the tool never deletes the keys it is given: it sends them in an array, of which the
  client reads nothing, and the request names the empty key.\<close>

theorem typed_del_loses_keys:
  assumes "new_Registry = Some commands" "args \<noteq> []" "list_all plain_text args"
  shows "\<exists>body. line_step commands (type_line ''DEL'' args) = Remote ''DEL'' body \<and> requests_call (''DEL'', body) (B_Del [])"
proof (intro exI conjI)
  let ?body = "''{'' @ json_key ''keys'' @ ''['' @ comma_list (map QuoteJson args) @ '']}''"
  show "line_step commands (type_line ''DEL'' args) = Remote ''DEL'' ?body"
    using line_step_registered [OF assms(1) registered(17)] assms(2) by (simp add: cli_keys_command_def)
  have k: "good_name ''key''" by (simp add: good_name_def noquote_def)
  have "find_after (json_key ''key'' @ []) ?body = find_after (json_key ''key'' @ []) (comma_list (map QuoteJson args) @ '']}'')"
    using find_after_word [OF k, of "''keys''" "CHR '':''" "[]" "''['' @ comma_list (map QuoteJson args) @ '']}''"]
      find_after_skip1 [of "CHR ''{''" "''key''" "[]"] find_after_skip1 [of "CHR ''[''" "''key''" "[]"]
    by (simp add: json_key_def noquote_def)
  then have "str_find (json_key ''key'') ?body 0 = None"
    using find_after_keys [OF k assms(3)] str_find_None [of "json_key ''key''" ?body] by simp
  then have "ExtractField ?body ''key'' = []" by (simp add: ExtractField_def json_key_def Let_def)
  then show "requests_call (''DEL'', ?body) (B_Del [])" by (simp add: requests_call_def binary_request_def)
qed

text \<open>A value with a quote in it is cut at the quote.\<close>

lemma typed_value_cut:
  "\<exists>body. cli_Set [''k'', ''a'' @ [CHR 0x22] @ ''b''] = Remote ''SET'' body
     \<and> requests_call (''SET'', body) (B_Set ''k'' (''a'' @ [CHR 0x5C]) Set_Always 0)"
proof (intro exI conjI)
  let ?body = "''{'' @ quoted_field ''key'' ''k'' @ '','' @ quoted_field ''value'' (''a'' @ [CHR 0x22] @ ''b'') @ ''}''"
  show "cli_Set [''k'', ''a'' @ [CHR 0x22] @ ''b''] = Remote ''SET'' ?body" by (simp add: cli_Set_def)
  have "ExtractField ?body ''key'' = ''k''" "ExtractField ?body ''value'' = ''a'' @ [CHR 0x5C]" "ExtractField ?body ''ttl_ms'' = []"
    "condition_field ?body = Set_Always"
    by code_simp+
  then show "requests_call (''SET'', ?body) (B_Set ''k'' (''a'' @ [CHR 0x5C]) Set_Always 0)"
    by (simp only: requests_call_def binary_request_def ttl_field_def Let_def) simp
qed

text \<open>The tool reports success for a request the server refused.\<close>

lemma refused_request_exits_zero:
  "line_step commands line = Remote op body \<Longrightarrow> Client_Execute op body cl = (Inr failed_text, cl') \<Longrightarrow>
   RunCommand commands Client_Execute line cl = (Some (failed_text @ [CHR 0x0A], 0), cl')"
  by (simp add: RunCommand_def Registry_Execute_def run_step_def FormatResponse_text failed_text_def result_text_def)

end
