(* ===== verification/GK_Main.thy ===== *)
theory GK_Main
  imports GK_Network GK_Registry
begin

text \<open>
  The two programs, \<open>src/server_main.cpp\<close> and \<open>src/cli_main.cpp\<close>: from the command line to the server that
  serves, with its store, its file and its workers, and to the tool that runs one command or a session. The
  data directory can be created and the file opened; signals are the stops of the network server.

  Shown: whatever the file holds and whatever bytes the peers send, over all connections and workers, the
  store of the running server keeps its invariant.
\<close>

section \<open>The server\<close>

text \<open>What the handlers share: the environment of each call to come (clock, hash function, outcomes of the
  writes, wall clock) and the processor, \<open>None\<close> once the process has died in a call.\<close>

type_synonym main_state = "(CallEnv \<times> write_outcome list \<times> u64) list \<times> Processor option"

fun main_request :: "main_state request_handler" where
  "main_request payload ((env, os, now_sec) # xs, Some p) =
     (case Process env os payload p of
        (Replied r, p') \<Rightarrow> (r, xs, Some p')
      | (_, p') \<Rightarrow> ([], xs, None))"
| "main_request payload (xs, p) = ([], xs, None)"

definition no_response :: HttpResponse where
  "no_response = \<lparr>resp_status = 0, resp_text = [], resp_headers = [], resp_body = []\<rparr>"

fun main_http :: "main_state http_handler" where
  "main_http req ((env, os, now_sec) # xs, Some p) =
     (case http_process env [os] now_sec req p of
        (Some r, p') \<Rightarrow> (r, xs, Some p')
      | (None, p') \<Rightarrow> (no_response, xs, None))"
| "main_http req (xs, p) = (no_response, xs, None)"

fun main_timer :: "main_state \<Rightarrow> main_state" where
  "main_timer ((env, os, now_sec) # xs, Some p) = (xs, Some (snd (timer_tick (std_hash env) (clock env 0) p)))"
| "main_timer (xs, p) = (xs, None)"

definition main_handlers :: "main_state handlers" where
  "main_handlers = \<lparr>on_request = main_request, on_http_request = main_http, on_timer = main_timer\<rparr>"

definition fsync_of :: "ServerConfig \<Rightarrow> FsyncPolicy" where
  "fsync_of c =
     (if fsync_policy c = ''always'' then Policy_Always
      else if fsync_policy c = ''no'' then Policy_No
      else Policy_Everysec)"

text \<open>The program up to \<open>server.Run\<close>: the processor and the server, or what is printed and the exit status.
  The dispatcher can always be constructed.\<close>

definition main_setup :: "(nat \<Rightarrow> CallEnv) \<Rightarrow> string option \<Rightarrow> string list \<Rightarrow> string \<times> int + Processor \<times> Server" where
  "main_setup envs file args =
     (case ServerConfig_Parse args of
        Inl e \<Rightarrow> Inl (''gatekeeper: '' @ e @ [CHR 0x0A], 1)
      | Inr config \<Rightarrow>
          if sc_show_help config then Inl (ServerConfig_Usage, 0)
          else
            (case (if persistence config = ''aof'' then server_start envs file (fsync_of config)
                   else map_option (\<lambda>d. \<lparr>p_store = d_store d, p_aof = None\<rparr>) (new_Dispatcher MemoryStore_default)) of
               None \<Rightarrow> Inl ([], 1)
             | Some p \<Rightarrow>
                 (case new_Server (sc_port config) True (timer_interval_ms config) True (http_port config) True (workers config) of
                    Inl e \<Rightarrow> Inl (''gatekeeper: '' @ e @ [CHR 0x0A], 1)
                  | Inr sv \<Rightarrow> Inr (p, sv))))"

section \<open>The tool\<close>

text \<open>What is printed on the two outputs and the exit status; \<open>None\<close> after an overflow in the formatter. The
  commands can always be registered.\<close>

definition gate_main :: "(errno \<Rightarrow> string) \<Rightarrow> dial list \<Rightarrow> string list \<Rightarrow> string list \<Rightarrow> (string \<times> string \<times> int) option" where
  "gate_main strerror dials args input =
     (let failed = (\<lambda>e. Some ([], ''gate: '' @ e @ [CHR 0x0A], 1))
      in case CliConfig_Parse args of
           Inl e \<Rightarrow> failed e
         | Inr config \<Rightarrow>
             if cc_show_help config then Some (CliConfig_Usage, [], 0)
             else
               (case (new_Client (cc_host config) (word_of_int (cc_port config)) strerror dials, new_Registry) of
                  (Inl e, _) \<Rightarrow> failed e
                | (Inr client, None) \<Rightarrow> failed []
                | (Inr client, Some commands) \<Rightarrow>
                    (case cc_command config of
                       Some command \<Rightarrow>
                         map_option (\<lambda>(out, status). (out, [], status)) (fst (RunCommand commands Client_Execute command client))
                     | None \<Rightarrow>
                         (case Client_Open client of
                            (Inl e, _) \<Rightarrow> failed e
                          | (Inr _, client') \<Rightarrow>
                              map_option (\<lambda>(out, status). (out, [], status))
                                (fst (RunRepl commands Client_Execute input client'))))))"

section \<open>Setting up\<close>

lemma main_setup_cases:
  assumes "main_setup envs file args = Inr (p, sv)"
  shows "\<exists>c. ServerConfig_Parse args = Inr c \<and> \<not> sc_show_help c
    \<and> (persistence c = ''aof'' \<longrightarrow> server_start envs file (fsync_of c) = Some p)
    \<and> (persistence c \<noteq> ''aof'' \<longrightarrow> p = \<lparr>p_store = MemoryStore_default, p_aof = None\<rparr>)
    \<and> new_Server (sc_port c) True (timer_interval_ms c) True (http_port c) True (workers c) = Inr sv"
  using assms by (auto simp: main_setup_def new_Dispatcher_eq split: sum.splits if_splits option.splits)

text \<open>A command line the parser accepts is refused by the server for one reason only: the two ports are the same.\<close>

lemma main_setup_refused:
  assumes "ServerConfig_Parse args = Inr c" "\<not> sc_show_help c"
  shows "(\<exists>x. main_setup envs file args = Inr x) \<longleftrightarrow> http_port c \<noteq> sc_port c"
proof -
  have "valid_ServerConfig c" using assms(1) unfolding ServerConfig_Parse_def
    by (rule server_loop_valid) (simp add: valid_ServerConfig_def default_ServerConfig_def kDefaultPort_def)
  moreover obtain p where "server_start envs file (fsync_of c) = Some p" by (simp add: server_start_def new_Dispatcher_eq)
  ultimately show ?thesis using assms
    by (auto simp: main_setup_def new_Server_def valid_ServerConfig_def new_Dispatcher_eq)
qed

section \<open>The store under all traffic\<close>

text \<open>Whatever the handlers keep, the server keeps.\<close>

lemma replay_keeps:
  assumes "P (snd x)" "\<And>payload s. P s \<Longrightarrow> P (snd (on_request H payload s))"
    "\<And>req s. P s \<Longrightarrow> P (snd (on_http_request H req s))" "\<And>s. P s \<Longrightarrow> P (on_timer H s)"
  shows "P (snd (replay H tr x))"
  unfolding replay_def using assms(1)
proof (induction tr arbitrary: x)
  case (Cons e tr)
  obtain D s where x: "x = (D, s)" by fastforce
  have "P (snd (replay1 H e (D, s)))"
  proof (cases e)
    case (Framed i f)
    then show ?thesis using Cons.prems assms(2) [of s "fr_payload f"]
      by (auto simp: x answer_def Let_def split: prod.splits)
  next
    case (Asked i r)
    then show ?thesis using Cons.prems assms(3) [of s r] by (auto simp: x split: prod.splits)
  qed (use Cons.prems assms(4) in \<open>simp_all add: x\<close>)
  then show ?case using Cons.IH by (simp add: x)
qed simp

definition main_inv :: "hash_fn \<Rightarrow> main_state \<Rightarrow> bool" where
  "main_inv h s \<longleftrightarrow> list_all (\<lambda>(env, os, now_sec). std_hash env = h) (fst s)
     \<and> (\<forall>p. snd s = Some p \<longrightarrow> store_inv h (p_store p))"

lemma main_request_inv: "main_inv h s \<Longrightarrow> main_inv h (snd (main_request payload s))"
proof (cases "(payload, s)" rule: main_request.cases)
  case (1 payload' env os now_sec xs p)
  then show "main_inv h s \<Longrightarrow> ?thesis" using Process_inv [of env p os payload]
    by (auto simp: main_inv_def split: prod.split outcome.split)
qed (auto simp: main_inv_def)

lemma main_http_inv: "main_inv h s \<Longrightarrow> main_inv h (snd (main_http req s))"
proof (cases "(req, s)" rule: main_http.cases)
  case (1 req' env os now_sec xs p)
  then show "main_inv h s \<Longrightarrow> ?thesis" using http_process_inv [of env p "[os]" now_sec req]
    by (auto simp: main_inv_def split: prod.split option.split)
qed (auto simp: main_inv_def)

lemma main_timer_inv: "main_inv h s \<Longrightarrow> main_inv h (main_timer s)"
proof (cases s rule: main_timer.cases)
  case (1 env os now_sec xs p)
  then show "main_inv h s \<Longrightarrow> ?thesis" using purge_store_inv [of h "p_store p" "clock env 0" 50]
    by (auto simp: main_inv_def timer_tick_def case_prod_beta)
qed (auto simp: main_inv_def)

lemma main_setup_inv:
  assumes "main_setup envs file args = Inr (p, sv)" "\<forall>j. std_hash (envs j) = h"
  shows "store_inv h (p_store p)"
  using main_setup_cases [OF assms(1)] server_start_inv [OF _ assms(2)] store_inv_default by fastforce

text \<open>C10: The store survives anything. The server is started from any command line it accepts, on any file,
  valid or not. Its workers then accept any number of connections of both protocols, on which any bytes
  arrive, cut in any way, with any outcomes of the writes to the sockets and to the file, timer ticks and stops in between. As long as the process lives,
  the store keeps its invariant: tables consistent, every record well-formed and in the shard of its key.\<close>

theorem network_keeps_store_invariant:
  assumes "main_setup envs file args = Inr (p, sv)" and "\<forall>j. std_hash (envs j) = h"
    and "list_all (\<lambda>(env, os, now_sec). std_hash env = h) ins"
    and "Server_Run strerror sv hw boots = Inr ws"
    and "server_run main_handlers es (ws, \<lparr>objects = [], next_session_id = 1, shared = (ins, Some p)\<rparr>) = Some (ws', g)"
    and "snd (shared g) = Some p'"
  shows "store_inv h (p_store p')"
proof -
  let ?s = "(ins, Some p)" and ?D = "\<lambda>_. undefined"
  have "world_inv (\<lambda>_. []) (\<lambda>_. []) main_handlers (?D, ?s) [] \<lparr>objects = [], next_session_id = 1, shared = ?s\<rparr>"
    by (simp add: world_inv_def)
  then have "server_ok (\<lambda>_. []) (\<lambda>_. []) main_handlers (?D, ?s) (ws, \<lparr>objects = [], next_session_id = 1, shared = ?s\<rparr>)"
    using Server_Run_ok [OF assms(4)] unfolding server_ok_def by auto
  from server_run_ok [OF this assms(5)] obtain tr D where "replay main_handlers tr (?D, ?s) = (D, shared g)"
    unfolding server_ok_def world_inv_def by auto
  moreover have "main_inv h (snd (replay main_handlers tr (?D, ?s)))"
    by (rule replay_keeps)
      (use main_setup_inv [OF assms(1,2)] assms(3) in
        \<open>simp_all add: main_handlers_def main_request_inv main_http_inv main_timer_inv, simp add: main_inv_def\<close>)
  ultimately show ?thesis using assms(6) by (simp add: main_inv_def)
qed

text \<open>A run from the command line: a torn file, one connection that sends a request for a missing key and
  garbage after it.\<close>

definition example_args :: "string list" where
  "example_args = [''--persistence'', ''aof'', ''--workers'', ''1'']"

definition example_start :: "string \<times> int + Processor \<times> Server" where
  "example_start = main_setup (\<lambda>_. example_env 3) (Some ''SE'') example_args"

definition example_traffic :: "net_event list" where
  "example_traffic =
     (let payload = encode_call (B_Get ''a'');
          sk = \<lparr>sk_sends = [], sk_clock = \<lambda>_. 0,
                sk_reads = [[Received (EncodeFrame (new_header Msg_Request 0 7 0 (length payload)) payload @ ''garbage garbage garbage''), Recv_again]]\<rparr>
      in [Round 0 (Ready [(5, example_ready [Accepted 10 True sk])]) 10, Round 0 (Ready [(10, example_ready [])]) 20])"

definition example_service :: "(worker list \<times> main_state world) option" where
  "example_service =
     (case example_start of
        Inl _ \<Rightarrow> None
      | Inr (p, sv) \<Rightarrow>
          (case Server_Run (\<lambda>_. []) sv 1 example_boots of
             Inl _ \<Rightarrow> None
           | Inr ws \<Rightarrow>
               server_run main_handlers example_traffic
                 (ws, \<lparr>objects = [], next_session_id = 1, shared = ([(example_env 5, [], 0)], Some p)\<rparr>)))"

lemma example_service_alive:
  "case example_service of None \<Rightarrow> False | Some (ws, g) \<Rightarrow> (case shared g of ([], Some p) \<Rightarrow> True | _ \<Rightarrow> False)"
  by code_simp

theorem network_keeps_store_invariant_witness:
  "\<exists>ws g p. example_service = Some (ws, g) \<and> snd (shared g) = Some p \<and> store_inv length (p_store p)"
proof -
  obtain ws g p where g: "example_service = Some (ws, g)" "snd (shared g) = Some p"
    using example_service_alive by (auto split: option.splits prod.splits list.splits)
  then obtain p0 sv ws0 where s: "main_setup (\<lambda>_. example_env 3) (Some ''SE'') example_args = Inr (p0, sv)"
    "Server_Run (\<lambda>_. []) sv 1 example_boots = Inr ws0"
    "server_run main_handlers example_traffic
       (ws0, \<lparr>objects = [], next_session_id = 1, shared = ([(example_env 5, [], 0)], Some p0)\<rparr>) = Some (ws, g)"
    by (auto simp: example_service_def example_start_def split: sum.splits prod.splits)
  have "\<forall>j :: nat. std_hash (example_env 3) = length" "list_all (\<lambda>(env, os, now_sec). std_hash env = length) [(example_env 5, [], 0)]"
    by (simp_all add: example_env_def)
  from network_keeps_store_invariant [OF s(1) this s(2,3) g(2)] g show ?thesis by blast
qed

end
